(* ===== verification/C_Prelude.thy ===== *)
theory C_Prelude
  imports Main "HOL-Library.Word"
begin

text \<open>
  The part of C that the components share: undefined behaviour and non-termination as
  values of an error type, checked signed arithmetic on \<^verbatim>\<open>int\<close>, the conversions between
  \<^verbatim>\<open>int\<close> and \<^verbatim>\<open>size_t\<close>, the little-endian object representation of an \<^verbatim>\<open>int\<close>,
  \<^verbatim>\<open>memcpy\<close> into and out of a block of bytes, and the allocator.

  Conventions (x86-64 Linux, glibc, the platform of the Makefiles): \<^verbatim>\<open>int\<close> has 32 bits,
  \<^verbatim>\<open>size_t\<close> has 64 bits, integers are stored least significant byte first.
  A C function that may meet undefined behaviour returns a value of \<open>cerr + 'a\<close>:
  \<open>Inl e\<close> names the first undefined operation met, \<open>Inr v\<close> is a normal return.
\<close>

section \<open>Results\<close>

datatype cerr =
    SignedOverflow      \<comment> \<open>signed arithmetic leaves the range of \<^verbatim>\<open>int\<close>\<close>
  | NullDeref           \<comment> \<open>access through a null pointer\<close>
  | OutOfBounds         \<comment> \<open>access outside the block a pointer belongs to\<close>
  | UseAfterFree        \<comment> \<open>access to, or \<^verbatim>\<open>realloc\<close> of, a released block\<close>
  | InvalidFree         \<comment> \<open>\<^verbatim>\<open>free\<close> of an address that is not a live allocation\<close>
  | Uninitialised       \<comment> \<open>an indeterminate value decides the behaviour\<close>
  | NoReturnValue       \<comment> \<open>the value of a function that ended without \<^verbatim>\<open>return\<close> is used\<close>
  | Diverges            \<comment> \<open>a loop that never ends\<close>
  | BadCall             \<comment> \<open>call through a pointer to no known function\<close>
  | ExitProcess int     \<comment> \<open>the process ends through \<^verbatim>\<open>exit(status)\<close>\<close>

type_synonym 'a cres = "cerr + 'a"

definition cbind :: "'a cres \<Rightarrow> ('a \<Rightarrow> 'b cres) \<Rightarrow> 'b cres" where
  "cbind m f = (case m of Inl e \<Rightarrow> Inl e | Inr x \<Rightarrow> f x)"

named_theorems cres_simps \<open>evaluation of the result type\<close>

lemma cbind_Inl [simp, cres_simps]: "cbind (Inl e) f = Inl e"
  by (simp add: cbind_def)

lemma cbind_Inr [simp, cres_simps]: "cbind (Inr x) f = f x"
  by (simp add: cbind_def)

lemma cbind_eq_Inr_iff: "cbind m f = Inr y \<longleftrightarrow> (\<exists>x. m = Inr x \<and> f x = Inr y)"
  by (cases m) (auto simp: cbind_def)

lemma cbind_eq_Inl_iff:
  "cbind m f = Inl e \<longleftrightarrow> m = Inl e \<or> (\<exists>x. m = Inr x \<and> f x = Inl e)"
  by (cases m) (auto simp: cbind_def)

lemma cbind_eq_InrE [elim]:
  assumes "cbind m f = Inr y"
  obtains x where "m = Inr x" and "f x = Inr y"
  using assms by (auto simp: cbind_eq_Inr_iff)

lemma cbind_assoc: "cbind (cbind m f) g = cbind m (\<lambda>x. cbind (f x) g)"
  by (cases m) simp_all

text \<open>A loop defined by \<^theory_text>\<open>partial_function (option)\<close> that does not end is the error \<open>Diverges\<close>.\<close>

definition run_loop :: "'a cres option \<Rightarrow> 'a cres" where
  "run_loop r = (case r of None \<Rightarrow> Inl Diverges | Some x \<Rightarrow> x)"

lemma run_loop_simps [simp, cres_simps]:
  "run_loop None = Inl Diverges" "run_loop (Some r) = r"
  by (simp_all add: run_loop_def)

text \<open>Dereferencing a pointer that may be \<^verbatim>\<open>NULL\<close>.\<close>

definition deref :: "'a option \<Rightarrow> 'a cres" where
  "deref p = (case p of None \<Rightarrow> Inl NullDeref | Some x \<Rightarrow> Inr x)"

lemma deref_simps [simp, cres_simps]: "deref None = Inl NullDeref" "deref (Some x) = Inr x"
  by (simp_all add: deref_def)

section \<open>Integers\<close>

definition INT_MAX :: int where "INT_MAX = 2147483647"
definition INT_MIN :: int where "INT_MIN = -2147483648"

definition in_int :: "int \<Rightarrow> bool" where
  "in_int x \<longleftrightarrow> INT_MIN \<le> x \<and> x \<le> INT_MAX"

lemmas int_range_defs = in_int_def INT_MAX_def INT_MIN_def

definition c_int :: "int \<Rightarrow> int cres" where
  "c_int x = (if in_int x then Inr x else Inl SignedOverflow)"

lemma c_int_ok [simp, cres_simps]: "in_int x \<Longrightarrow> c_int x = Inr x"
  by (simp add: c_int_def)

lemma c_int_overflow [simp]: "\<not> in_int x \<Longrightarrow> c_int x = Inl SignedOverflow"
  by (simp add: c_int_def)

lemma c_int_eq_Inr_iff: "c_int x = Inr y \<longleftrightarrow> in_int x \<and> y = x"
  by (auto simp: c_int_def)

text \<open>Conversion to \<^verbatim>\<open>size_t\<close> is modulo \<open>2 ^ 64\<close>; conversion to \<^verbatim>\<open>int\<close> keeps the low 32 bits.\<close>

definition to_size_t :: "int \<Rightarrow> nat" where
  "to_size_t x = nat (x mod 18446744073709551616)"

definition to_int :: "nat \<Rightarrow> int" where
  "to_int n = (let m = int n mod 4294967296 in if m < 2147483648 then m else m - 4294967296)"

lemma to_size_t_nonneg [simp]: "0 \<le> x \<Longrightarrow> in_int x \<Longrightarrow> to_size_t x = nat x"
  by (simp add: to_size_t_def int_range_defs)

lemma to_size_t_nat [simp]: "n < 18446744073709551616 \<Longrightarrow> to_size_t (int n) = n"
  by (simp add: to_size_t_def)

lemma to_int_small [simp]: "n < 2147483648 \<Longrightarrow> to_int n = int n"
  by (simp add: to_int_def Let_def)

lemma to_int_range: "in_int (to_int n)"
proof -
  have "0 \<le> int n mod 4294967296" "int n mod 4294967296 < 4294967296" by simp_all
  then show ?thesis unfolding to_int_def Let_def int_range_defs by auto
qed

section \<open>Bytes\<close>

type_synonym byte = "8 word"

text \<open>\<open>le_bytes k n\<close>: the \<open>k\<close> low bytes of \<open>n\<close>, least significant first.\<close>

fun le_bytes :: "nat \<Rightarrow> nat \<Rightarrow> byte list" where
  "le_bytes 0 n = []"
| "le_bytes (Suc k) n = of_nat (n mod 256) # le_bytes k (n div 256)"

fun le_nat :: "byte list \<Rightarrow> nat" where
  "le_nat [] = 0"
| "le_nat (x # xs) = unat x + 256 * le_nat xs"

lemma length_le_bytes [simp]: "length (le_bytes k n) = k"
  by (induction k arbitrary: n) auto

lemma unat_byte: "unat (x :: byte) < 256"
  using unsigned_less [of x] by simp

lemma unat_of_nat_byte: "unat (of_nat (n mod 256) :: byte) = n mod 256"
  by (simp add: unat_of_nat)

lemma le_nat_le_bytes: "le_nat (le_bytes k n) = n mod 256 ^ k"
proof (induction k arbitrary: n)
  case (Suc k)
  have "n mod 256 ^ Suc k = n mod (256 * 256 ^ k)" by simp
  also have "\<dots> = 256 * (n div 256 mod 256 ^ k) + n mod 256"
    by (rule mod_mult2_eq)
  finally show ?case using Suc by (simp add: unat_of_nat_byte)
qed simp

lemma le_nat_bound: "le_nat xs < 256 ^ length xs"
proof (induction xs)
  case (Cons x xs)
  have "unat x < 256" by (rule unat_byte)
  then have "unat x + 256 * le_nat xs < 256 + 256 * le_nat xs" by simp
  also have "\<dots> = 256 * Suc (le_nat xs)" by simp
  also have "\<dots> \<le> 256 * 256 ^ length xs" using Cons by (intro mult_le_mono2) simp
  finally show ?case by simp
qed simp

lemma le_bytes_le_nat: "le_bytes (length xs) (le_nat xs) = xs"
proof (induction xs)
  case (Cons x xs)
  have x: "unat x < 256" by (rule unat_byte)
  have "(unat x + 256 * le_nat xs) mod 256 = unat x" using x by simp
  moreover have "(unat x + 256 * le_nat xs) div 256 = le_nat xs" using x by simp
  ultimately show ?case using Cons by simp
qed simp

text \<open>The object representation of an \<^verbatim>\<open>int\<close> (two's complement) and its inverse.\<close>

definition int_bytes :: "int \<Rightarrow> byte list" where
  "int_bytes x = le_bytes 4 (nat (x mod 4294967296))"

definition bytes_int :: "byte list \<Rightarrow> int" where
  "bytes_int bs = to_int (le_nat bs)"

lemma length_int_bytes [simp]: "length (int_bytes x) = 4"
  by (simp add: int_bytes_def)

lemma bytes_int_int_bytes [simp]:
  assumes "in_int x"
  shows "bytes_int (int_bytes x) = x"
proof -
  let ?n = "nat (x mod 4294967296)"
  have "?n < 256 ^ 4" by simp
  then have n: "le_nat (int_bytes x) = ?n"
    by (simp add: int_bytes_def le_nat_le_bytes)
  have "to_int ?n = x"
  proof (cases "0 \<le> x")
    case True
    with assms show ?thesis by (simp add: to_int_def int_range_defs)
  next
    case False
    with assms have "(x + 4294967296) mod 4294967296 = x + 4294967296"
      unfolding int_range_defs by (intro mod_pos_pos_trivial) auto
    with False assms show ?thesis
      by (simp add: to_int_def int_range_defs Let_def)
  qed
  with n show ?thesis by (simp add: bytes_int_def)
qed

lemma int_bytes_inj: "in_int x \<Longrightarrow> in_int y \<Longrightarrow> int_bytes x = int_bytes y \<Longrightarrow> x = y"
  by (metis bytes_int_int_bytes)

section \<open>Blocks of memory\<close>

text \<open>
  \<open>poke blk off data\<close> is \<^verbatim>\<open>memcpy\<close> of \<open>data\<close> to offset \<open>off\<close> of a block,
  \<open>peek blk off n\<close> is \<^verbatim>\<open>memcpy\<close> of \<open>n\<close> bytes out of it.
  Both are undefined when the range leaves the block.
\<close>

definition poke :: "'a list \<Rightarrow> int \<Rightarrow> 'a list \<Rightarrow> 'a list cres" where
  "poke blk off data =
     (if 0 \<le> off \<and> nat off + length data \<le> length blk
      then Inr (take (nat off) blk @ data @ drop (nat off + length data) blk)
      else Inl OutOfBounds)"

definition peek :: "'a list \<Rightarrow> int \<Rightarrow> nat \<Rightarrow> 'a list cres" where
  "peek blk off n =
     (if 0 \<le> off \<and> nat off + n \<le> length blk then Inr (take n (drop (nat off) blk))
      else Inl OutOfBounds)"

lemma poke_length: "poke blk off data = Inr blk' \<Longrightarrow> length blk' = length blk"
  by (auto simp: poke_def split: if_splits)

lemma peek_length: "peek blk off n = Inr bs \<Longrightarrow> length bs = n"
  by (auto simp: peek_def split: if_splits)

lemma peek_poke:
  "poke blk off data = Inr blk' \<Longrightarrow> peek blk' off (length data) = Inr data"
  by (auto simp: poke_def peek_def split: if_splits)

section \<open>The allocator\<close>

text \<open>
  What the program sees of the allocator: whether a request of \<open>n\<close> bytes is granted, and
  the indeterminate bytes found in memory that \<^verbatim>\<open>malloc\<close> or \<^verbatim>\<open>realloc\<close> hands out.
  No request beyond \<^verbatim>\<open>PTRDIFF_MAX\<close> is ever granted.
\<close>

record allocator =
  grants :: "nat \<Rightarrow> bool"
  junk :: "nat \<Rightarrow> byte"

definition PTRDIFF_MAX :: nat where "PTRDIFF_MAX = 9223372036854775807"

definition alloc_ok :: "allocator \<Rightarrow> nat \<Rightarrow> bool" where
  "alloc_ok A n \<longleftrightarrow> n \<le> PTRDIFF_MAX \<and> grants A n"

definition generous :: allocator where
  "generous = \<lparr>grants = (\<lambda>n. True), junk = (\<lambda>n. 0)\<rparr>"

lemma generous_simps [simp]: "grants generous n" "junk generous n = 0"
  by (simp_all add: generous_def)

lemma alloc_ok_small [simp]: "n \<le> 2147483648 \<Longrightarrow> alloc_ok A n = grants A n"
  by (simp add: alloc_ok_def PTRDIFF_MAX_def)

end
