(* ===== verification/Ser_Buffer.thy ===== *)
theory Ser_Buffer
  imports C_Prelude "HOL-Library.Sublist"
begin

text \<open>
  The growable byte buffer of \<^verbatim>\<open>common/serialized_buffer.c\<close>: the structure
  \<^verbatim>\<open>_ser_buff_t\<close>, every operation of the file, the representation invariant
  \<open>sb_wf\<close>, and what each operation does to it. A handle \<^verbatim>\<open>ser_buff_t\<close> is a pointer:
  \<open>None\<close> is \<^verbatim>\<open>NULL\<close>, \<open>Some s\<close> points to the structure \<open>s\<close>.
\<close>

section \<open>The structure and its operations\<close>

text \<open>
  \<open>blk\<close> is the memory \<^verbatim>\<open>b\<close> points to: the bytes that are really allocated, or \<open>None\<close>
  once the block has been released. The field \<^verbatim>\<open>size\<close> is what the code believes the
  length of the block to be. Function pointers are named by the C function they point to.
\<close>

type_synonym fptr = "string option"

record ser_buff =
  blk :: "byte list option"
  bsize :: int
  bnext :: int
  ser_func :: fptr
  dser_func :: fptr

type_synonym ser_buff_t = "ser_buff option"

definition SERIALIZE_BUFFER_DEFAULT_SIZE :: int where
  "SERIALIZE_BUFFER_DEFAULT_SIZE = 512"

definition sizeof_ser_buff :: nat where
  "sizeof_ser_buff = 32"

definition serialized_buffer_create :: "allocator \<Rightarrow> fptr \<Rightarrow> fptr \<Rightarrow> ser_buff_t" where
  "serialized_buffer_create A f df =
     (if \<not> alloc_ok A sizeof_ser_buff then None
      else if \<not> alloc_ok A (nat SERIALIZE_BUFFER_DEFAULT_SIZE) then None
      else Some \<lparr>blk = Some (replicate (nat SERIALIZE_BUFFER_DEFAULT_SIZE) 0),
                 bsize = SERIALIZE_BUFFER_DEFAULT_SIZE, bnext = 0,
                 ser_func = f, dser_func = df\<rparr>)"

text \<open>
  \<^verbatim>\<open>serialized_buffer_destroy\<close> frees the block and the structure; afterwards the handle may
  no longer be used. A block already released by \<^verbatim>\<open>realloc\<close> would be freed twice.
\<close>

definition serialized_buffer_destroy :: "ser_buff_t \<Rightarrow> unit cres" where
  "serialized_buffer_destroy buf =
     (case buf of None \<Rightarrow> Inr ()
      | Some s \<Rightarrow> (case blk s of None \<Rightarrow> Inl InvalidFree | Some _ \<Rightarrow> Inr ()))"

definition serialized_buffer_size :: "ser_buff_t \<Rightarrow> int cres" where
  "serialized_buffer_size buf = cbind (deref buf) (\<lambda>s. Inr (bsize s))"

definition serialized_buffer_next :: "ser_buff_t \<Rightarrow> int cres" where
  "serialized_buffer_next buf = cbind (deref buf) (\<lambda>s. Inr (bnext s))"

text \<open>
  \<^verbatim>\<open>realloc\<close> of a live block: size 0 releases the block and returns \<^verbatim>\<open>NULL\<close> (glibc); a
  refused request returns \<^verbatim>\<open>NULL\<close> and leaves the block alone; a granted one keeps the
  common prefix and leaves the rest indeterminate. The first component is the new block,
  the second tells whether the result was non-null.
\<close>

definition realloc :: "allocator \<Rightarrow> byte list option \<Rightarrow> nat \<Rightarrow> (byte list option \<times> bool) cres" where
  "realloc A p n =
     (case p of None \<Rightarrow> Inl UseAfterFree
      | Some bs \<Rightarrow>
          if n = 0 then Inr (None, False)
          else if alloc_ok A n
          then Inr (Some (take n bs @ map (junk A) [length bs..<n]), True)
          else Inr (Some bs, False))"

text \<open>
  The size field is multiplied before the reallocation and is not restored when the
  reallocation fails, as in the source.
\<close>

definition serialized_buffer_resize :: "allocator \<Rightarrow> ser_buff_t \<Rightarrow> int \<Rightarrow> ser_buff_t cres" where
  "serialized_buffer_resize A buf ratio =
     cbind (deref buf) (\<lambda>s.
     cbind (c_int (bsize s * ratio)) (\<lambda>sz.
     cbind (realloc A (blk s) (to_size_t sz)) (\<lambda>(p, non_null).
     Inr (Some (s\<lparr>bsize := sz, blk := p\<rparr>)))))"

definition int_available :: "ser_buff_t \<Rightarrow> int cres" where
  "int_available buf =
     cbind (serialized_buffer_size buf) (\<lambda>sz.
     cbind (serialized_buffer_next buf) (\<lambda>nx. c_int (sz - nx)))"

partial_function (option) skip_loop ::
  "allocator \<Rightarrow> ser_buff_t \<Rightarrow> int \<Rightarrow> int \<Rightarrow> ser_buff_t cres option" where
  "skip_loop A buf available_size n =
     (if available_size < n then
        (case cbind (serialized_buffer_resize A buf 2)
                (\<lambda>buf'. cbind (int_available buf') (\<lambda>av. Inr (buf', av))) of
           Inl e \<Rightarrow> Some (Inl e)
         | Inr (buf', av) \<Rightarrow> skip_loop A buf' av n)
      else Some (Inr buf))"

definition serialized_buffer_ser_pos_incr :: "ser_buff_t \<Rightarrow> int \<Rightarrow> ser_buff_t cres" where
  "serialized_buffer_ser_pos_incr buf n =
     cbind (deref buf) (\<lambda>s. cbind (c_int (bnext s + n)) (\<lambda>m. Inr (Some (s\<lparr>bnext := m\<rparr>))))"

definition serialized_buffer_skip :: "allocator \<Rightarrow> ser_buff_t \<Rightarrow> int \<Rightarrow> ser_buff_t cres" where
  "serialized_buffer_skip A buf n =
     cbind (int_available buf) (\<lambda>available_size.
     if available_size \<ge> n then serialized_buffer_ser_pos_incr buf n
     else cbind (run_loop (skip_loop A buf available_size n))
            (\<lambda>buf'. serialized_buffer_ser_pos_incr buf' n))"

text \<open>
  \<^verbatim>\<open>serialized_buffer_start_pos\<close> returns the block, \<^verbatim>\<open>serialized_buffer_ser_pos\<close> a pointer
  into it: the block and the offset.
\<close>

definition serialized_buffer_start_pos :: "ser_buff_t \<Rightarrow> byte list option cres" where
  "serialized_buffer_start_pos buf = cbind (deref buf) (\<lambda>s. Inr (blk s))"

definition serialized_buffer_ser_pos :: "ser_buff_t \<Rightarrow> (byte list option \<times> int) cres" where
  "serialized_buffer_ser_pos buf = cbind (deref buf) (\<lambda>s. Inr (blk s, bnext s))"

definition serialized_buffer_reset :: "ser_buff_t \<Rightarrow> ser_buff_t cres" where
  "serialized_buffer_reset buf = cbind (deref buf) (\<lambda>s. Inr (Some (s\<lparr>bnext := 0\<rparr>)))"

text \<open>
  The calls through the stored function pointers. \<open>call\<close> interprets the names of the C
  functions of the client program; a null function pointer is not checked by the code.
\<close>

definition serialized_buffer_do_serialize ::
  "(string \<Rightarrow> ser_buff_t \<Rightarrow> 'a \<Rightarrow> ser_buff_t cres) \<Rightarrow> ser_buff_t \<Rightarrow> 'a \<Rightarrow> ser_buff_t cres" where
  "serialized_buffer_do_serialize call buf data =
     cbind (deref buf) (\<lambda>s. cbind (deref (ser_func s)) (\<lambda>f. call f buf data))"

definition serialized_buffer_do_deserialize ::
  "(string \<Rightarrow> ser_buff_t \<Rightarrow> ('a \<times> ser_buff_t) cres) \<Rightarrow> ser_buff_t \<Rightarrow> ('a \<times> ser_buff_t) cres" where
  "serialized_buffer_do_deserialize call buf =
     cbind (deref buf) (\<lambda>s. cbind (deref (dser_func s)) (\<lambda>f. call f buf))"

section \<open>The representation invariant\<close>

text \<open>
  The block is live, as long as the size field says, and the cursor lies inside it.
\<close>

definition sb_wf :: "ser_buff \<Rightarrow> bool" where
  "sb_wf s \<longleftrightarrow>
     (case blk s of None \<Rightarrow> False
      | Some bs \<Rightarrow> int (length bs) = bsize s \<and> 0 < bsize s \<and> bsize s \<le> INT_MAX
                  \<and> 0 \<le> bnext s \<and> bnext s \<le> bsize s)"

text \<open>
  The abstract view of a buffer: what has been written (before the cursor) and what may
  still be read (from the cursor on).
\<close>

definition contents :: "ser_buff \<Rightarrow> byte list" where
  "contents s = (case blk s of None \<Rightarrow> [] | Some bs \<Rightarrow> bs)"

definition written :: "ser_buff \<Rightarrow> byte list" where
  "written s = take (nat (bnext s)) (contents s)"

definition unread :: "ser_buff \<Rightarrow> byte list" where
  "unread s = drop (nat (bnext s)) (contents s)"

text \<open>An allocator that grants every request an \<^verbatim>\<open>int\<close> can express.\<close>

definition ample :: "allocator \<Rightarrow> bool" where
  "ample A \<longleftrightarrow> (\<forall>n < 2147483648. grants A n)"

lemma ample_generous [simp]: "ample generous"
  by (simp add: ample_def)

lemma sb_wfE [elim]:
  assumes "sb_wf s"
  obtains bs where "blk s = Some bs" and "contents s = bs" and "int (length bs) = bsize s"
    and "0 < bsize s" and "bsize s \<le> INT_MAX" and "0 \<le> bnext s" and "bnext s \<le> bsize s"
  using assms by (auto simp: sb_wf_def contents_def split: option.splits)

lemma sb_wfI [intro]:
  "blk s = Some bs \<Longrightarrow> int (length bs) = bsize s \<Longrightarrow> 0 < bsize s \<Longrightarrow> bsize s \<le> INT_MAX \<Longrightarrow>
   0 \<le> bnext s \<Longrightarrow> bnext s \<le> bsize s \<Longrightarrow> sb_wf s"
  by (simp add: sb_wf_def)

lemma sb_wf_in_int:
  assumes "sb_wf s"
  shows "in_int (bsize s)" "in_int (bnext s)" "in_int (bsize s - bnext s)"
  using assms by (auto simp: int_range_defs)

lemma written_append_unread: "written s @ unread s = contents s"
  by (simp add: written_def unread_def)

lemma length_written: "sb_wf s \<Longrightarrow> length (written s) = nat (bnext s)"
  by (auto simp: written_def)

lemma length_unread: "sb_wf s \<Longrightarrow> length (unread s) = nat (bsize s - bnext s)"
  by (auto simp: unread_def)

lemma sb_wf_create: "serialized_buffer_create A f df = Some s \<Longrightarrow> sb_wf s"
  by (auto simp: serialized_buffer_create_def SERIALIZE_BUFFER_DEFAULT_SIZE_def
      sb_wf_def INT_MAX_def split: if_splits)

lemma create_generous:
  "serialized_buffer_create generous f df =
     Some \<lparr>blk = Some (replicate 512 0), bsize = 512, bnext = 0, ser_func = f, dser_func = df\<rparr>"
  by (simp add: serialized_buffer_create_def SERIALIZE_BUFFER_DEFAULT_SIZE_def sizeof_ser_buff_def)

lemma written_create: "serialized_buffer_create A f df = Some s \<Longrightarrow> written s = []"
  by (auto simp: serialized_buffer_create_def written_def split: if_splits)

section \<open>Growing\<close>

text \<open>\<open>grown s s'\<close>: \<open>s'\<close> is \<open>s\<close> with a block at least as long; everything written is kept.\<close>

definition grown :: "ser_buff \<Rightarrow> ser_buff \<Rightarrow> bool" where
  "grown s s' \<longleftrightarrow> sb_wf s' \<and> bnext s' = bnext s \<and> bsize s \<le> bsize s'
     \<and> ser_func s' = ser_func s \<and> dser_func s' = dser_func s
     \<and> prefix (contents s) (contents s')"

lemma grown_refl: "sb_wf s \<Longrightarrow> grown s s"
  by (simp add: grown_def)

lemma grown_trans: "grown s t \<Longrightarrow> grown t u \<Longrightarrow> grown s u"
  unfolding grown_def using prefix_order.trans by fastforce

lemma grown_written:
  assumes "grown s s'" and "sb_wf s"
  shows "written s' = written s"
proof -
  from assms(1) obtain zs where zs: "contents s' = contents s @ zs"
    by (auto simp: grown_def prefix_def)
  moreover have "nat (bnext s) \<le> length (contents s)" using assms(2) by auto
  ultimately show ?thesis using assms(1) by (simp add: written_def grown_def)
qed

lemma resize_double:
  assumes "sb_wf s" and "2 * bsize s \<le> INT_MAX" and "ample A"
  shows "\<exists>s'. serialized_buffer_resize A (Some s) 2 = Inr (Some s') \<and> grown s s'
           \<and> bsize s' = 2 * bsize s"
proof -
  from assms(1) obtain bs where bs: "blk s = Some bs" "contents s = bs"
      "int (length bs) = bsize s" "0 < bsize s" "0 \<le> bnext s" "bnext s \<le> bsize s"
    by blast
  let ?n = "nat (2 * bsize s)"
  let ?p = "take ?n bs @ map (junk A) [length bs..<?n]"
  let ?s' = "s\<lparr>bsize := bsize s * 2, blk := Some ?p\<rparr>"
  have n: "?n < 2147483648" using assms(2) bs(4) by (simp add: INT_MAX_def)
  have fits: "in_int (bsize s * 2)" "to_size_t (bsize s * 2) = ?n"
    using assms(2) bs(4) by (simp_all add: int_range_defs mult.commute)
  have alloc: "realloc A (blk s) ?n = Inr (Some ?p, True)"
    using bs(1,4) n assms(3) by (simp add: realloc_def ample_def)
  have "serialized_buffer_resize A (Some s) 2 = Inr (Some ?s')"
    using fits alloc by (simp add: serialized_buffer_resize_def)
  moreover have "length bs \<le> ?n" using bs(3) by linarith
  then have p: "?p = bs @ map (junk A) [length bs..<?n]" by simp
  have len: "int (length ?p) = bsize s * 2" using p bs(3,4) by simp
  have "sb_wf ?s'"
    using bs(4,5,6) assms(2) len by (intro sb_wfI [where bs = ?p]) (simp_all del: length_append)
  then have "grown s ?s'" using p bs by (simp add: grown_def contents_def)
  ultimately show ?thesis by (auto simp: mult.commute)
qed

text \<open>
  A failed reallocation breaks the invariant: the size field doubles while the block stays
  as it is.
\<close>

lemma resize_refused:
  assumes "sb_wf s" and "2 * bsize s \<le> INT_MAX" and "\<not> grants A (nat (2 * bsize s))"
  shows "serialized_buffer_resize A (Some s) 2 = Inr (Some (s\<lparr>bsize := 2 * bsize s\<rparr>))"
    and "\<not> sb_wf (s\<lparr>bsize := 2 * bsize s\<rparr>)"
proof -
  from assms(1) obtain bs where bs: "blk s = Some bs" "int (length bs) = bsize s" "0 < bsize s"
    by blast
  have *: "in_int (2 * bsize s)" "to_size_t (2 * bsize s) = nat (2 * bsize s)"
    using assms(2) bs(3) by (simp_all add: int_range_defs)
  have r: "realloc A (blk s) (nat (2 * bsize s)) = Inr (Some bs, False)"
    using bs assms(3) by (simp add: realloc_def alloc_ok_def)
  have "s\<lparr>bsize := 2 * bsize s, blk := Some bs\<rparr> = s\<lparr>bsize := 2 * bsize s\<rparr>"
    using bs(1) by (cases s) simp
  with * r show "serialized_buffer_resize A (Some s) 2 = Inr (Some (s\<lparr>bsize := 2 * bsize s\<rparr>))"
    by (simp add: serialized_buffer_resize_def mult.commute [of _ 2])
  from bs show "\<not> sb_wf (s\<lparr>bsize := 2 * bsize s\<rparr>)"
    by (simp add: sb_wf_def)
qed

lemma int_available_wf [simp]: "sb_wf s \<Longrightarrow> int_available (Some s) = Inr (bsize s - bnext s)"
  by (simp add: int_available_def serialized_buffer_size_def serialized_buffer_next_def sb_wf_in_int)

text \<open>
  Both growth loops of the library (in \<^verbatim>\<open>serialized_buffer_skip\<close> and in
  \<^verbatim>\<open>serialize_data\<close>) double the buffer until \<open>need\<close> bytes fit. This is the induction
  they share: \<open>P s\<close> holds of every well-formed buffer from which a loop starts.
\<close>

lemma doubling_induct [consumes 2, case_names enough double]:
  assumes "sb_wf s" and "need \<le> 1073741824"
    and enough: "\<And>s. sb_wf s \<Longrightarrow> need \<le> bsize s \<Longrightarrow> P s"
    and double: "\<And>s. sb_wf s \<Longrightarrow> bsize s < need \<Longrightarrow> 2 * bsize s \<le> INT_MAX \<Longrightarrow>
                   (\<And>s'. grown s s' \<Longrightarrow> bsize s' = 2 * bsize s \<Longrightarrow> P s') \<Longrightarrow> P s"
  shows "P s"
  using assms(1)
proof (induction "nat (need - bsize s)" arbitrary: s rule: less_induct)
  case less
  show ?case
  proof (cases "need \<le> bsize s")
    case True
    with less.prems show ?thesis by (rule enough)
  next
    case False
    have pos: "0 < bsize s" using less.prems by blast
    show ?thesis
    proof (rule double)
      show "2 * bsize s \<le> INT_MAX" using False assms(2) by (simp add: INT_MAX_def)
      fix s' assume "grown s s'" and sz: "bsize s' = 2 * bsize s"
      then have "sb_wf s'" by (simp add: grown_def)
      moreover have "nat (need - bsize s') < nat (need - bsize s)" using sz pos False by linarith
      ultimately show "P s'" by (rule less.hyps [rotated])
    qed (use less.prems False in auto)
  qed
qed

end
