(* ===== verification/Serialize.thy ===== *)
theory Serialize
  imports Ser_Buffer
begin

text \<open>
  The encoders of \<^verbatim>\<open>common/serialize.c\<close> and the decoders of \<^verbatim>\<open>common/deserialize.c\<close>,
  over the buffer of theory \<open>Ser_Buffer\<close>. The lemmas give each of them its effect on the
  abstract byte stream (\<open>appended\<close>, \<open>advance\<close>); the locale \<open>codec\<close> states the contract
  between an encoder and its decoder and derives round trips of whole sequences from it.
\<close>

section \<open>Encoders\<close>

definition size_available :: "ser_buff_t \<Rightarrow> nat cres" where
  "size_available buf = cbind (int_available buf) (\<lambda>n. Inr (to_size_t n))"

partial_function (option) serialize_data_loop ::
  "allocator \<Rightarrow> ser_buff_t \<Rightarrow> nat \<Rightarrow> nat \<Rightarrow> int \<Rightarrow> (ser_buff_t \<times> int) cres option" where
  "serialize_data_loop A buf available_size n is_resized =
     (if available_size < n then
        (case cbind (serialized_buffer_resize A buf 2)
                (\<lambda>buf'. cbind (size_available buf') (\<lambda>av. Inr (buf', av))) of
           Inl e \<Rightarrow> Some (Inl e)
         | Inr (buf', av) \<Rightarrow> serialize_data_loop A buf' av n 1)
      else Some (Inr (buf, is_resized)))"

text \<open>\<^verbatim>\<open>memcpy(SER_BUF_POS, data, size)\<close>: reads \<open>n\<close> bytes of \<open>data\<close>, writes them at the cursor.\<close>

definition memcpy_to_pos :: "ser_buff_t \<Rightarrow> byte list \<Rightarrow> nat \<Rightarrow> ser_buff_t cres" where
  "memcpy_to_pos buf data n =
     cbind (deref buf) (\<lambda>s.
     cbind (serialized_buffer_ser_pos buf) (\<lambda>(p, off).
     cbind (peek data 0 n) (\<lambda>d.
       case p of None \<Rightarrow> Inl UseAfterFree
       | Some bs \<Rightarrow> cbind (poke bs off d) (\<lambda>bs'. Inr (Some (s\<lparr>blk := Some bs'\<rparr>))))))"

definition serialize_data :: "allocator \<Rightarrow> ser_buff_t \<Rightarrow> byte list \<Rightarrow> nat \<Rightarrow> ser_buff_t cres" where
  "serialize_data A buf data n =
     (if buf = None then Inr buf
      else cbind (size_available buf) (\<lambda>available_size.
           cbind (run_loop (serialize_data_loop A buf available_size n 0)) (\<lambda>(buf', is_resized).
           if is_resized = 0 then
             cbind (memcpy_to_pos buf' data n) (\<lambda>b. serialized_buffer_ser_pos_incr b (to_int n))
           else
             cbind (memcpy_to_pos buf' data n) (\<lambda>b. serialized_buffer_ser_pos_incr b (to_int n)))))"

text \<open>\<^verbatim>\<open>unsigned int sentinel = 0xFFFFFFFF\<close>, the encoding of a null pointer.\<close>

definition sentinel :: "byte list" where
  "sentinel = le_bytes 4 4294967295"

definition serialize_null :: "allocator \<Rightarrow> ser_buff_t \<Rightarrow> ser_buff_t cres" where
  "serialize_null A buf = serialize_data A buf sentinel 4"

definition serialize_int :: "allocator \<Rightarrow> ser_buff_t \<Rightarrow> int \<Rightarrow> ser_buff_t cres" where
  "serialize_int A buf x = serialize_data A buf (int_bytes x) 4"

definition serialize ::
  "(string \<Rightarrow> ser_buff_t \<Rightarrow> 'a option \<Rightarrow> ser_buff_t cres) \<Rightarrow> allocator \<Rightarrow> ser_buff_t \<Rightarrow>
   'a option \<Rightarrow> ser_buff_t cres" where
  "serialize call A buf data =
     (if data = None then serialize_data A buf sentinel 4
      else serialized_buffer_do_serialize call buf data)"

definition serialize_list ::
  "ser_buff_t \<Rightarrow> 'a \<Rightarrow> (ser_buff_t \<Rightarrow> 'a \<Rightarrow> ser_buff_t cres) \<Rightarrow> ser_buff_t cres" where
  "serialize_list buf xs ser_list = ser_list buf xs"

section \<open>Decoders\<close>

text \<open>
  \<open>deserialize_data buf dest n\<close> returns the destination object after the call: it is
  unchanged when the request is refused.
\<close>

definition deserialize_data :: "ser_buff_t \<Rightarrow> byte list \<Rightarrow> nat \<Rightarrow> (byte list \<times> ser_buff_t) cres" where
  "deserialize_data buf dest n =
     (if n = 0 \<or> buf = None then Inr (dest, buf)
      else cbind (serialized_buffer_size buf) (\<lambda>sz.
           cbind (serialized_buffer_next buf) (\<lambda>nx.
           cbind (c_int (to_int n + nx)) (\<lambda>last.
           if sz < last then Inr (dest, buf)
           else cbind (serialized_buffer_ser_pos buf) (\<lambda>(p, off).
                case p of None \<Rightarrow> Inl UseAfterFree
                | Some bs \<Rightarrow>
                    cbind (peek bs off n) (\<lambda>d.
                    cbind (poke dest 0 d) (\<lambda>dest'.
                    cbind (serialized_buffer_ser_pos_incr buf (to_int n)) (\<lambda>buf'.
                    Inr (dest', buf')))))))))"

definition deserialize_null :: "allocator \<Rightarrow> ser_buff_t \<Rightarrow> (int \<times> ser_buff_t) cres" where
  "deserialize_null A buf =
     cbind (deserialize_data buf (le_bytes 4 0) 4) (\<lambda>(snt, buf').
     if le_nat snt = 4294967295 then Inr (- 1, buf')
     else cbind (serialized_buffer_skip A buf' (- 4)) (\<lambda>buf''. Inr (0, buf'')))"

definition deserialize ::
  "(string \<Rightarrow> ser_buff_t \<Rightarrow> ('a option \<times> ser_buff_t) cres) \<Rightarrow> allocator \<Rightarrow> ser_buff_t \<Rightarrow>
   ('a option \<times> ser_buff_t) cres" where
  "deserialize call A buf =
     cbind (deserialize_null A buf) (\<lambda>(r, buf').
     if r \<noteq> 0 then Inr (None, buf') else serialized_buffer_do_deserialize call buf')"

definition deserialize_int :: "ser_buff_t \<Rightarrow> (int \<times> ser_buff_t) cres" where
  "deserialize_int buf =
     cbind (serialized_buffer_size buf) (\<lambda>sz.
     cbind (serialized_buffer_next buf) (\<lambda>nx.
     cbind (c_int (4 + nx)) (\<lambda>last.
     if sz < last then Inr (0, buf)
     else cbind (serialized_buffer_ser_pos buf) (\<lambda>(p, off).
          case p of None \<Rightarrow> Inl UseAfterFree
          | Some bs \<Rightarrow>
              cbind (peek bs off 4) (\<lambda>d.
              cbind (serialized_buffer_ser_pos_incr buf 4) (\<lambda>buf'.
              Inr (bytes_int d, buf')))))))"

section \<open>Effect of the encoders\<close>

text \<open>
  \<open>appended s d s'\<close>: \<open>s'\<close> is a well-formed buffer whose written part is that of \<open>s\<close>
  followed by \<open>d\<close>.
\<close>

definition appended :: "ser_buff \<Rightarrow> byte list \<Rightarrow> ser_buff \<Rightarrow> bool" where
  "appended s d s' \<longleftrightarrow> sb_wf s' \<and> written s' = written s @ d
     \<and> bnext s' = bnext s + int (length d)
     \<and> ser_func s' = ser_func s \<and> dser_func s' = dser_func s"

lemma appendedD:
  assumes "appended s d s'"
  shows "sb_wf s'" "written s' = written s @ d" "bnext s' = bnext s + int (length d)"
    "ser_func s' = ser_func s" "dser_func s' = dser_func s"
  using assms by (simp_all add: appended_def)

lemma appended_refl: "sb_wf s \<Longrightarrow> appended s [] s"
  by (simp add: appended_def)

lemma appended_trans: "appended s d t \<Longrightarrow> appended t e u \<Longrightarrow> appended s (d @ e) u"
  by (simp add: appended_def)

lemma size_available_wf [simp]:
  assumes "sb_wf s"
  shows "size_available (Some s) = Inr (nat (bsize s - bnext s))"
proof -
  have "0 \<le> bsize s - bnext s" using assms by auto
  then show ?thesis using assms sb_wf_in_int(3) [OF assms] by (simp add: size_available_def)
qed

lemma grow_step:
  assumes "sb_wf s" and "bsize s < need" and "2 * bsize s \<le> INT_MAX" and "ample A"
    and "bnext s + int n = need"
  obtains s' where "grown s s'" and "bsize s' = 2 * bsize s"
    and "\<And>r. serialize_data_loop A (Some s) (nat (bsize s - bnext s)) n r =
               serialize_data_loop A (Some s') (nat (bsize s' - bnext s')) n 1"
proof -
  from resize_double [OF assms(1,3,4)] obtain s'
    where s': "serialized_buffer_resize A (Some s) 2 = Inr (Some s')" "grown s s'"
      "bsize s' = 2 * bsize s" by blast
  have "sb_wf s'" using s'(2) by (simp add: grown_def)
  moreover have "bnext s \<le> bsize s" using assms(1) by blast
  then have "nat (bsize s - bnext s) < n" using assms(2,5) by linarith
  ultimately have "serialize_data_loop A (Some s) (nat (bsize s - bnext s)) n r =
      serialize_data_loop A (Some s') (nat (bsize s' - bnext s')) n 1" for r
    by (subst serialize_data_loop.simps) (simp add: s'(1))
  with s'(2,3) show thesis by (rule that)
qed

lemma serialize_data_loop_grows:
  assumes "sb_wf s" and "need \<le> 1073741824" and "bnext s + int n = need" and "ample A"
  shows "\<exists>s' r'. serialize_data_loop A (Some s) (nat (bsize s - bnext s)) n r = Some (Inr (Some s', r'))
           \<and> grown s s' \<and> need \<le> bsize s' \<and> (bsize s' = bsize s \<or> bsize s' < 2 * need)"
  using assms(1,2,3)
proof (induction s arbitrary: r rule: doubling_induct)
  case (enough s)
  have "\<not> nat (bsize s - bnext s) < n" using enough by linarith
  then have "serialize_data_loop A (Some s) (nat (bsize s - bnext s)) n r = Some (Inr (Some s, r))"
    by (subst serialize_data_loop.simps) simp
  with enough show ?case by (auto intro: grown_refl)
next
  case (double s)
  from double(1-3) assms(4) double.prems obtain s1
    where s1: "grown s s1" "bsize s1 = 2 * bsize s"
      "\<And>r. serialize_data_loop A (Some s) (nat (bsize s - bnext s)) n r =
              serialize_data_loop A (Some s1) (nat (bsize s1 - bnext s1)) n 1"
    by (rule grow_step) blast
  have "bnext s1 + int n = need" using s1(1) double.prems by (simp add: grown_def)
  from double(4) [OF s1(1,2) this, of 1] obtain s2 r2 where
    "serialize_data_loop A (Some s1) (nat (bsize s1 - bnext s1)) n 1 = Some (Inr (Some s2, r2))"
    "grown s1 s2" "need \<le> bsize s2" "bsize s2 = bsize s1 \<or> bsize s2 < 2 * need"
    by blast
  with s1 double(2) show ?case by (auto intro: grown_trans)
qed

lemma store_at_cursor:
  assumes "sb_wf s" and "bnext s + int (length d) \<le> bsize s"
  shows "\<exists>s'. cbind (memcpy_to_pos (Some s) d (length d))
           (\<lambda>b. serialized_buffer_ser_pos_incr b (to_int (length d))) = Inr (Some s')
         \<and> appended s d s' \<and> bsize s' = bsize s"
proof -
  from assms(1) obtain bs where bs: "blk s = Some bs" "contents s = bs" "int (length bs) = bsize s"
      "0 < bsize s" "bsize s \<le> INT_MAX" "0 \<le> bnext s" "bnext s \<le> bsize s" by blast
  let ?k = "nat (bnext s)"
  let ?bs' = "take ?k bs @ d @ drop (?k + length d) bs"
  let ?s' = "s\<lparr>blk := Some ?bs', bnext := bnext s + int (length d)\<rparr>"
  have fits: "?k + length d \<le> length bs" using bs(3,6) assms(2) by linarith
  have small: "to_int (length d) = int (length d)" and range: "in_int (bnext s + int (length d))"
    using bs(5,6) assms(2) by (simp_all add: int_range_defs)
  have "cbind (memcpy_to_pos (Some s) d (length d))
          (\<lambda>b. serialized_buffer_ser_pos_incr b (to_int (length d))) = Inr (Some ?s')"
    using bs(1,6) fits small range
    by (simp add: memcpy_to_pos_def serialized_buffer_ser_pos_def serialized_buffer_ser_pos_incr_def
        peek_def poke_def)
  moreover have "sb_wf ?s'"
    using bs fits assms(2) by (intro sb_wfI [where bs = ?bs']) auto
  moreover have "nat (bnext s + int (length d)) = ?k + length d" using bs(6) by linarith
  then have "written ?s' = written s @ d"
    using bs(1) fits by (simp add: written_def contents_def)
  ultimately show ?thesis by (auto simp: appended_def)
qed

lemma appended_grown: "grown s t \<Longrightarrow> sb_wf s \<Longrightarrow> appended t d u \<Longrightarrow> appended s d u"
  using grown_written by (auto simp: appended_def grown_def)

lemma serialize_data_appends:
  assumes "sb_wf s" and "ample A" and "bnext s + int (length d) \<le> 1073741824"
  shows "\<exists>s'. serialize_data A (Some s) d (length d) = Inr (Some s') \<and> appended s d s'
           \<and> bsize s \<le> bsize s' \<and> (bsize s' = bsize s \<or> bsize s' < 2 * (bnext s + int (length d)))"
proof -
  let ?need = "bnext s + int (length d)"
  from serialize_data_loop_grows [OF assms(1,3) refl assms(2)] obtain t r where t:
    "serialize_data_loop A (Some s) (nat (bsize s - bnext s)) (length d) 0 = Some (Inr (Some t, r))"
    "grown s t" "?need \<le> bsize t" "bsize t = bsize s \<or> bsize t < 2 * ?need" by blast
  have "sb_wf t" "bnext t + int (length d) \<le> bsize t" using t(2,3) by (simp_all add: grown_def)
  from store_at_cursor [OF this] obtain u where u:
    "cbind (memcpy_to_pos (Some t) d (length d))
       (\<lambda>b. serialized_buffer_ser_pos_incr b (to_int (length d))) = Inr (Some u)"
    "appended t d u" "bsize u = bsize t" by blast
  have "serialize_data A (Some s) d (length d) = Inr (Some u)"
    using assms(1) t(1) u(1) by (simp add: serialize_data_def)
  moreover have "bsize s \<le> bsize t" using t(2) by (simp add: grown_def)
  ultimately show ?thesis using appended_grown [OF t(2) assms(1) u(2)] t(4) u(3) by auto
qed

lemma serialize_data_null: "serialize_data A None d n = Inr None"
  by (simp add: serialize_data_def)

section \<open>Effect of the decoders\<close>

definition advance :: "ser_buff \<Rightarrow> nat \<Rightarrow> ser_buff" where
  "advance s n = s\<lparr>bnext := bnext s + int n\<rparr>"

lemma advance_simps [simp]:
  "bnext (advance s n) = bnext s + int n" "bsize (advance s n) = bsize s"
  "contents (advance s n) = contents s" "blk (advance s n) = blk s"
  "ser_func (advance s n) = ser_func s" "dser_func (advance s n) = dser_func s"
  "advance s 0 = s" "advance (advance s m) n = advance s (m + n)"
  by (simp_all add: advance_def contents_def)

lemma advance_wf: "sb_wf s \<Longrightarrow> n \<le> length (unread s) \<Longrightarrow> sb_wf (advance s n)"
  by (frule length_unread) (auto simp: advance_def sb_wf_def split: option.splits)

lemma unread_advance: "sb_wf s \<Longrightarrow> unread (advance s n) = drop n (unread s)"
proof -
  assume "sb_wf s"
  then have "nat (bnext s + int n) = nat (bnext s) + n" by auto
  then show ?thesis by (simp add: unread_def add.commute)
qed

lemma prefix_unread_advance:
  "sb_wf s \<Longrightarrow> prefix (d @ rest) (unread s) \<Longrightarrow> prefix rest (unread (advance s (length d)))"
  by (auto simp: unread_advance prefix_def)

lemma unread_room:
  assumes "sb_wf s" and "n \<le> length (unread s)"
  shows "bnext s + int n \<le> bsize s" "in_int (int n + bnext s)" "in_int (bnext s + int n)"
    "to_int n = int n"
proof -
  have "bnext s \<le> bsize s" "0 \<le> bnext s" "bsize s \<le> INT_MAX" using assms(1) by blast+
  moreover have "int n \<le> bsize s - bnext s" using assms length_unread [OF assms(1)] calculation by linarith
  ultimately show "bnext s + int n \<le> bsize s" "in_int (int n + bnext s)" "in_int (bnext s + int n)"
    "to_int n = int n"
    by (auto simp: int_range_defs)
qed

lemma peek_unread:
  assumes "sb_wf s" and "prefix d (unread s)"
  shows "\<exists>bs. blk s = Some bs \<and> peek bs (bnext s) (length d) = Inr d"
proof -
  from assms(1) obtain bs where bs: "blk s = Some bs" "contents s = bs" "0 \<le> bnext s"
      "nat (bnext s) \<le> length bs" by fastforce
  from assms(2) obtain zs where "drop (nat (bnext s)) bs = d @ zs"
    by (auto simp: unread_def bs(2) prefix_def)
  moreover from this have "length bs - nat (bnext s) = length (d @ zs)"
    by (metis length_drop)
  ultimately show ?thesis using bs(1,3,4) by (auto simp: peek_def)
qed

lemma deserialize_data_reads:
  assumes "sb_wf s" and "prefix d (unread s)" and "length dest = length d"
  shows "deserialize_data (Some s) dest (length d) = Inr (d, Some (advance s (length d)))"
proof (cases "d = []")
  case True
  with assms(3) show ?thesis by (simp add: deserialize_data_def)
next
  case False
  from peek_unread [OF assms(1,2)] obtain bs
    where bs: "blk s = Some bs" "peek bs (bnext s) (length d) = Inr d" by blast
  have "length d \<le> length (unread s)" using assms(2) by (rule prefix_length_le)
  note room = unread_room [OF assms(1) this]
  have "poke dest 0 d = Inr d" using assms(3) by (simp add: poke_def)
  with False bs room show ?thesis
    by (simp add: deserialize_data_def serialized_buffer_size_def serialized_buffer_next_def
        serialized_buffer_ser_pos_def serialized_buffer_ser_pos_incr_def advance_def)
qed

lemma deserialize_data_refuses:
  assumes "sb_wf s" and "length (unread s) < n" and "n < 2147483648" and "in_int (int n + bnext s)"
  shows "deserialize_data (Some s) dest n = Inr (dest, Some s)"
proof -
  have "bsize s < int n + bnext s" using assms(1,2) length_unread by auto
  with assms show ?thesis
    by (simp add: deserialize_data_def serialized_buffer_size_def serialized_buffer_next_def)
qed

lemma skip_back:
  assumes "0 \<le> bnext s" and "bnext s \<le> INT_MAX" and "in_int (bsize s - bnext s)"
    and "- 4 \<le> bsize s - bnext s"
  shows "serialized_buffer_skip A (Some s) (- 4) = Inr (Some (s\<lparr>bnext := bnext s - 4\<rparr>))"
  using assms by (simp add: serialized_buffer_skip_def int_available_def serialized_buffer_size_def
      serialized_buffer_next_def serialized_buffer_ser_pos_incr_def int_range_defs)

lemma length_sentinel [simp]: "length sentinel = 4"
  by (simp add: sentinel_def)

lemma le_nat_sentinel_iff: "length d = 4 \<Longrightarrow> le_nat d = 4294967295 \<longleftrightarrow> d = sentinel"
  using le_bytes_le_nat [of d] by (auto simp: sentinel_def le_nat_le_bytes)

lemma deserialize_null_sentinel:
  assumes "sb_wf s" and "prefix sentinel (unread s)"
  shows "deserialize_null A (Some s) = Inr (- 1, Some (advance s 4))"
  using deserialize_data_reads [OF assms, of "le_bytes 4 0"]
  by (simp add: deserialize_null_def le_nat_sentinel_iff)

lemma deserialize_null_other:
  assumes "sb_wf s" and "4 \<le> length (unread s)" and "take 4 (unread s) \<noteq> sentinel"
  shows "deserialize_null A (Some s) = Inr (0, Some s)"
proof -
  let ?d = "take 4 (unread s)"
  have len: "length ?d = 4" using assms(2) by simp
  have "prefix ?d (unread s)" by (rule take_is_prefix)
  from deserialize_data_reads [OF assms(1) this, of "le_bytes 4 0"] len
  have read: "deserialize_data (Some s) (le_bytes 4 0) 4 = Inr (?d, Some (advance s 4))" by simp
  have wf: "sb_wf (advance s 4)" using advance_wf [OF assms(1,2)] by simp
  have "serialized_buffer_skip A (Some (advance s 4)) (- 4) = Inr (Some s)"
    using skip_back [of "advance s 4" A] wf sb_wf_in_int [OF wf]
    by (auto simp: advance_def int_range_defs)
  with read assms(3) len show ?thesis
    by (simp add: deserialize_null_def le_nat_sentinel_iff)
qed

text \<open>
  Fewer than four unread bytes: nothing is read, yet the cursor is moved back by four.
\<close>

lemma deserialize_null_short:
  assumes "sb_wf s" and "length (unread s) < 4" and "bsize s \<le> INT_MAX - 4"
  shows "deserialize_null A (Some s) = Inr (0, Some (s\<lparr>bnext := bnext s - 4\<rparr>))"
proof -
  have "0 \<le> bnext s" "bnext s \<le> bsize s" using assms(1) by blast+
  moreover from this have "in_int (int 4 + bnext s)" "in_int (bsize s - bnext s)"
    using assms(3) by (auto simp: int_range_defs)
  ultimately show ?thesis
    using deserialize_data_refuses [OF assms(1,2), of "le_bytes 4 0"] skip_back [of s A] assms(3)
    by (simp add: deserialize_null_def le_nat_le_bytes)
qed

lemma deserialize_int_reads:
  assumes "sb_wf s" and "prefix (int_bytes x) (unread s)" and "in_int x"
  shows "deserialize_int (Some s) = Inr (x, Some (advance s 4))"
proof -
  from peek_unread [OF assms(1,2)] obtain bs
    where bs: "blk s = Some bs" "peek bs (bnext s) 4 = Inr (int_bytes x)" by auto
  have "4 \<le> length (unread s)" using prefix_length_le [OF assms(2)] by simp
  note room = unread_room [OF assms(1) this]
  with bs assms(3) show ?thesis
    by (simp add: deserialize_int_def serialized_buffer_size_def serialized_buffer_next_def
        serialized_buffer_ser_pos_def serialized_buffer_ser_pos_incr_def advance_def)
qed

section \<open>Sequences of items\<close>

fun put_all ::
  "(allocator \<Rightarrow> ser_buff_t \<Rightarrow> 'a \<Rightarrow> ser_buff_t cres) \<Rightarrow> allocator \<Rightarrow> 'a list \<Rightarrow> ser_buff_t \<Rightarrow>
   ser_buff_t cres" where
  "put_all put A [] buf = Inr buf"
| "put_all put A (x # xs) buf = cbind (put A buf x) (put_all put A xs)"

fun get_all ::
  "(allocator \<Rightarrow> ser_buff_t \<Rightarrow> ('a \<times> ser_buff_t) cres) \<Rightarrow> allocator \<Rightarrow> nat \<Rightarrow> ser_buff_t \<Rightarrow>
   ('a list \<times> ser_buff_t) cres" where
  "get_all get A 0 buf = Inr ([], buf)"
| "get_all get A (Suc n) buf =
     cbind (get A buf) (\<lambda>(x, buf'). cbind (get_all get A n buf') (\<lambda>(xs, buf''). Inr (x # xs, buf'')))"

text \<open>
  The contract between an encoder \<open>put\<close> and a decoder \<open>get\<close>: on valid items the encoder
  appends \<open>enc x\<close> to the stream, and the decoder, meeting \<open>enc x\<close> at the cursor, returns
  \<open>x\<close> and moves past it. \<open>ctx\<close> is what the two ask of the function pointers of the buffer.
\<close>

locale codec =
  fixes put :: "allocator \<Rightarrow> ser_buff_t \<Rightarrow> 'a \<Rightarrow> ser_buff_t cres"
    and get :: "allocator \<Rightarrow> ser_buff_t \<Rightarrow> ('a \<times> ser_buff_t) cres"
    and enc :: "'a \<Rightarrow> byte list"
    and valid :: "'a \<Rightarrow> bool"
    and ctx :: "fptr \<Rightarrow> fptr \<Rightarrow> bool"
  assumes put_appends:
    "sb_wf s \<Longrightarrow> ample A \<Longrightarrow> ctx (ser_func s) (dser_func s) \<Longrightarrow> valid x \<Longrightarrow>
     bnext s + int (length (enc x)) \<le> 1073741824 \<Longrightarrow>
     \<exists>s'. put A (Some s) x = Inr (Some s') \<and> appended s (enc x) s'"
    and get_reads:
    "sb_wf s \<Longrightarrow> ample A \<Longrightarrow> ctx (ser_func s) (dser_func s) \<Longrightarrow> valid x \<Longrightarrow>
     prefix (enc x) (unread s) \<Longrightarrow>
     get A (Some s) = Inr (x, Some (advance s (length (enc x))))"
begin

lemma put_all_appends:
  assumes "sb_wf s" and "ample A" and "ctx (ser_func s) (dser_func s)" and "list_all valid xs"
    and "bnext s + int (length (concat (map enc xs))) \<le> 1073741824"
  shows "\<exists>s'. put_all put A xs (Some s) = Inr (Some s') \<and> appended s (concat (map enc xs)) s'"
  using assms
proof (induction xs arbitrary: s)
  case Nil
  then show ?case by (simp add: appended_refl)
next
  case (Cons x xs)
  have "valid x" "bnext s + int (length (enc x)) \<le> 1073741824" using Cons.prems(4,5) by simp_all
  from put_appends [OF Cons.prems(1-3) this] obtain t
    where t: "put A (Some s) x = Inr (Some t)" "appended s (enc x) t" by blast
  note t' = appendedD [OF t(2)]
  have "\<exists>u. put_all put A xs (Some t) = Inr (Some u) \<and> appended t (concat (map enc xs)) u"
    using Cons.prems t' by (intro Cons.IH) simp_all
  with t show ?case by (auto intro: appended_trans)
qed

lemma get_all_reads:
  assumes "sb_wf s" and "ample A" and "ctx (ser_func s) (dser_func s)" and "list_all valid xs"
    and "prefix (concat (map enc xs)) (unread s)"
  shows "get_all get A (length xs) (Some s) =
           Inr (xs, Some (advance s (length (concat (map enc xs)))))"
  using assms
proof (induction xs arbitrary: s)
  case Nil
  then show ?case by simp
next
  case (Cons x xs)
  have p: "prefix (enc x) (unread s)" using Cons.prems(5) by (auto dest: append_prefixD)
  with Cons.prems have x: "get A (Some s) = Inr (x, Some (advance s (length (enc x))))"
    by (intro get_reads) simp_all
  let ?t = "advance s (length (enc x))"
  have wf: "sb_wf ?t" using Cons.prems(1) prefix_length_le [OF p] by (rule advance_wf)
  have "prefix (concat (map enc xs)) (unread ?t)"
    using Cons.prems(1,5) by (auto simp: unread_advance prefix_def)
  then have "get_all get A (length xs) (Some ?t) =
      Inr (xs, Some (advance ?t (length (concat (map enc xs)))))"
    using Cons.prems wf by (intro Cons.IH) simp_all
  with x show ?case by simp
qed

text \<open>Encode a sequence at the start of a buffer, reset the cursor, decode: the sequence is back.\<close>

lemma round_trip:
  assumes "sb_wf s" and "bnext s = 0" and "ample A" and "ctx (ser_func s) (dser_func s)"
    and "list_all valid xs" and "length (concat (map enc xs)) \<le> 1073741824"
  shows "\<exists>buf' t. cbind (put_all put A xs (Some s)) serialized_buffer_reset = Inr buf'
           \<and> get_all get A (length xs) buf' = Inr (xs, Some t) \<and> sb_wf t"
proof -
  from put_all_appends [OF assms(1,3,4,5)] assms(2,6) obtain u
    where u: "put_all put A xs (Some s) = Inr (Some u)" "appended s (concat (map enc xs)) u"
    by auto
  note u' = appendedD [OF u(2)]
  let ?r = "u\<lparr>bnext := 0\<rparr>"
  have wf: "sb_wf ?r" using u'(1) by (auto simp: sb_wf_def split: option.splits)
  have "written u = concat (map enc xs)" using u'(2) assms(2) by (simp add: written_def)
  then have p: "prefix (concat (map enc xs)) (unread ?r)"
    by (metis unread_def contents_def drop0 nat_0 prefixI ser_buff.select_convs(3) ser_buff.surjective
        ser_buff.update_convs(1,3) ser_buff.select_convs(1) written_append_unread)
  have "get_all get A (length xs) (Some ?r) =
      Inr (xs, Some (advance ?r (length (concat (map enc xs)))))"
    using wf assms(3) _ assms(5) p by (rule get_all_reads) (use u' assms(4) in simp)
  moreover have "sb_wf (advance ?r (length (concat (map enc xs))))"
    using wf prefix_length_le [OF p] by (rule advance_wf)
  ultimately show ?thesis using u(1) by (auto simp: serialized_buffer_reset_def)
qed

end

interpretation int_codec: codec serialize_int "\<lambda>A buf. deserialize_int buf" int_bytes in_int "\<lambda>f df. True"
proof
  fix s A x
  assume "sb_wf s" "ample A" "bnext s + int (length (int_bytes x)) \<le> 1073741824"
  from serialize_data_appends [OF this]
  show "\<exists>s'. serialize_int A (Some s) x = Inr (Some s') \<and> appended s (int_bytes x) s'"
    by (auto simp: serialize_int_def)
next
  fix s A x
  assume "sb_wf s" "in_int x" "prefix (int_bytes x) (unread s)"
  then show "deserialize_int (Some s) = Inr (x, Some (advance s (length (int_bytes x))))"
    by (simp add: deserialize_int_reads)
qed

section \<open>Skipping forward\<close>

lemma skip_loop_grows:
  assumes "sb_wf s" and "need \<le> 1073741824" and "bnext s + n = need" and "ample A"
  shows "\<exists>s'. skip_loop A (Some s) (bsize s - bnext s) n = Some (Inr (Some s')) \<and> grown s s'
           \<and> need \<le> bsize s'"
  using assms(1,2,3)
proof (induction s rule: doubling_induct)
  case (enough s)
  then show ?case by (subst skip_loop.simps) (auto intro: grown_refl)
next
  case (double s)
  from resize_double [OF double(1,3) assms(4)] obtain t
    where t: "serialized_buffer_resize A (Some s) 2 = Inr (Some t)" "grown s t"
      "bsize t = 2 * bsize s" by blast
  have "sb_wf t" "bnext t + n = need" using t(2) double.prems by (simp_all add: grown_def)
  with double(4) [OF t(2,3)] obtain u where u:
    "skip_loop A (Some t) (bsize t - bnext t) n = Some (Inr (Some u))" "grown t u" "need \<le> bsize u"
    by blast
  have "bsize s - bnext s < n" using double(2) double.prems by linarith
  then have "skip_loop A (Some s) (bsize s - bnext s) n = Some (Inr (Some u))"
    using t(1) u(1) \<open>sb_wf t\<close> by (subst skip_loop.simps) simp
  with u t(2) show ?case by (auto intro: grown_trans)
qed

lemma skip_forward:
  assumes "sb_wf s" and "0 \<le> n" and "bnext s + n \<le> 1073741824" and "ample A"
  shows "\<exists>s'. serialized_buffer_skip A (Some s) n = Inr (Some s') \<and> sb_wf s'
           \<and> bnext s' = bnext s + n \<and> prefix (contents s) (contents s')"
proof -
  from skip_loop_grows [OF assms(1,3) refl assms(4)] obtain t where t:
    "skip_loop A (Some s) (bsize s - bnext s) n = Some (Inr (Some t))" "grown s t"
    "bnext s + n \<le> bsize t" by blast
  have pos: "0 \<le> bnext s" using assms(1) by blast
  let ?moved = "\<lambda>u. u\<lparr>bnext := bnext s + n\<rparr>"
  have range: "in_int (bnext s + n)" using assms pos by (simp add: int_range_defs)
  have wf: "sb_wf (?moved u)" if "sb_wf u" "bnext s + n \<le> bsize u" for u
    using that assms(2) pos by (auto simp: sb_wf_def split: option.splits)
  show ?thesis
  proof (cases "n \<le> bsize s - bnext s")
    case True
    then show ?thesis using assms(1) range wf [of s]
      by (auto simp: serialized_buffer_skip_def serialized_buffer_ser_pos_incr_def contents_def)
  next
    case False
    then have "serialized_buffer_skip A (Some s) n = Inr (Some (?moved t))"
      using t range assms(1)
      by (simp add: serialized_buffer_skip_def serialized_buffer_ser_pos_incr_def grown_def)
    with t wf [of t] show ?thesis by (simp add: grown_def contents_def)
  qed
qed

section \<open>The growth loop always ends\<close>

lemma resize_size:
  assumes "serialized_buffer_resize A (Some s) k = Inr buf'"
  obtains s' where "buf' = Some s'" and "bsize s' = bsize s * k" and "bnext s' = bnext s"
    and "in_int (bsize s * k)"
  using assms
  by (auto simp: serialized_buffer_resize_def cbind_eq_Inr_iff c_int_eq_Inr_iff split: prod.splits)

lemma serialize_data_loop_returns:
  assumes "0 < bsize s"
  shows "\<exists>r. serialize_data_loop A (Some s) av n q = Some r"
  using assms
proof (induction "nat (INT_MAX + 1 - bsize s)" arbitrary: s av q rule: less_induct)
  case less
  let ?body = "cbind (serialized_buffer_resize A (Some s) 2)
                 (\<lambda>buf'. cbind (size_available buf') (\<lambda>av. Inr (buf', av)))"
  show ?case
  proof (cases "av < n \<and> (\<exists>r. ?body = Inr r)")
    case False
    then show ?thesis
      by (subst serialize_data_loop.simps) (auto split: sum.splits)
  next
    case True
    then obtain buf' av' where body: "?body = Inr (buf', av')" by auto
    then have "serialized_buffer_resize A (Some s) 2 = Inr buf'" by (auto simp: cbind_eq_Inr_iff)
    then obtain s' where s': "buf' = Some s'" "bsize s' = bsize s * 2" "in_int (bsize s * 2)"
      by (rule resize_size)
    have "nat (INT_MAX + 1 - bsize s') < nat (INT_MAX + 1 - bsize s)" "0 < bsize s'"
      using s'(2,3) less.prems by (auto simp: int_range_defs)
    from less.hyps [OF this] obtain r where "serialize_data_loop A (Some s') av' n 1 = Some r" by blast
    with True body s'(1) show ?thesis
      by (subst serialize_data_loop.simps) simp
  qed
qed

lemma straight_line_not_Diverges:
  "serialized_buffer_resize A (Some s) k \<noteq> Inl Diverges"
  "int_available buf \<noteq> Inl Diverges"
  "size_available buf \<noteq> Inl Diverges"
  "memcpy_to_pos buf d n \<noteq> Inl Diverges"
  "serialized_buffer_ser_pos_incr buf i \<noteq> Inl Diverges"
  by (auto simp: serialized_buffer_resize_def realloc_def int_available_def size_available_def
      serialized_buffer_size_def serialized_buffer_next_def memcpy_to_pos_def peek_def poke_def
      serialized_buffer_ser_pos_def serialized_buffer_ser_pos_incr_def cbind_def deref_def c_int_def
      split: option.splits sum.splits if_splits prod.splits)

lemma serialize_data_loop_not_Diverges:
  assumes "0 < bsize s"
  shows "serialize_data_loop A (Some s) av n q \<noteq> Some (Inl Diverges)"
  using assms
proof (induction "nat (INT_MAX + 1 - bsize s)" arbitrary: s av q rule: less_induct)
  case less
  let ?resize = "serialized_buffer_resize A (Some s) 2"
  show ?case
  proof (cases "av < n \<and> (\<exists>b a. ?resize = Inr b \<and> size_available b = Inr a)")
    case False
    then show ?thesis using straight_line_not_Diverges
      by (subst serialize_data_loop.simps) (auto simp: cbind_def split: sum.splits)
  next
    case True
    then obtain buf' av' where body: "?resize = Inr buf'" "size_available buf' = Inr av'" by auto
    from body(1) obtain s' where s': "buf' = Some s'" "bsize s' = bsize s * 2" "in_int (bsize s * 2)"
      by (rule resize_size)
    have "nat (INT_MAX + 1 - bsize s') < nat (INT_MAX + 1 - bsize s)" "0 < bsize s'"
      using s'(2,3) less.prems by (auto simp: int_range_defs)
    from less.hyps [OF this, of av' 1] True body s'(1) show ?thesis
      by (subst serialize_data_loop.simps) simp
  qed
qed

section \<open>Properties of the library\<close>

text \<open>
  C20: \<^verbatim>\<open>serialize_data\<close> on a well-formed buffer never loops forever, whatever the allocator
  answers and however much is written: doubling ends in success, in a refused write or in
  the overflow of the size field.
\<close>

theorem serialize_data_terminates:
  assumes "sb_wf s"
  shows "serialize_data A (Some s) d n \<noteq> Inl Diverges"
proof -
  have "0 < bsize s" using assms by blast
  note loop = serialize_data_loop_returns [OF this] serialize_data_loop_not_Diverges [OF this]
  have "run_loop (serialize_data_loop A (Some s) av n 0) \<noteq> Inl Diverges" for av
    using loop(1) [of A av n 0] loop(2) [of A av n 0] by auto
  then show ?thesis
    by (auto simp: serialize_data_def cbind_eq_Inl_iff straight_line_not_Diverges split: prod.splits)
qed

theorem serialize_data_terminates_witness:
  "serialize_data generous (serialized_buffer_create generous None None) [1, 2, 3] 3 \<noteq> Inl Diverges"
  using serialize_data_terminates
    [OF sb_wf_create [OF create_generous [of None None]], of generous "[1, 2, 3]" 3]
  by (simp add: create_generous)

text \<open>
  C4: \<^verbatim>\<open>serialize_data\<close> refines appending to a byte stream. On a well-formed buffer, with
  memory available and at most 2^30 bytes in the stream afterwards, it returns, the stream
  is the old one followed by exactly the given bytes, the result is well-formed again, the
  function pointers are untouched, and the buffer grew only if it had to, to less than
  twice what is needed.
\<close>

theorem serialize_data_refines_append:
  assumes "sb_wf s" and "ample A" and "bnext s + int (length d) \<le> 1073741824"
  shows "\<exists>s'. serialize_data A (Some s) d (length d) = Inr (Some s') \<and> sb_wf s'
           \<and> written s' = written s @ d
           \<and> ser_func s' = ser_func s \<and> dser_func s' = dser_func s
           \<and> bsize s \<le> bsize s'
           \<and> (bsize s' = bsize s \<or> bsize s' < 2 * int (length (written s @ d)))"
proof -
  from serialize_data_appends [OF assms] obtain s'
    where s': "serialize_data A (Some s) d (length d) = Inr (Some s')" "appended s d s'" "bsize s \<le> bsize s'"
      "bsize s' = bsize s \<or> bsize s' < 2 * (bnext s + int (length d))" by blast
  have "int (length (written s)) = bnext s" using length_written [OF assms(1)] assms(1) by auto
  with s' show ?thesis by (auto dest: appendedD)
qed

theorem serialize_data_refines_append_witness:
  "\<exists>s s'. serialized_buffer_create generous None None = Some s
     \<and> serialize_data generous (Some s) (replicate 600 7) 600 = Inr (Some s')
     \<and> written s' = replicate 600 7 \<and> bsize s' < 1200"
proof -
  let ?s = "\<lparr>blk = Some (replicate 512 0), bsize = 512, bnext = 0, ser_func = None, dser_func = None\<rparr>"
  have c: "serialized_buffer_create generous None None = Some ?s" by (rule create_generous)
  have "bnext ?s + int (length (replicate 600 (7 :: byte))) \<le> 1073741824" by simp
  from serialize_data_refines_append [OF sb_wf_create [OF c] ample_generous this]
  obtain s' where "serialize_data generous (Some ?s) (replicate 600 7) 600 = Inr (Some s')"
    "written s' = written ?s @ replicate 600 7"
    "bsize s' = 512 \<or> bsize s' < 2 * int (length (written ?s @ replicate 600 (7 :: byte)))"
    by auto
  with c show ?thesis by (intro exI [of _ ?s] exI [of _ s']) (auto simp: written_def)
qed

text \<open>
  C24: when the reallocation that a write needs is refused, \<^verbatim>\<open>serialize_data\<close> writes past
  the end of the block: \<^verbatim>\<open>serialized_buffer_resize\<close> has already doubled the size field, so the
  growth loop believes that there is room.
\<close>

theorem serialize_data_overflows_when_realloc_fails:
  assumes "sb_wf s" and "bsize s < bnext s + int (length d)"
    and "bnext s + int (length d) \<le> 2 * bsize s" and "2 * bsize s \<le> INT_MAX"
    and "\<not> grants A (nat (2 * bsize s))"
  shows "serialize_data A (Some s) d (length d) = Inl OutOfBounds"
proof -
  from assms(1) obtain bs where bs: "blk s = Some bs" "int (length bs) = bsize s" "0 < bsize s"
      "0 \<le> bnext s" "bnext s \<le> bsize s" by blast
  let ?t = "s\<lparr>bsize := 2 * bsize s\<rparr>"
  note resize = resize_refused(1) [OF assms(1,4,5)]
  have room: "0 \<le> 2 * bsize s - bnext s" "in_int (2 * bsize s - bnext s)"
    using bs assms(4) by (auto simp: int_range_defs)
  then have av: "size_available (Some ?t) = Inr (nat (2 * bsize s - bnext s))"
    by (simp add: size_available_def int_available_def serialized_buffer_size_def
        serialized_buffer_next_def)
  have small: "nat (bsize s - bnext s) < length d" "\<not> nat (2 * bsize s - bnext s) < length d"
    using assms(2,3) bs(5) by linarith+
  have "serialize_data_loop A (Some ?t) (nat (2 * bsize s - bnext s)) (length d) 1 =
      Some (Inr (Some ?t, 1))"
    using small(2) by (subst serialize_data_loop.simps) simp
  then have loop: "serialize_data_loop A (Some s) (nat (bsize s - bnext s)) (length d) 0 =
      Some (Inr (Some ?t, 1))"
    using small(1) resize av by (subst serialize_data_loop.simps) simp
  have "\<not> nat (bnext s) + length d \<le> length bs" using assms(2) bs by linarith
  then have "memcpy_to_pos (Some ?t) d (length d) = Inl OutOfBounds"
    using bs(1) by (simp add: memcpy_to_pos_def serialized_buffer_ser_pos_def peek_def poke_def)
  with loop assms(1) show ?thesis by (simp add: serialize_data_def)
qed

theorem serialize_data_overflows_when_realloc_fails_witness:
  "serialize_data \<lparr>grants = (\<lambda>n. n < 1000), junk = (\<lambda>n. 0)\<rparr>
     (serialized_buffer_create generous None None) (replicate 600 7) 600 = Inl OutOfBounds"
  using serialize_data_overflows_when_realloc_fails
    [OF sb_wf_create [OF create_generous [of None None]], of "replicate 600 7"
      "\<lparr>grants = (\<lambda>n. n < 1000), junk = (\<lambda>n. 0)\<rparr>"]
  by (simp add: create_generous INT_MAX_def)

text \<open>
  \<^verbatim>\<open>deserialize_data\<close> on a well-formed buffer: if at least \<open>n\<close> bytes lie between the
  cursor and the end of the buffer, the destination receives exactly the next \<open>n\<close> bytes
  and the cursor moves past them; otherwise neither the destination nor the buffer changes.
\<close>

theorem deserialize_data_spec:
  assumes "sb_wf s" and "length dest = n" and "bnext s + int n \<le> INT_MAX"
  shows "deserialize_data (Some s) dest n =
           (if n \<le> length (unread s) then Inr (take n (unread s), Some (advance s n))
            else Inr (dest, Some s))"
proof (cases "n \<le> length (unread s)")
  case True
  let ?d = "take n (unread s)"
  have "length ?d = n" using True by simp
  with deserialize_data_reads [OF assms(1) take_is_prefix, of dest n] assms(2) True
  show ?thesis by (simp add: min_absorb2)
next
  case False
  have "0 \<le> bnext s" using assms(1) by blast
  with assms(3) have "n < 2147483648" "in_int (int n + bnext s)" by (auto simp: int_range_defs)
  with False deserialize_data_refuses [OF assms(1)] show ?thesis by simp
qed

theorem deserialize_data_spec_witness:
  "deserialize_data (serialized_buffer_create generous None None) [9, 9, 9] 3 =
     Inr ([0, 0, 0], Some \<lparr>blk = Some (replicate 512 0), bsize = 512, bnext = 3,
                           ser_func = None, dser_func = None\<rparr>)"
  using deserialize_data_spec [OF sb_wf_create [OF create_generous [of None None]], of "[9, 9, 9]" 3]
  by (simp add: create_generous INT_MAX_def unread_def contents_def advance_def numeral_3_eq_3)

text \<open>
  C23: \<^verbatim>\<open>deserialize_null\<close>, on every branch. The four bytes at the cursor are the sentinel:
  they are consumed and the result is -1. They are something else: the result is 0 and the
  buffer is as before. Fewer than four bytes are left: the result is 0, nothing was read,
  and the cursor is nevertheless moved back by four bytes.
\<close>

theorem deserialize_null_spec:
  assumes "sb_wf s" and "bsize s \<le> INT_MAX - 4"
  shows "deserialize_null A (Some s) =
           (if length (unread s) < 4 then Inr (0, Some (s\<lparr>bnext := bnext s - 4\<rparr>))
            else if take 4 (unread s) = sentinel then Inr (- 1, Some (advance s 4))
            else Inr (0, Some s))"
proof -
  consider "length (unread s) < 4" | "4 \<le> length (unread s)" "take 4 (unread s) = sentinel"
    | "4 \<le> length (unread s)" "take 4 (unread s) \<noteq> sentinel" by linarith
  then show ?thesis
  proof cases
    case 1
    with deserialize_null_short [OF assms(1) 1 assms(2)] show ?thesis by simp
  next
    case 2
    from 2(2) have "prefix sentinel (unread s)" by (metis take_is_prefix)
    with 2 deserialize_null_sentinel [OF assms(1)] show ?thesis by simp
  next
    case 3
    with deserialize_null_other [OF assms(1)] show ?thesis by simp
  qed
qed

theorem deserialize_null_spec_witness:
  "deserialize_null generous (Some \<lparr>blk = Some [1, 2, 3, 4, 5], bsize = 5, bnext = 4,
                                   ser_func = None, dser_func = None\<rparr>) =
     Inr (0, Some \<lparr>blk = Some [1, 2, 3, 4, 5], bsize = 5, bnext = 0,
                   ser_func = None, dser_func = None\<rparr>)"
  using deserialize_null_spec [of "\<lparr>blk = Some [1, 2, 3, 4, 5], bsize = 5, bnext = 4,
                                   ser_func = None, dser_func = None\<rparr>" generous]
  by (simp add: sb_wf_def INT_MAX_def unread_def contents_def)

text \<open>
  Integers written one after the other with \<^verbatim>\<open>serialize_int\<close> into a fresh buffer are
  read back in order, with their values and signs, by \<^verbatim>\<open>deserialize_int\<close> after a reset.
\<close>

theorem int_sequence_round_trip:
  assumes "serialized_buffer_create A f df = Some s" and "ample A" and "list_all in_int xs"
    and "4 * length xs \<le> 1073741824"
  shows "\<exists>buf t. cbind (put_all serialize_int A xs (Some s)) serialized_buffer_reset = Inr buf
           \<and> get_all (\<lambda>A buf. deserialize_int buf) A (length xs) buf = Inr (xs, Some t)"
proof -
  have "bnext s = 0" using assms(1) by (auto simp: serialized_buffer_create_def split: if_splits)
  moreover have "length (concat (map int_bytes xs)) = 4 * length xs" by (induction xs) auto
  ultimately show ?thesis
    using int_codec.round_trip [OF sb_wf_create [OF assms(1)] _ assms(2) _ assms(3)] assms(4) by auto
qed

theorem int_sequence_round_trip_witness:
  "\<exists>buf t. cbind (put_all serialize_int generous [3, - 5] (serialized_buffer_create generous None None))
              serialized_buffer_reset = Inr buf
     \<and> get_all (\<lambda>A buf. deserialize_int buf) generous 2 buf = Inr ([3, - 5], Some t)"
  using int_sequence_round_trip [OF create_generous [of None None] ample_generous, of "[3, - 5]"]
  by (simp add: create_generous int_range_defs numeral_2_eq_2 del: put_all.simps get_all.simps)

text \<open>
  Skipping forward by a non-negative amount, up to 2^30 bytes of buffer, always returns:
  the cursor moves by exactly that amount, nothing already in the buffer is lost, and the
  buffer stays well-formed even when it has to grow.
\<close>

theorem serialized_buffer_skip_spec:
  assumes "sb_wf s" and "0 \<le> n" and "bnext s + n \<le> 1073741824" and "ample A"
  shows "\<exists>s'. serialized_buffer_skip A (Some s) n = Inr (Some s') \<and> sb_wf s'
           \<and> bnext s' = bnext s + n \<and> prefix (contents s) (contents s')"
  using assms by (rule skip_forward)

theorem serialized_buffer_skip_spec_witness:
  "\<exists>s'. serialized_buffer_skip generous (serialized_buffer_create generous None None) 5000 = Inr (Some s')
     \<and> bnext s' = 5000"
  using serialized_buffer_skip_spec
    [OF sb_wf_create [OF create_generous [of None None]], of 5000 generous]
  by (auto simp: create_generous)

end
