(* ===== verification/C_Stdio.thy ===== *)
theory C_Stdio
  imports C_Prelude
begin

text \<open>
  The parts of \<^verbatim>\<open>stdio.h\<close> and \<^verbatim>\<open>stdlib.h\<close> that the components use: C strings in character
  arrays, the conversions \<^verbatim>\<open>%d\<close>, \<^verbatim>\<open>%p\<close> and field widths, \<^verbatim>\<open>snprintf\<close> into an array with its return
  value, and \<^verbatim>\<open>atoi\<close>.
\<close>

section \<open>Strings in arrays\<close>

definition NUL :: char where "NUL = CHR 0x00"

definition c_string :: "char list \<Rightarrow> string" where
  "c_string arr = takeWhile (\<lambda>c. c \<noteq> NUL) arr"

definition no_nul :: "string \<Rightarrow> bool" where
  "no_nul s \<longleftrightarrow> NUL \<notin> set s"

lemma no_nul_append [simp]: "no_nul (s @ t) \<longleftrightarrow> no_nul s \<and> no_nul t"
  by (auto simp: no_nul_def)

lemma no_nul_take: "no_nul s \<Longrightarrow> no_nul (take n s)"
  by (auto simp: no_nul_def dest: in_set_takeD)

lemma c_string_terminated: "no_nul s \<Longrightarrow> c_string (s @ NUL # zs) = s"
  by (induction s) (auto simp: c_string_def no_nul_def)

section \<open>Conversions\<close>

definition digit_char :: "nat \<Rightarrow> char" where
  "digit_char d = char_of (48 + d)"

fun dec_nat :: "nat \<Rightarrow> string" where
  "dec_nat n = (if n < 10 then [digit_char n] else dec_nat (n div 10) @ [digit_char (n mod 10)])"

declare dec_nat.simps [simp del]

definition dec_int :: "int \<Rightarrow> string" where
  "dec_int x = (if x < 0 then CHR ''-'' # dec_nat (nat (- x)) else dec_nat (nat x))"

text \<open>\<^verbatim>\<open>%-5s\<close>: left-justified in a field of at least five characters.\<close>

definition pad_right :: "nat \<Rightarrow> string \<Rightarrow> string" where
  "pad_right n s = s @ replicate (n - length s) CHR '' ''"

text \<open>\<^verbatim>\<open>%3d\<close>: right-justified in a field of at least three characters.\<close>

definition pad_left :: "nat \<Rightarrow> string \<Rightarrow> string" where
  "pad_left n s = replicate (n - length s) CHR '' '' @ s"

text \<open>\<^verbatim>\<open>%p\<close>, as the C library of Linux prints an address.\<close>

definition hex_char :: "nat \<Rightarrow> char" where
  "hex_char d = char_of (if d < 10 then 48 + d else 87 + d)"

fun hex_nat :: "nat \<Rightarrow> string" where
  "hex_nat n = (if n < 16 then [hex_char n] else hex_nat (n div 16) @ [hex_char (n mod 16)])"

declare hex_nat.simps [simp del]

definition pointer_text :: "nat \<Rightarrow> string" where
  "pointer_text a = (if a = 0 then ''(nil)'' else ''0x'' @ hex_nat a)"

definition digit_val :: "char \<Rightarrow> nat option" where
  "digit_val c = (let k = of_char c in if 48 \<le> k \<and> k \<le> (57 :: nat) then Some (k - 48) else None)"

fun read_digits :: "nat \<Rightarrow> string \<Rightarrow> nat" where
  "read_digits acc [] = acc"
| "read_digits acc (c # cs) =
     (case digit_val c of None \<Rightarrow> acc | Some d \<Rightarrow> read_digits (10 * acc + d) cs)"

definition is_space :: "char \<Rightarrow> bool" where
  "is_space c \<longleftrightarrow> c = CHR '' '' \<or> (9 \<le> (of_char c :: nat) \<and> (of_char c :: nat) \<le> 13)"

text \<open>
  \<^verbatim>\<open>atoi\<close>: leading white space, an optional sign, the longest run of digits; 0 without digits.
  The behaviour is undefined when the value does not fit an \<^verbatim>\<open>int\<close>.
\<close>

definition atoi :: "string \<Rightarrow> int cres" where
  "atoi s = (case dropWhile is_space s of
       [] \<Rightarrow> Inr 0
     | c # cs \<Rightarrow> if c = CHR ''-'' then c_int (- int (read_digits 0 cs))
                 else if c = CHR ''+'' then c_int (int (read_digits 0 cs))
                 else c_int (int (read_digits 0 (c # cs))))"

lemma digit_val_digit_char [simp]: "d < 10 \<Longrightarrow> digit_val (digit_char d) = Some d"
  by (simp add: digit_val_def digit_char_def Let_def)

lemma digit_char_not_special:
  assumes "d < 10"
  shows "digit_char d \<noteq> CHR ''-''" "digit_char d \<noteq> CHR ''+''" "digit_char d \<noteq> NUL"
    "\<not> is_space (digit_char d)"
proof -
  have *: "(of_char (digit_char d) :: nat) = 48 + d" using assms by (simp add: digit_char_def)
  show "digit_char d \<noteq> CHR ''-''" "digit_char d \<noteq> CHR ''+''" "digit_char d \<noteq> NUL"
    using * by (auto simp: NUL_def)
  show "\<not> is_space (digit_char d)" using * by (auto simp: is_space_def)
qed

lemma digit_chars:
  "digit_char 0 = CHR ''0''" "digit_char 1 = CHR ''1''" "digit_char (Suc 0) = CHR ''1''"
  "digit_char 2 = CHR ''2''" "digit_char 3 = CHR ''3''" "digit_char 4 = CHR ''4''"
  "digit_char 5 = CHR ''5''" "digit_char 6 = CHR ''6''" "digit_char 7 = CHR ''7''"
  "digit_char 8 = CHR ''8''" "digit_char 9 = CHR ''9''"
  using char_of_char [of "CHR ''0''"] char_of_char [of "CHR ''1''"] char_of_char [of "CHR ''2''"]
    char_of_char [of "CHR ''3''"] char_of_char [of "CHR ''4''"] char_of_char [of "CHR ''5''"]
    char_of_char [of "CHR ''6''"] char_of_char [of "CHR ''7''"] char_of_char [of "CHR ''8''"]
    char_of_char [of "CHR ''9''"]
  by (simp_all add: digit_char_def)

lemma read_digits_append:
  "\<forall>c \<in> set xs. digit_val c \<noteq> None \<Longrightarrow>
   read_digits acc (xs @ ys) = read_digits (read_digits acc xs) ys"
  by (induction xs arbitrary: acc) auto

lemma dec_nat_digits: "c \<in> set (dec_nat n) \<Longrightarrow> \<exists>d < 10. c = digit_char d"
proof (induction n rule: dec_nat.induct)
  case (1 n)
  show ?case
  proof (cases "n < 10")
    case False
    with "1.prems" consider "c \<in> set (dec_nat (n div 10))" | "c = digit_char (n mod 10)"
      by (auto simp: dec_nat.simps [of n])
    then show ?thesis
    proof cases
      case 1
      with "1.IH" False show ?thesis by blast
    next
      case 2
      then show ?thesis by (intro exI [of _ "n mod 10"]) simp
    qed
  qed (use "1.prems" in \<open>auto simp: dec_nat.simps [of n]\<close>)
qed

lemma dec_nat_digit_val: "c \<in> set (dec_nat n) \<Longrightarrow> digit_val c \<noteq> None"
  by (auto dest!: dec_nat_digits)

lemma read_digits_dec_nat: "read_digits 0 (dec_nat n) = n"
proof (induction n rule: dec_nat.induct)
  case (1 n)
  show ?case
  proof (cases "n < 10")
    case True
    then show ?thesis by (simp add: dec_nat.simps [of n])
  next
    case False
    with 1 have "read_digits 0 (dec_nat (n div 10)) = n div 10" by simp
    with False show ?thesis
      by (simp add: dec_nat.simps [of n] read_digits_append dec_nat_digit_val)
  qed
qed

lemma dec_nat_Cons: "\<exists>c cs. dec_nat n = c # cs"
  by (subst dec_nat.simps) (cases "dec_nat (n div 10)", auto)

lemma no_nul_dec_int [simp]: "no_nul (dec_int x)"
  unfolding no_nul_def dec_int_def
  by (auto simp: NUL_def dest!: dec_nat_digits) (auto dest: digit_char_not_special(3) simp: NUL_def)

text \<open>Printing with \<^verbatim>\<open>%d\<close> and reading back with \<^verbatim>\<open>atoi\<close>.\<close>

lemma atoi_dec_int: "in_int x \<Longrightarrow> atoi (dec_int x) = Inr x"
proof -
  assume x: "in_int x"
  obtain c cs where c: "dec_nat (nat x) = c # cs" using dec_nat_Cons by blast
  then obtain d where d: "d < 10" "c = digit_char d" using dec_nat_digits [of c "nat x"] by auto
  note ns = digit_char_not_special [OF d(1)]
  show ?thesis
  proof (cases "x < 0")
    case True
    then have "\<not> is_space CHR ''-''" by (simp add: is_space_def)
    with True x show ?thesis by (simp add: atoi_def dec_int_def read_digits_dec_nat)
  next
    case False
    have "read_digits 0 (c # cs) = nat x" using read_digits_dec_nat [of "nat x"] c by simp
    with False x c d ns show ?thesis
      by (simp add: atoi_def dec_int_def del: read_digits.simps)
  qed
qed

lemma atoi_in_int: "atoi s = Inr x \<Longrightarrow> in_int x"
  by (auto simp: atoi_def c_int_eq_Inr_iff int_range_defs split: list.splits if_splits)

text \<open>How long the texts of numbers and addresses are; none contains a null character.\<close>

lemma dec_nat_length: "0 < k \<Longrightarrow> n < 10 ^ k \<Longrightarrow> length (dec_nat n) \<le> k"
proof (induction n arbitrary: k rule: dec_nat.induct)
  case (1 n)
  show ?case
  proof (cases "n < 10")
    case False
    with "1.prems" have "k \<noteq> 1" by auto
    with "1.prems" obtain j where k: "k = Suc j" "0 < j" by (cases k) auto
    with "1.prems" have "n div 10 < 10 ^ j" by (simp add: less_mult_imp_div_less mult.commute)
    with "1.IH" [OF False k(2)] k False show ?thesis by (subst dec_nat.simps) simp
  qed (use "1.prems" in \<open>simp add: dec_nat.simps [of n]\<close>)
qed

lemma hex_nat_length: "0 < k \<Longrightarrow> n < 16 ^ k \<Longrightarrow> length (hex_nat n) \<le> k"
proof (induction n arbitrary: k rule: hex_nat.induct)
  case (1 n)
  show ?case
  proof (cases "n < 16")
    case False
    with "1.prems" have "k \<noteq> 1" by auto
    with "1.prems" obtain j where k: "k = Suc j" "0 < j" by (cases k) auto
    with "1.prems" have "n div 16 < 16 ^ j" by (simp add: less_mult_imp_div_less mult.commute)
    with "1.IH" [OF False k(2)] k False show ?thesis by (subst hex_nat.simps) simp
  qed (use "1.prems" in \<open>simp add: hex_nat.simps [of n]\<close>)
qed

lemma hex_char_not_NUL: "d < 16 \<Longrightarrow> hex_char d \<noteq> NUL"
  unfolding hex_char_def NUL_def
  by (auto simp: char_of_eq_iff take_bit_eq_mod dest!: arg_cong [of _ _ "of_char :: char \<Rightarrow> nat"])

lemma no_nul_hex_nat: "no_nul (hex_nat n)"
proof (induction n rule: hex_nat.induct)
  case (1 n)
  then show ?case using hex_char_not_NUL [of n] hex_char_not_NUL [of "n mod 16"]
    by (subst hex_nat.simps) (auto simp: no_nul_def)
qed

lemma no_nul_pointer_text [simp]: "no_nul (pointer_text a)"
  using no_nul_hex_nat [of a] by (simp add: pointer_text_def) (simp add: no_nul_def NUL_def)

lemma pointer_text_length: "a < 2 ^ 64 \<Longrightarrow> length (pointer_text a) \<le> 18"
  using hex_nat_length [of 16 a] by (simp add: pointer_text_def)

lemma dec_int_length: "- (2 ^ 63) \<le> x \<Longrightarrow> x < 2 ^ 64 \<Longrightarrow> length (dec_int x) \<le> 21"
proof -
  assume "- (2 ^ 63) \<le> x" and "x < 2 ^ 64"
  then have "nat (- x) < 10 ^ 20" "nat x < 10 ^ 20" by auto
  then have "length (dec_nat (nat (- x))) \<le> 20" "length (dec_nat (nat x)) \<le> 20"
    by (intro dec_nat_length; simp)+
  then show ?thesis by (simp add: dec_int_def)
qed

lemma no_nul_pad [simp]: "no_nul (pad_left n s) = no_nul s" "no_nul (pad_right n s) = no_nul s"
  by (auto simp: pad_left_def pad_right_def no_nul_def NUL_def)

lemma pad_length [simp]: "length (pad_left n s) = max n (length s)" "length (pad_right n s) = max n (length s)"
  by (auto simp: pad_left_def pad_right_def max_def)

section \<open>snprintf into an array\<close>

text \<open>
  \<open>snprintf_at arr off n s\<close> is \<^verbatim>\<open>snprintf(arr + off, n, \<dots>)\<close> where \<open>s\<close> is the complete
  expansion of the format: at most \<open>n - 1\<close> characters and a null character are stored, and
  the length of the complete expansion is returned.
\<close>

definition snprintf_at :: "char list \<Rightarrow> int \<Rightarrow> nat \<Rightarrow> string \<Rightarrow> (char list \<times> int) cres" where
  "snprintf_at arr off n s =
     (if n = 0 then Inr (arr, int (length s))
      else cbind (poke arr off (take (n - 1) s @ [NUL])) (\<lambda>arr'. Inr (arr', int (length s))))"

text \<open>\<open>holds arr t\<close>: the array starts with the string \<open>t\<close> and its terminator.\<close>

definition holds :: "char list \<Rightarrow> string \<Rightarrow> bool" where
  "holds arr t \<longleftrightarrow> no_nul t \<and> (\<exists>zs. arr = t @ NUL # zs)"

lemma holds_c_string: "holds arr t \<Longrightarrow> c_string arr = t"
  by (auto simp: holds_def c_string_terminated)

lemma holds_length: "holds arr t \<Longrightarrow> length t < length arr"
  by (auto simp: holds_def)

text \<open>\<open>starts arr t\<close>: the array starts with the characters of \<open>t\<close> and is longer.\<close>

definition starts :: "char list \<Rightarrow> string \<Rightarrow> bool" where
  "starts arr t \<longleftrightarrow> no_nul t \<and> (\<exists>z zs. arr = t @ z # zs)"

lemma holds_starts: "holds arr t \<Longrightarrow> starts arr (take k t)"
proof -
  assume "holds arr t"
  then obtain zs where arr: "arr = t @ NUL # zs" "no_nul t" by (auto simp: holds_def)
  have "arr = take k t @ drop k t @ NUL # zs" using arr(1) by simp
  moreover have "drop k t @ NUL # zs \<noteq> []" by simp
  ultimately show ?thesis using arr(2) unfolding starts_def by (metis list.exhaust no_nul_take)
qed

lemma holds_starts_all: "holds arr t \<Longrightarrow> starts arr t"
  using holds_starts [of arr t "length t"] by simp

lemma starts_length: "starts arr t \<Longrightarrow> length t < length arr"
  by (auto simp: starts_def)

lemma poke_terminates: "starts arr t \<Longrightarrow> \<exists>arr'. poke arr (int (length t)) [NUL] = Inr arr' \<and> holds arr' t"
  by (auto simp: starts_def holds_def poke_def)

lemma snprintf_at_holds:
  assumes "starts arr t" and "no_nul s"
  shows "\<exists>arr'. snprintf_at arr (int (length t)) (length arr - length t) s = Inr (arr', int (length s))
           \<and> holds arr' (t @ take (length arr - length t - 1) s) \<and> length arr' = length arr"
proof -
  from assms(1) obtain z zs where arr: "arr = t @ z # zs" "no_nul t" by (auto simp: starts_def)
  let ?w = "take (length arr - length t - 1) s @ [NUL]"
  let ?arr' = "t @ ?w @ drop (length t + length ?w) arr"
  have len: "length t + length ?w \<le> length arr" using arr(1) by simp
  have "poke arr (int (length t)) ?w = Inr ?arr'"
    using len arr(1) by (simp add: poke_def)
  moreover have "length arr - length t \<noteq> 0" using arr(1) by simp
  ultimately have "snprintf_at arr (int (length t)) (length arr - length t) s = Inr (?arr', int (length s))"
    by (simp add: snprintf_at_def)
  moreover have "holds ?arr' (t @ take (length arr - length t - 1) s)"
    using arr(2) assms(2) by (auto simp: holds_def no_nul_take)
  moreover have "length ?arr' = length arr" using len by simp
  ultimately show ?thesis by blast
qed

end
