(* ===== verification/Person_Codec.thy ===== *)
theory Person_Codec
  imports Serialize C_Stdio
begin

text \<open>
  The client of the serialization library in \<^verbatim>\<open>common/serialization_test.c\<close>: the two
  structures, their encoders and decoders, and the program's \<^verbatim>\<open>main\<close>. The encoders and
  decoders are shown to satisfy the \<open>codec\<close> contract on every value whose first four
  encoded bytes are not the null sentinel.
\<close>

section \<open>Structures\<close>

record occupation_t =
  dept_name :: "byte list"
  employee_code :: int

record person_t =
  person_name :: "byte list"
  age :: int
  occ :: "occupation_t option"
  weight :: int

definition sizeof_occupation :: nat where "sizeof_occupation = 36"
definition sizeof_person :: nat where "sizeof_person = 56"

section \<open>Encoders and decoders\<close>

definition serialize_occupation ::
  "allocator \<Rightarrow> ser_buff_t \<Rightarrow> occupation_t option \<Rightarrow> ser_buff_t cres" where
  "serialize_occupation A buf p =
     (case p of None \<Rightarrow> serialize_null A buf
      | Some oc \<Rightarrow>
          cbind (serialize_data A buf (dept_name oc) 30) (\<lambda>buf.
          serialize_data A buf (int_bytes (employee_code oc)) 4))"

text \<open>
  \<^verbatim>\<open>serialized_buffer_dump\<close> prints the fields of the structure (result: what is printed).
\<close>

definition serialized_buffer_dump :: "ser_buff_t \<Rightarrow> (bool \<times> int \<times> int \<times> fptr \<times> fptr) cres" where
  "serialized_buffer_dump buf =
     cbind (deref buf) (\<lambda>s. Inr (blk s \<noteq> None, bsize s, bnext s, ser_func s, dser_func s))"

definition serialize_person ::
  "allocator \<Rightarrow> ser_buff_t \<Rightarrow> person_t option \<Rightarrow> ser_buff_t cres" where
  "serialize_person A buf p =
     (case p of None \<Rightarrow> serialize_null A buf
      | Some pn \<Rightarrow>
          cbind (serialize_data A buf (person_name pn) 30) (\<lambda>buf.
          cbind (serialize_data A buf (int_bytes (age pn)) 4) (\<lambda>buf.
          cbind (serialize_occupation A buf (occ pn)) (\<lambda>buf.
          cbind (serialize_data A buf (int_bytes (weight pn)) 4) (\<lambda>buf.
          cbind (serialized_buffer_dump buf) (\<lambda>_. Inr buf))))))"

text \<open>The results of \<^verbatim>\<open>calloc\<close> are used unchecked.\<close>

definition deserialize_occupation ::
  "allocator \<Rightarrow> ser_buff_t \<Rightarrow> (occupation_t option \<times> ser_buff_t) cres" where
  "deserialize_occupation A buf =
     cbind (deserialize_null A buf) (\<lambda>(r, buf).
     if r \<noteq> 0 then Inr (None, buf)
     else if \<not> alloc_ok A sizeof_occupation then Inl NullDeref
     else cbind (deserialize_data buf (replicate 30 0) 30) (\<lambda>(dn, buf).
          cbind (deserialize_data buf (int_bytes 0) 4) (\<lambda>(ec, buf).
          Inr (Some \<lparr>dept_name = dn, employee_code = bytes_int ec\<rparr>, buf))))"

definition deserialize_person ::
  "allocator \<Rightarrow> ser_buff_t \<Rightarrow> (person_t option \<times> ser_buff_t) cres" where
  "deserialize_person A buf =
     (if \<not> alloc_ok A sizeof_person then Inl NullDeref
      else cbind (deserialize_data buf (replicate 30 0) 30) (\<lambda>(nm, buf).
           cbind (deserialize_data buf (int_bytes 0) 4) (\<lambda>(ag, buf).
           cbind (deserialize_occupation A buf) (\<lambda>(oc, buf).
           cbind (deserialize_data buf (int_bytes 0) 4) (\<lambda>(wt, buf).
           Inr (Some \<lparr>person_name = nm, age = bytes_int ag, occ = oc, weight = bytes_int wt\<rparr>, buf))))))"

text \<open>The functions the stored pointers can point to in this program.\<close>

definition call_ser :: "allocator \<Rightarrow> string \<Rightarrow> ser_buff_t \<Rightarrow> person_t option \<Rightarrow> ser_buff_t cres" where
  "call_ser A f buf p =
     (if f = ''serialize_person'' then serialize_person A buf p else Inl BadCall)"

definition call_dser :: "allocator \<Rightarrow> string \<Rightarrow> ser_buff_t \<Rightarrow> (person_t option \<times> ser_buff_t) cres" where
  "call_dser A f buf =
     (if f = ''deserialize_person'' then deserialize_person A buf else Inl BadCall)"

section \<open>The program\<close>

text \<open>A string initialiser of a 30-byte array: the characters, then zero bytes.\<close>

definition char_array30 :: "string \<Rightarrow> byte list" where
  "char_array30 cs = take 30 (map of_char cs @ replicate 30 0)"

definition jack :: person_t where
  "jack = \<lparr>person_name = char_array30 ''jack'', age = 25,
           occ = Some \<lparr>dept_name = char_array30 ''software developement'', employee_code = 2507\<rparr>,
           weight = 80\<rparr>"

definition peter :: person_t where
  "peter = \<lparr>person_name = char_array30 ''peter'', age = 26, occ = None, weight = 55\<rparr>"

text \<open>The string in an array of bytes; without a zero byte \<^verbatim>\<open>%s\<close> reads on past the array.\<close>

definition array_string :: "byte list \<Rightarrow> string cres" where
  "array_string bs =
     (if 0 \<in> set bs then Inr (map (\<lambda>b. char_of (unat b)) (takeWhile (\<lambda>b. b \<noteq> 0) bs)) else Inl OutOfBounds)"

definition line_end :: string where "line_end = [CHR 0x0A]"

text \<open>What is printed to the standard output (for the null pointer: to \<^verbatim>\<open>stderr\<close>, the second component).\<close>

definition dump_person :: "person_t option \<Rightarrow> (string \<times> string) cres" where
  "dump_person p =
     (case p of None \<Rightarrow> Inr ([], ''person is NULL...'' @ line_end)
      | Some pn \<Rightarrow>
          cbind (array_string (person_name pn)) (\<lambda>nm.
          cbind (case occ pn of
              Some oc \<Rightarrow> cbind (array_string (dept_name oc)) (\<lambda>dn.
                Inr (''occ    = {'' @ dn @ '','' @ dec_int (employee_code oc) @ ''}'' @ line_end))
            | None \<Rightarrow> Inr (''occ    = (nil)'' @ line_end)) (\<lambda>oc.
          Inr (''name   = '' @ nm @ line_end @ ''age    = '' @ dec_int (age pn) @ line_end @ oc
               @ ''weight = '' @ dec_int (weight pn) @ line_end, []))))"

text \<open>
  \<^verbatim>\<open>main\<close>: the exit status, the three objects it decodes, and what it prints about them.
\<close>

definition serialization_main :: "allocator \<Rightarrow> (int \<times> person_t option list \<times> (string \<times> string) list) cres" where
  "serialization_main A =
     (let buf = serialized_buffer_create A (Some ''serialize_person'') (Some ''deserialize_person'')
      in if buf = None then Inr (1, [], [])
         else
           cbind (serialize (call_ser A) A buf (Some jack)) (\<lambda>buf.
           cbind (serialize (call_ser A) A buf None) (\<lambda>buf.
           cbind (serialize (call_ser A) A buf (Some peter)) (\<lambda>buf.
           cbind (serialized_buffer_reset buf) (\<lambda>buf.
           cbind (deserialize (call_dser A) A buf) (\<lambda>(jack_de, buf).
           cbind (dump_person jack_de) (\<lambda>out1.
           cbind (deserialize (call_dser A) A buf) (\<lambda>(dump, buf).
           cbind (dump_person dump) (\<lambda>out2.
           cbind (deserialize (call_dser A) A buf) (\<lambda>(peter_de, buf).
           cbind (dump_person peter_de) (\<lambda>out3.
           Inr (0, [jack_de, dump, peter_de], [out1, out2, out3]))))))))))))"

section \<open>The occupation codec\<close>

definition enc_occ :: "occupation_t option \<Rightarrow> byte list" where
  "enc_occ p = (case p of None \<Rightarrow> sentinel | Some oc \<Rightarrow> dept_name oc @ int_bytes (employee_code oc))"

definition valid_occ :: "occupation_t option \<Rightarrow> bool" where
  "valid_occ p = (case p of None \<Rightarrow> True
     | Some oc \<Rightarrow> length (dept_name oc) = 30 \<and> in_int (employee_code oc)
                 \<and> take 4 (dept_name oc) \<noteq> sentinel)"

lemma serialize_field:
  assumes "sb_wf s" and "ample A" and "bnext s + int n \<le> 1073741824" and "length d = n"
  obtains s' where "serialize_data A (Some s) d n = Inr (Some s')" and "appended s d s'"
proof -
  have "bnext s + int (length d) \<le> 1073741824" using assms(3,4) by simp
  from serialize_data_appends [OF assms(1,2) this] assms(4) show thesis
    using that by auto
qed

lemma serialize_occupation_appends:
  assumes "sb_wf s" and "ample A" and "valid_occ p"
    and "bnext s + int (length (enc_occ p)) \<le> 1073741824"
  shows "\<exists>s'. serialize_occupation A (Some s) p = Inr (Some s') \<and> appended s (enc_occ p) s'"
proof (cases p)
  case None
  with assms(4) have "bnext s + int 4 \<le> 1073741824" by (simp add: enc_occ_def)
  from serialize_field [OF assms(1,2) this length_sentinel] None show ?thesis
    by (auto simp: serialize_occupation_def serialize_null_def enc_occ_def)
next
  case (Some oc)
  with assms(3,4) have len: "length (dept_name oc) = 30" and room: "bnext s + int 34 \<le> 1073741824"
    by (simp_all add: valid_occ_def enc_occ_def)
  have "bnext s + int 30 \<le> 1073741824" using room by simp
  from serialize_field [OF assms(1,2) this len] obtain t
    where t: "serialize_data A (Some s) (dept_name oc) 30 = Inr (Some t)" "appended s (dept_name oc) t" .
  note t' = appendedD [OF t(2)]
  have "bnext t + int 4 \<le> 1073741824" using t'(3) len room by simp
  from serialize_field [OF t'(1) assms(2) this length_int_bytes] obtain u
    where u: "serialize_data A (Some t) (int_bytes (employee_code oc)) 4 = Inr (Some u)"
      "appended t (int_bytes (employee_code oc)) u" .
  from t u Some show ?thesis
    by (auto simp: serialize_occupation_def enc_occ_def intro: appended_trans)
qed

text \<open>
  Reading one field: what remains unread after it, for the next field to be read.
\<close>

lemma deserialize_field:
  assumes "sb_wf s" and "prefix (d @ rest) (unread s)" and "length d = n" and "length dest = n"
  shows "deserialize_data (Some s) dest n = Inr (d, Some (advance s n))"
    and "sb_wf (advance s n)" and "prefix rest (unread (advance s n))"
proof -
  have p: "prefix d (unread s)" using assms(2) by (rule append_prefixD)
  show "deserialize_data (Some s) dest n = Inr (d, Some (advance s n))"
    using deserialize_data_reads [OF assms(1) p, of dest] assms(3,4) by simp
  show "sb_wf (advance s n)"
    using assms(1,3) prefix_length_le [OF p] by (auto intro: advance_wf)
  show "prefix rest (unread (advance s n))"
    using prefix_unread_advance [OF assms(1,2)] assms(3) by simp
qed

lemma deserialize_not_null:
  assumes "sb_wf s" and "prefix d (unread s)" and "4 \<le> length d" and "take 4 d \<noteq> sentinel"
  shows "deserialize_null A (Some s) = Inr (0, Some s)"
proof (rule deserialize_null_other [OF assms(1)])
  show "4 \<le> length (unread s)" using assms(2,3) prefix_length_le le_trans by blast
  show "take 4 (unread s) \<noteq> sentinel" using assms(2-4) by (auto simp: prefix_def)
qed

lemma deserialize_occupation_reads:
  assumes "sb_wf s" and "ample A" and "valid_occ p" and "prefix (enc_occ p) (unread s)"
  shows "deserialize_occupation A (Some s) = Inr (p, Some (advance s (length (enc_occ p))))"
proof (cases p)
  case None
  with assms deserialize_null_sentinel [of s A] show ?thesis
    by (simp add: deserialize_occupation_def enc_occ_def)
next
  case (Some oc)
  with assms(3) have v: "length (dept_name oc) = 30" "in_int (employee_code oc)"
      "take 4 (dept_name oc) \<noteq> sentinel" by (simp_all add: valid_occ_def)
  have p: "prefix (dept_name oc @ int_bytes (employee_code oc) @ []) (unread s)"
    using assms(4) Some by (simp add: enc_occ_def)
  have nn: "deserialize_null A (Some s) = Inr (0, Some s)"
    using assms(1) append_prefixD [OF p] by (rule deserialize_not_null) (simp_all add: v)
  note f1 = deserialize_field [OF assms(1) p v(1) length_replicate]
  note f2 = deserialize_field [OF f1(2,3) length_int_bytes length_int_bytes]
  have "alloc_ok A sizeof_occupation" using assms(2) by (simp add: ample_def sizeof_occupation_def)
  with nn f1 f2 v Some show ?thesis
    by (simp add: deserialize_occupation_def enc_occ_def)
qed

interpretation occ_codec: codec serialize_occupation deserialize_occupation enc_occ valid_occ "\<lambda>f df. True"
  by unfold_locales (simp_all add: serialize_occupation_appends deserialize_occupation_reads)

section \<open>The person codec\<close>

definition enc_person :: "person_t \<Rightarrow> byte list" where
  "enc_person pn = person_name pn @ int_bytes (age pn) @ enc_occ (occ pn) @ int_bytes (weight pn)"

definition enc_person_ptr :: "person_t option \<Rightarrow> byte list" where
  "enc_person_ptr p = (case p of None \<Rightarrow> sentinel | Some pn \<Rightarrow> enc_person pn)"

definition valid_person :: "person_t option \<Rightarrow> bool" where
  "valid_person p = (case p of None \<Rightarrow> True
     | Some pn \<Rightarrow> length (person_name pn) = 30 \<and> in_int (age pn) \<and> valid_occ (occ pn)
                 \<and> in_int (weight pn) \<and> take 4 (person_name pn) \<noteq> sentinel)"

definition person_ctx :: "fptr \<Rightarrow> fptr \<Rightarrow> bool" where
  "person_ctx f df \<longleftrightarrow> f = Some ''serialize_person'' \<and> df = Some ''deserialize_person''"

lemma serialize_person_appends:
  assumes "sb_wf s" and "ample A" and "length (person_name pn) = 30" and "valid_occ (occ pn)"
    and room: "bnext s + int (length (enc_person pn)) \<le> 1073741824"
  shows "\<exists>s'. serialize_person A (Some s) (Some pn) = Inr (Some s') \<and> appended s (enc_person pn) s'"
proof -
  let ?eo = "enc_occ (occ pn)"
  have room': "bnext s + 38 + int (length ?eo) \<le> 1073741824"
    using room assms(3) by (simp add: enc_person_def)
  have "bnext s + int 30 \<le> 1073741824" using room' by simp
  from serialize_field [OF assms(1,2) this assms(3)] obtain s1 where s1:
    "serialize_data A (Some s) (person_name pn) 30 = Inr (Some s1)" "appended s (person_name pn) s1" .
  note w1 = appendedD [OF s1(2)]
  have "bnext s1 + int 4 \<le> 1073741824" using w1(3) assms(3) room' by simp
  from serialize_field [OF w1(1) assms(2) this length_int_bytes] obtain s2 where s2:
    "serialize_data A (Some s1) (int_bytes (age pn)) 4 = Inr (Some s2)"
    "appended s1 (int_bytes (age pn)) s2" .
  note w2 = appendedD [OF s2(2)]
  have "bnext s2 + int (length ?eo) \<le> 1073741824" using w1(3) w2(3) assms(3) room' by simp
  from serialize_occupation_appends [OF w2(1) assms(2,4) this] obtain s3 where s3:
    "serialize_occupation A (Some s2) (occ pn) = Inr (Some s3)" "appended s2 ?eo s3" by blast
  note w3 = appendedD [OF s3(2)]
  have "bnext s3 + int 4 \<le> 1073741824" using w1(3) w2(3) w3(3) assms(3) room' by simp
  from serialize_field [OF w3(1) assms(2) this length_int_bytes] obtain s4 where s4:
    "serialize_data A (Some s3) (int_bytes (weight pn)) 4 = Inr (Some s4)"
    "appended s3 (int_bytes (weight pn)) s4" .
  have "serialize_person A (Some s) (Some pn) = Inr (Some s4)"
    using s1(1) s2(1) s3(1) s4(1) by (simp add: serialize_person_def serialized_buffer_dump_def)
  moreover have "appended s (enc_person pn) s4" unfolding enc_person_def
    using s1(2) s2(2) s3(2) s4(2) by (metis appended_trans)
  ultimately show ?thesis by blast
qed

lemma deserialize_person_reads:
  assumes "sb_wf s" and "ample A" and "valid_person (Some pn)" and "prefix (enc_person pn) (unread s)"
  shows "deserialize_person A (Some s) = Inr (Some pn, Some (advance s (length (enc_person pn))))"
proof -
  have v: "length (person_name pn) = 30" "in_int (age pn)" "valid_occ (occ pn)" "in_int (weight pn)"
    using assms(3) by (simp_all add: valid_person_def)
  have p: "prefix (person_name pn @ int_bytes (age pn) @ enc_occ (occ pn) @ int_bytes (weight pn) @ [])
     (unread s)"
    using assms(4) by (simp add: enc_person_def)
  note f1 = deserialize_field [OF assms(1) p v(1) length_replicate]
  note f2 = deserialize_field [OF f1(2,3) length_int_bytes length_int_bytes]
  have po: "prefix (enc_occ (occ pn)) (unread (advance (advance s 30) 4))"
    using append_prefixD [OF f2(3)] by simp
  note oc = deserialize_occupation_reads [OF f2(2) assms(2) v(3) po]
  let ?t = "advance (advance (advance s 30) 4) (length (enc_occ (occ pn)))"
  have t: "sb_wf ?t" using f2(2) prefix_length_le [OF po] by (rule advance_wf)
  have "prefix (int_bytes (weight pn) @ []) (unread ?t)"
    using f2(2,3) by (rule prefix_unread_advance)
  note f4 = deserialize_field(1) [OF t this length_int_bytes length_int_bytes]
  have "alloc_ok A sizeof_person" using assms(2) by (simp add: ample_def sizeof_person_def)
  with f1(1) f2(1) oc f4 v show ?thesis
    by (simp add: deserialize_person_def enc_person_def add.assoc)
qed

interpretation person_codec: codec "\<lambda>A. serialize (call_ser A) A" "\<lambda>A. deserialize (call_dser A) A"
  enc_person_ptr valid_person person_ctx
proof
  fix s A p
  assume *: "sb_wf s" "ample A" "person_ctx (ser_func s) (dser_func s)" "valid_person p"
    "bnext s + int (length (enc_person_ptr p)) \<le> 1073741824"
  show "\<exists>s'. serialize (call_ser A) A (Some s) p = Inr (Some s') \<and> appended s (enc_person_ptr p) s'"
  proof (cases p)
    case None
    with *(5) have "bnext s + int 4 \<le> 1073741824" by (simp add: enc_person_ptr_def)
    from serialize_field [OF *(1,2) this length_sentinel] None show ?thesis
      by (auto simp: serialize_def enc_person_ptr_def)
  next
    case (Some pn)
    with * serialize_person_appends [of s A pn] show ?thesis
      by (simp add: serialize_def serialized_buffer_do_serialize_def call_ser_def person_ctx_def
          enc_person_ptr_def valid_person_def)
  qed
next
  fix s A p
  assume *: "sb_wf s" "ample A" "person_ctx (ser_func s) (dser_func s)" "valid_person p"
    "prefix (enc_person_ptr p) (unread s)"
  show "deserialize (call_dser A) A (Some s) = Inr (p, Some (advance s (length (enc_person_ptr p))))"
  proof (cases p)
    case None
    with * deserialize_null_sentinel [of s A] show ?thesis
      by (simp add: deserialize_def enc_person_ptr_def)
  next
    case (Some pn)
    with *(4) have nm: "length (person_name pn) = 30" "take 4 (person_name pn) \<noteq> sentinel"
      by (simp_all add: valid_person_def)
    have pe: "prefix (enc_person pn) (unread s)" using *(5) Some by (simp add: enc_person_ptr_def)
    have "deserialize_null A (Some s) = Inr (0, Some s)"
      using *(1) pe by (rule deserialize_not_null) (simp_all add: enc_person_def nm)
    with * Some deserialize_person_reads [OF *(1,2) _ pe] show ?thesis
      by (simp add: deserialize_def serialized_buffer_do_deserialize_def call_dser_def person_ctx_def
          enc_person_ptr_def)
  qed
qed

section \<open>Properties\<close>

lemma length_enc_person: "valid_person p \<Longrightarrow> length (enc_person_ptr p) \<le> 72"
  by (auto simp: valid_person_def valid_occ_def enc_person_ptr_def enc_person_def enc_occ_def
      split: option.splits)

lemma length_enc_persons:
  "list_all valid_person ps \<Longrightarrow> length (concat (map enc_person_ptr ps)) \<le> 72 * length ps"
  by (induction ps) (auto dest: length_enc_person)

lemma create_zero_next: "serialized_buffer_create A f df = Some s \<Longrightarrow>
    bnext s = 0 \<and> ser_func s = f \<and> dser_func s = df"
  by (auto simp: serialized_buffer_create_def split: if_splits)

text \<open>
  C1: the whole library round trip. Any sequence of person pointers, null pointers among
  them, that is serialized into a fresh buffer and deserialized after a reset comes back
  unchanged: every field, the nested occupation, its absence, and the null pointers, in order.
\<close>

theorem person_sequence_round_trip:
  assumes "serialized_buffer_create A (Some ''serialize_person'') (Some ''deserialize_person'') = Some s"
    and "ample A" and "list_all valid_person ps" and "72 * length ps \<le> 1073741824"
  shows "\<exists>buf t. cbind (put_all (\<lambda>A. serialize (call_ser A) A) A ps (Some s)) serialized_buffer_reset = Inr buf
           \<and> get_all (\<lambda>A. deserialize (call_dser A) A) A (length ps) buf = Inr (ps, Some t)"
proof -
  have "length (concat (map enc_person_ptr ps)) \<le> 1073741824"
    using length_enc_persons [OF assms(3)] assms(4) by simp
  moreover have "bnext s = 0" "person_ctx (ser_func s) (dser_func s)"
    using create_zero_next [OF assms(1)] by (simp_all add: person_ctx_def)
  ultimately show ?thesis
    using person_codec.round_trip [OF sb_wf_create [OF assms(1)] _ assms(2) _ assms(3)] by blast
qed

lemma sentinel_eval: "sentinel = [255, 255, 255, 255]"
proof -
  have *: "(4 :: nat) = Suc (Suc (Suc (Suc 0)))" by simp
  show ?thesis by (simp only: sentinel_def * le_bytes.simps) simp
qed

lemma sentinel_replicate: "sentinel = replicate 4 255"
proof -
  have *: "(4 :: nat) = Suc (Suc (Suc (Suc 0)))" by simp
  show ?thesis by (simp only: sentinel_eval * replicate.simps)
qed

lemma length_char_array30 [simp]: "length (char_array30 cs) = 30"
  by (simp add: char_array30_def)

lemma char_array30_not_sentinel:
  assumes "cs \<noteq> []" and "of_char (hd cs) \<noteq> (255 :: byte)"
  shows "take 4 (char_array30 cs) \<noteq> sentinel"
proof
  assume "take 4 (char_array30 cs) = sentinel"
  then have "hd (take 4 (char_array30 cs)) = 255" by (simp add: sentinel_eval)
  with assms show False by (cases cs) (simp_all add: char_array30_def)
qed

lemma valid_examples: "list_all valid_person [Some jack, None, Some peter]"
  by (simp add: valid_person_def valid_occ_def jack_def peter_def char_array30_not_sentinel
      int_range_defs)

theorem person_sequence_round_trip_witness:
  "\<exists>buf t. cbind (put_all (\<lambda>A. serialize (call_ser A) A) generous [Some jack, None, Some peter]
       (serialized_buffer_create generous (Some ''serialize_person'') (Some ''deserialize_person'')))
       serialized_buffer_reset = Inr buf
     \<and> get_all (\<lambda>A. deserialize (call_dser A) A) generous 3 buf =
         Inr ([Some jack, None, Some peter], Some t)"
  using person_sequence_round_trip [OF create_generous ample_generous valid_examples]
  by (simp add: create_generous numeral_3_eq_3 del: put_all.simps get_all.simps)

lemma of_nat_of_char_byte: "of_nat (of_char c) = (of_char c :: byte)"
  by (cases c) (simp add: of_char_def)

lemma unat_of_char: "unat (of_char c :: byte) = of_char c"
proof -
  have "(of_char c :: nat) mod 256 = of_char c" by (rule of_char_mod_256)
  then have "unat (of_nat (of_char c) :: byte) = of_char c" by (simp add: unat_of_nat)
  then show ?thesis by (simp only: of_nat_of_char_byte)
qed

lemma of_char_nonzero: "c \<noteq> NUL \<Longrightarrow> (of_char c :: byte) \<noteq> 0"
proof
  assume c: "c \<noteq> NUL" "(of_char c :: byte) = 0"
  then have "(of_char c :: nat) = of_char NUL" using unat_of_char [of c] by (simp add: NUL_def)
  then show False using c(1) by (simp only: of_char_eq_iff)
qed

lemma array_string_char_array30:
  assumes "no_nul cs" and "length cs < 30"
  shows "array_string (char_array30 cs) = Inr cs"
proof -
  have nz: "(of_char c :: byte) \<noteq> 0" if "c \<in> set cs" for c
    using that assms(1) by (intro of_char_nonzero) (auto simp: no_nul_def)
  have "char_array30 cs = map of_char cs @ replicate (30 - length cs) 0"
    using assms(2) by (simp add: char_array30_def)
  moreover have "takeWhile (\<lambda>b. b \<noteq> (0 :: byte)) (map of_char cs @ replicate (30 - length cs) 0) = map of_char cs"
    using assms nz by (subst takeWhile_append2) (auto simp: takeWhile_eq_Nil_iff)
  moreover have "map (\<lambda>b. char_of (unat b)) (map of_char cs :: byte list) = cs"
    by (simp add: comp_def unat_of_char)
  ultimately show ?thesis using assms(2) by (simp add: array_string_def)
qed

lemma dump_null: "dump_person None = Inr ([], ''person is NULL...'' @ line_end)"
  by (simp add: dump_person_def)

lemma dump_jack:
  "dump_person (Some jack) = Inr (''name   = jack'' @ line_end @ ''age    = 25'' @ line_end
     @ ''occ    = {software developement,2507}'' @ line_end @ ''weight = 80'' @ line_end, [])"
  by (simp add: dump_person_def jack_def array_string_char_array30 no_nul_def NUL_def dec_int_def dec_nat.simps digit_chars)

lemma dump_peter:
  "dump_person (Some peter) = Inr (''name   = peter'' @ line_end @ ''age    = 26'' @ line_end
     @ ''occ    = (nil)'' @ line_end @ ''weight = 55'' @ line_end, [])"
  by (simp add: dump_person_def peter_def array_string_char_array30 no_nul_def NUL_def dec_int_def dec_nat.simps digit_chars)

text \<open>
  The test program prints what it stored: with memory available, \<^verbatim>\<open>main\<close> exits with 0 after
  decoding exactly jack, the null person and peter.
\<close>

theorem serialization_main_result:
  assumes "ample A"
  shows "serialization_main A = Inr (0, [Some jack, None, Some peter],
    [(''name   = jack'' @ line_end @ ''age    = 25'' @ line_end
        @ ''occ    = {software developement,2507}'' @ line_end @ ''weight = 80'' @ line_end, []),
     ([], ''person is NULL...'' @ line_end),
     (''name   = peter'' @ line_end @ ''age    = 26'' @ line_end
        @ ''occ    = (nil)'' @ line_end @ ''weight = 55'' @ line_end, [])])"
proof -
  let ?f = "Some ''serialize_person''" and ?df = "Some ''deserialize_person''"
  have "alloc_ok A sizeof_ser_buff" "alloc_ok A (nat SERIALIZE_BUFFER_DEFAULT_SIZE)"
    using assms by (simp_all add: ample_def sizeof_ser_buff_def SERIALIZE_BUFFER_DEFAULT_SIZE_def)
  then obtain s where s: "serialized_buffer_create A ?f ?df = Some s"
    by (simp add: serialized_buffer_create_def)
  from person_codec.round_trip [OF sb_wf_create [OF s] _ assms _ valid_examples]
    create_zero_next [OF s] length_enc_persons [OF valid_examples] obtain buf t
  where put: "cbind (put_all (\<lambda>A. serialize (call_ser A) A) A [Some jack, None, Some peter] (Some s))
        serialized_buffer_reset = Inr buf"
    and get: "get_all (\<lambda>A. deserialize (call_dser A) A) A (Suc (Suc (Suc 0))) buf =
        Inr ([Some jack, None, Some peter], Some t)"
    by (auto simp: person_ctx_def)
  from put obtain b1 b2 b3 where "serialize (call_ser A) A (Some s) (Some jack) = Inr b1"
    "serialize (call_ser A) A b1 None = Inr b2" "serialize (call_ser A) A b2 (Some peter) = Inr b3"
    "serialized_buffer_reset b3 = Inr buf"
    by (auto simp: cbind_eq_Inr_iff)
  moreover from get obtain c1 c2 c3 where "deserialize (call_dser A) A buf = Inr (Some jack, c1)"
    "deserialize (call_dser A) A c1 = Inr (None, c2)"
    "deserialize (call_dser A) A c2 = Inr (Some peter, c3)"
    by (auto simp: cbind_eq_Inr_iff)
  ultimately show ?thesis by (simp add: serialization_main_def s dump_jack dump_peter dump_null)
qed

theorem serialization_main_result_witness:
  "\<exists>out. serialization_main generous = Inr (0, [Some jack, None, Some peter], out)"
  using serialization_main_result [OF ample_generous] by blast

text \<open>
  The sentinel is not reserved. A person whose name begins with four bytes 0xFF is
  written like any other, but reading it back yields the null pointer, and the stream is
  left in the middle of the record.
\<close>

theorem person_confused_with_null:
  assumes "serialized_buffer_create A (Some ''serialize_person'') (Some ''deserialize_person'') = Some s"
    and "ample A" and "length (person_name pn) = 30" and "take 4 (person_name pn) = sentinel"
    and "valid_occ (occ pn)"
  shows "\<exists>buf t. cbind (serialize (call_ser A) A (Some s) (Some pn)) serialized_buffer_reset = Inr buf
           \<and> deserialize (call_dser A) A buf = Inr (None, Some t)
           \<and> bnext t = 4"
proof -
  have e: "length (enc_person pn) \<le> 72"
    using assms(3,5) by (auto simp: valid_occ_def enc_person_def enc_occ_def split: option.splits)
  note s = create_zero_next [OF assms(1)]
  have "bnext s + int (length (enc_person pn)) \<le> 1073741824" using e s by simp
  from serialize_person_appends [OF sb_wf_create [OF assms(1)] assms(2,3,5) this] obtain u
    where u: "serialize_person A (Some s) (Some pn) = Inr (Some u)" "appended s (enc_person pn) u"
    by blast
  note u' = appendedD [OF u(2)]
  let ?r = "u\<lparr>bnext := 0\<rparr>"
  have wf: "sb_wf ?r" using u'(1) by (auto simp: sb_wf_def split: option.splits)
  have "contents ?r = contents u" by (simp add: contents_def)
  then have "unread ?r = written u @ unread u" by (metis unread_def drop0 nat_0 ser_buff.select_convs(3) ser_buff.surjective
        ser_buff.update_convs(3) written_append_unread)
  moreover have "written u = enc_person pn" using u'(2) s by (simp add: written_def)
  moreover have "prefix sentinel (enc_person pn)"
    using assms(4) by (metis append_prefixD enc_person_def prefix_order.refl prefix_prefix take_is_prefix)
  ultimately have "prefix sentinel (unread ?r)" by simp
  with deserialize_null_sentinel [OF wf] have
    "deserialize (call_dser A) A (Some ?r) = Inr (None, Some (advance ?r 4))"
    by (simp add: deserialize_def)
  moreover have "serialize (call_ser A) A (Some s) (Some pn) = Inr (Some u)"
    using u(1) s by (simp add: serialize_def serialized_buffer_do_serialize_def call_ser_def)
  ultimately show ?thesis by (auto simp: serialized_buffer_reset_def)
qed

theorem person_confused_with_null_witness:
  "\<exists>buf t. cbind (serialize (call_ser generous) generous
        (serialized_buffer_create generous (Some ''serialize_person'') (Some ''deserialize_person''))
        (Some \<lparr>person_name = replicate 30 255, age = 25, occ = None, weight = 80\<rparr>))
      serialized_buffer_reset = Inr buf
    \<and> deserialize (call_dser generous) generous buf = Inr (None, Some t) \<and> bnext t = 4"
  using person_confused_with_null [OF create_generous ample_generous,
      of "\<lparr>person_name = replicate 30 255, age = 25, occ = None, weight = 80\<rparr>"]
  by (simp add: create_generous sentinel_replicate valid_occ_def)

section \<open>Decoding arbitrary bytes\<close>

text \<open>A structure as the C type declares it: arrays of 30 bytes and values of type \<^verbatim>\<open>int\<close>.\<close>

definition typed_occupation :: "occupation_t \<Rightarrow> bool" where
  "typed_occupation oc \<longleftrightarrow> length (dept_name oc) = 30 \<and> in_int (employee_code oc)"

definition typed_person :: "person_t \<Rightarrow> bool" where
  "typed_person pn \<longleftrightarrow> length (person_name pn) = 30 \<and> in_int (age pn) \<and> in_int (weight pn)
     \<and> (case occ pn of None \<Rightarrow> True | Some oc \<Rightarrow> typed_occupation oc)"

lemma valid_typed: "valid_person (Some pn) \<Longrightarrow> typed_person pn"
  by (auto simp: valid_person_def valid_occ_def typed_person_def typed_occupation_def split: option.splits)

lemma bytes_int_typed: "in_int (bytes_int bs)"
  by (simp add: bytes_int_def to_int_range)

lemma int_bytes_bytes_int: "length bs = 4 \<Longrightarrow> int_bytes (bytes_int bs) = bs"
proof -
  assume l: "length bs = 4"
  then have n: "int (le_nat bs) < 4294967296" using le_nat_bound [of bs] by simp
  then have "bytes_int bs mod 4294967296 = int (le_nat bs)"
    by (auto simp: bytes_int_def to_int_def Let_def mod_diff_right_eq [of _ 4294967296 4294967296, symmetric])
  then show ?thesis using le_bytes_le_nat [of bs] l by (simp add: int_bytes_def)
qed

text \<open>Every sequence of bytes that is long enough starts with the encoding of exactly one object.\<close>

lemma bytes_encode_occ:
  assumes "34 \<le> length bs"
  shows "\<exists>p. valid_occ p \<and> prefix (enc_occ p) bs"
proof (cases "take 4 bs = sentinel")
  case True
  then have "prefix (enc_occ None) bs" by (metis enc_occ_def option.case(1) take_is_prefix)
  then show ?thesis by (intro exI [of _ None]) (simp add: valid_occ_def)
next
  case False
  let ?oc = "\<lparr>dept_name = take 30 bs, employee_code = bytes_int (take 4 (drop 30 bs))\<rparr>"
  have "enc_occ (Some ?oc) = take 34 bs"
    using assms by (simp add: enc_occ_def int_bytes_bytes_int flip: take_add)
  then have "prefix (enc_occ (Some ?oc)) bs" by (metis take_is_prefix)
  moreover have "valid_occ (Some ?oc)" using False assms by (simp add: valid_occ_def bytes_int_typed)
  ultimately show ?thesis by blast
qed

lemma bytes_encode_person:
  assumes "72 \<le> length bs"
  shows "\<exists>p. valid_person p \<and> prefix (enc_person_ptr p) bs"
proof (cases "take 4 bs = sentinel")
  case True
  then have "prefix (enc_person_ptr None) bs" by (metis enc_person_ptr_def option.case(1) take_is_prefix)
  then show ?thesis by (intro exI [of _ None]) (simp add: valid_person_def)
next
  case False
  have "34 \<le> length (drop 34 bs)" using assms by simp
  from bytes_encode_occ [OF this] obtain oc zs where
    oc: "valid_occ oc" "drop 34 bs = enc_occ oc @ zs" by (auto simp: prefix_def)
  have "length (enc_occ oc) \<le> 34" using oc(1) by (auto simp: valid_occ_def enc_occ_def split: option.splits)
  moreover have "length bs - 34 = length (enc_occ oc) + length zs" by (metis oc(2) length_append length_drop)
  ultimately have zs: "4 \<le> length zs" using assms by simp
  let ?pn = "\<lparr>person_name = take 30 bs, age = bytes_int (take 4 (drop 30 bs)), occ = oc, weight = bytes_int (take 4 zs)\<rparr>"
  have "enc_person ?pn = take 34 bs @ enc_occ oc @ take 4 zs"
    using assms zs take_add [of 30 4 bs] by (simp add: enc_person_def int_bytes_bytes_int)
  moreover have "bs = take 34 bs @ enc_occ oc @ zs" using oc(2) by (metis append_take_drop_id)
  ultimately have "prefix (enc_person_ptr (Some ?pn)) bs"
    unfolding enc_person_ptr_def prefix_def by (metis append.assoc append_take_drop_id option.case(2))
  moreover have "valid_person (Some ?pn)"
    using False assms oc(1) by (simp add: valid_person_def bytes_int_typed)
  ultimately show ?thesis by blast
qed

text \<open>
  C40: decoding and encoding again. Whatever bytes the buffer holds, if at least 72 are left (as many as the
  longest object takes), \<^verbatim>\<open>deserialize\<close> returns: the null pointer exactly if the next four bytes are the
  sentinel, and otherwise an object of the declared type. The cursor has moved by some \<open>n\<close>, and
  serializing the result into any other buffer appends exactly the \<open>n\<close> bytes that were read: no byte is dropped, read
  twice or out of order.
\<close>

theorem decoded_person_reencodes:
  assumes "sb_wf s" and "person_ctx (ser_func s) (dser_func s)" and "72 \<le> length (unread s)" and "ample A"
    and "sb_wf t" and "person_ctx (ser_func t) (dser_func t)" and "bnext t + 72 \<le> 1073741824"
  shows "\<exists>p n u. deserialize (call_dser A) A (Some s) = Inr (p, Some (advance s n)) \<and> n \<le> 72
    \<and> (case p of None \<Rightarrow> take 4 (unread s) = sentinel | Some pn \<Rightarrow> take 4 (unread s) \<noteq> sentinel \<and> typed_person pn)
    \<and> serialize (call_ser A) A (Some t) p = Inr (Some u) \<and> written u = written t @ take n (unread s)"
proof -
  from bytes_encode_person [OF assms(3)] obtain p where
    p: "valid_person p" "prefix (enc_person_ptr p) (unread s)" by blast
  let ?n = "length (enc_person_ptr p)"
  have n: "?n \<le> 72" by (rule length_enc_person [OF p(1)])
  have enc: "take ?n (unread s) = enc_person_ptr p" using p(2) by (auto simp: prefix_def)
  have "case p of None \<Rightarrow> take 4 (unread s) = sentinel | Some pn \<Rightarrow> take 4 (unread s) \<noteq> sentinel \<and> typed_person pn"
    using p by (auto simp: enc_person_ptr_def enc_person_def valid_person_def prefix_def dest: valid_typed split: option.splits)
      (auto simp: valid_person_def valid_occ_def typed_person_def typed_occupation_def split: option.splits)
  moreover have "deserialize (call_dser A) A (Some s) = Inr (p, Some (advance s ?n))"
    by (rule person_codec.get_reads [OF assms(1,4,2) p])
  moreover obtain u where "serialize (call_ser A) A (Some t) p = Inr (Some u)" "appended t (enc_person_ptr p) u"
    using person_codec.put_appends [OF assms(5,4,6) p(1)] assms(7) n by auto
  moreover from this have "written u = written t @ take ?n (unread s)" using enc by (simp add: appendedD(2))
  ultimately show ?thesis using n by blast
qed

theorem decoded_person_reencodes_witness:
  "\<exists>p n u. deserialize (call_dser generous) generous (Some \<lparr>blk = Some (replicate 80 7), bsize = 80, bnext = 0,
         ser_func = Some ''serialize_person'', dser_func = Some ''deserialize_person''\<rparr>)
       = Inr (Some p, Some \<lparr>blk = Some (replicate 80 7), bsize = 80, bnext = int n,
         ser_func = Some ''serialize_person'', dser_func = Some ''deserialize_person''\<rparr>)
     \<and> typed_person p
     \<and> serialize (call_ser generous) generous (Some \<lparr>blk = Some (replicate 80 0), bsize = 80, bnext = 0,
         ser_func = Some ''serialize_person'', dser_func = Some ''deserialize_person''\<rparr>) (Some p) = Inr (Some u)
     \<and> written u = replicate n 7"
proof -
  let ?b = "\<lambda>x. \<lparr>blk = Some (replicate 80 x), bsize = 80, bnext = 0,
     ser_func = Some ''serialize_person'', dser_func = Some ''deserialize_person''\<rparr>"
  have wf: "sb_wf (?b x)" "person_ctx (ser_func (?b x)) (dser_func (?b x))" "unread (?b x) = replicate 80 x"
    "written (?b x) = []" for x
    by (simp_all add: sb_wf_def person_ctx_def unread_def written_def contents_def INT_MAX_def)
  have ns: "take 4 (replicate 80 (7 :: byte)) \<noteq> sentinel" by (simp add: sentinel_replicate)
  from decoded_person_reencodes [OF wf(1,2) _ ample_generous wf(1,2), of 7 0] wf(3,4)
  obtain p n u where r: "deserialize (call_dser generous) generous (Some (?b 7)) = Inr (p, Some (advance (?b 7) n))" "n \<le> 72"
    "case p of None \<Rightarrow> take 4 (replicate 80 (7 :: byte)) = sentinel | Some pn \<Rightarrow> typed_person pn"
    "serialize (call_ser generous) generous (Some (?b 0)) p = Inr (Some u)" "written u = take n (replicate 80 7)"
    by (auto split: option.splits)
  from r(3) ns obtain pn where "p = Some pn" "typed_person pn" by (auto split: option.splits)
  with r show ?thesis by (auto simp: advance_def min_def)
qed

end
