(* ===== verification/Simple_Rpc.thy ===== *)
theory Simple_Rpc
  imports Serialize
begin

text \<open>
  The remote procedure call client of \<^verbatim>\<open>Linux/RPC/simple_rpc.c\<close>: marshalling two integers
  with the serialization library and sending the buffer as one datagram. The outcome of name
  resolution and of \<^verbatim>\<open>socket\<close> is given by a record; what is handed to \<^verbatim>\<open>sendto\<close> is the result.
\<close>

record net =
  host_found :: bool
  socket_ok :: bool

definition multiply_client_stub_marshal :: "allocator \<Rightarrow> int \<Rightarrow> int \<Rightarrow> ser_buff_t cres" where
  "multiply_client_stub_marshal A a b =
     cbind (serialize_int A (serialized_buffer_create A None None) a) (\<lambda>buf.
     serialize_int A buf b)"

text \<open>
  The result of \<^verbatim>\<open>gethostbyname\<close> is dereferenced unchecked. The datagram is the whole buffer,
  \<^verbatim>\<open>serialized_buffer_size\<close> bytes, not only its written part. Nothing is ever received.
\<close>

definition rpc_send_recv :: "net \<Rightarrow> ser_buff_t \<Rightarrow> ser_buff_t \<Rightarrow> byte list option cres" where
  "rpc_send_recv N send recv =
     (if \<not> host_found N then Inl NullDeref
      else if \<not> socket_ok N then Inr None
      else cbind (serialized_buffer_start_pos send) (\<lambda>p.
           cbind (serialized_buffer_size send) (\<lambda>sz.
             case p of None \<Rightarrow> Inl UseAfterFree
             | Some bs \<Rightarrow> cbind (peek bs 0 (to_size_t sz)) (\<lambda>d. Inr (Some d)))))"

text \<open>
  \<^verbatim>\<open>multiply_rpc\<close> has no \<^verbatim>\<open>return\<close> statement: the second component, its value, is \<open>None\<close>.
\<close>

definition multiply_rpc :: "allocator \<Rightarrow> net \<Rightarrow> int \<Rightarrow> int \<Rightarrow> (byte list option \<times> int option) cres" where
  "multiply_rpc A N a b =
     cbind (multiply_client_stub_marshal A a b) (\<lambda>send.
     let recv = serialized_buffer_create A None None in
     cbind (rpc_send_recv N send recv) (\<lambda>datagram.
     cbind (serialized_buffer_destroy send) (\<lambda>_. Inr (datagram, None))))"

definition rpc_main :: "allocator \<Rightarrow> net \<Rightarrow> int cres" where
  "rpc_main A N =
     cbind (multiply_rpc A N 3 5) (\<lambda>(datagram, r).
       case r of None \<Rightarrow> Inl NoReturnValue | Some v \<Rightarrow> Inr v)"

text \<open>
  The wrappers that pass integers as pointers. A pointer is converted to \<^verbatim>\<open>int\<close> by its low 32 bits,
  an \<^verbatim>\<open>int\<close> to a pointer with its sign. The second argument of the decoder is not used.
\<close>

definition serialize_int_wrapper :: "allocator \<Rightarrow> ser_buff_t \<Rightarrow> nat \<Rightarrow> ser_buff_t cres" where
  "serialize_int_wrapper A buf dump = serialize_int A buf (to_int dump)"

definition deserialize_int_wrapper :: "ser_buff_t \<Rightarrow> (nat \<times> ser_buff_t) cres" where
  "deserialize_int_wrapper buf = cbind (deserialize_int buf) (\<lambda>(temp, buf). Inr (to_size_t temp, buf))"

section \<open>Integers passed as pointers\<close>

text \<open>The pointers that stand for an \<^verbatim>\<open>int\<close>: those that the conversion and back does not change.\<close>

definition int_pointer :: "nat \<Rightarrow> bool" where
  "int_pointer p \<longleftrightarrow> to_size_t (to_int p) = p"

lemma int_pointer_of_int: "in_int x \<Longrightarrow> to_int (to_size_t x) = x"
proof -
  assume x: "in_int x"
  have "int (nat (x mod 18446744073709551616)) mod 4294967296 = x mod 4294967296"
    by (simp add: mod_mod_cancel)
  moreover have "x mod 4294967296 = (if 0 \<le> x then x else x + 4294967296)"
  proof (cases "0 \<le> x")
    case False
    then have "(x + 4294967296) mod 4294967296 = x + 4294967296"
      using x by (intro mod_pos_pos_trivial) (simp_all add: int_range_defs)
    with False show ?thesis by simp
  qed (use x in \<open>simp add: int_range_defs\<close>)
  ultimately show ?thesis using x by (simp add: to_int_def to_size_t_def int_range_defs Let_def)
qed

interpretation wrapper_codec: codec serialize_int_wrapper "\<lambda>A buf. deserialize_int_wrapper buf"
  "\<lambda>p. int_bytes (to_int p)" int_pointer "\<lambda>f df. True"
proof
  fix s A p
  assume "sb_wf s" "ample A" "int_pointer p" "bnext s + int (length (int_bytes (to_int p))) \<le> 1073741824"
  with int_codec.put_appends [of s A "to_int p"] to_int_range
  show "\<exists>s'. serialize_int_wrapper A (Some s) p = Inr (Some s') \<and> appended s (int_bytes (to_int p)) s'"
    by (simp add: serialize_int_wrapper_def)
next
  fix s A p
  assume "sb_wf s" "ample A" "int_pointer p" "prefix (int_bytes (to_int p)) (unread s)"
  with int_codec.get_reads [of s A "to_int p"] to_int_range
  show "deserialize_int_wrapper (Some s) = Inr (p, Some (advance s (length (int_bytes (to_int p)))))"
    by (simp add: deserialize_int_wrapper_def int_pointer_def)
qed

text \<open>
  Integers converted to pointers, written with one wrapper and read with the other, are converted
  back to themselves.
\<close>

theorem wrapped_ints_round_trip:
  assumes "serialized_buffer_create A None None = Some s" and "ample A"
    and "list_all in_int xs" and "4 * length xs \<le> 1073741824"
  shows "\<exists>buf ps t. cbind (put_all serialize_int_wrapper A (map to_size_t xs) (Some s)) serialized_buffer_reset = Inr buf
    \<and> get_all (\<lambda>A buf. deserialize_int_wrapper buf) A (length xs) buf = Inr (ps, Some t) \<and> map to_int ps = xs"
proof -
  let ?ps = "map to_size_t xs"
  have ints: "map to_int ?ps = xs"
    using assms(3) by (simp add: list_all_iff int_pointer_of_int map_idI)
  have "list_all int_pointer ?ps"
    using assms(3) by (simp add: list_all_iff int_pointer_def int_pointer_of_int)
  moreover have "length (concat (map (\<lambda>p. int_bytes (to_int p)) ?ps)) = 4 * length xs"
    by (induction xs) simp_all
  moreover have "sb_wf s" "bnext s = 0"
    using sb_wf_create [OF assms(1)] assms(1) by (auto simp: serialized_buffer_create_def split: if_splits)
  ultimately obtain buf t where
    "cbind (put_all serialize_int_wrapper A ?ps (Some s)) serialized_buffer_reset = Inr buf"
    "get_all (\<lambda>A buf. deserialize_int_wrapper buf) A (length ?ps) buf = Inr (?ps, Some t)"
    using wrapper_codec.round_trip [of s A ?ps] assms(2,4) by auto
  with ints show ?thesis by auto
qed

section \<open>Properties\<close>

lemma marshal_appends:
  assumes "ample A"
  shows "\<exists>s. multiply_client_stub_marshal A a b = Inr (Some s) \<and> sb_wf s \<and> bsize s = 512
           \<and> written s = int_bytes a @ int_bytes b"
proof -
  have "alloc_ok A sizeof_ser_buff" "alloc_ok A (nat SERIALIZE_BUFFER_DEFAULT_SIZE)"
    using assms by (simp_all add: ample_def sizeof_ser_buff_def SERIALIZE_BUFFER_DEFAULT_SIZE_def)
  then obtain s where s: "serialized_buffer_create A None None = Some s" "bnext s = 0" "bsize s = 512"
    by (simp add: serialized_buffer_create_def SERIALIZE_BUFFER_DEFAULT_SIZE_def)
  have "bnext s + int (length (int_bytes a)) \<le> 1073741824" using s(2) by simp
  from serialize_data_appends [OF sb_wf_create [OF s(1)] assms this] s(2,3) obtain t where t:
    "serialize_int A (Some s) a = Inr (Some t)" "appended s (int_bytes a) t" "bsize t = 512"
    by (auto simp: serialize_int_def)
  note t' = appendedD [OF t(2)]
  have "bnext t + int (length (int_bytes b)) \<le> 1073741824" using t'(3) s(2) by simp
  from serialize_data_appends [OF t'(1) assms this] t'(3) t(3) s(2) obtain u where u:
    "serialize_int A (Some t) b = Inr (Some u)" "appended t (int_bytes b) u" "bsize u = 512"
    by (auto simp: serialize_int_def)
  from s t u t'(2) written_create [OF s(1)] appendedD [OF u(2)] show ?thesis
    by (simp add: multiply_client_stub_marshal_def)
qed

text \<open>
  C25: what the client sends can be decoded by a server that uses the same library: the
  datagram is the whole buffer of 512 bytes, and loading it into a buffer and reading two
  integers yields the two arguments.
\<close>

theorem rpc_datagram_decodes:
  assumes "ample A" and "in_int a" and "in_int b" and "host_found N" and "socket_ok N"
  shows "\<exists>dg t. multiply_rpc A N a b = Inr (Some dg, None) \<and> length dg = 512
           \<and> get_all (\<lambda>A buf. deserialize_int buf) A 2
               (Some \<lparr>blk = Some dg, bsize = 512, bnext = 0, ser_func = f, dser_func = df\<rparr>)
             = Inr ([a, b], Some t)"
proof -
  from marshal_appends [OF assms(1)] obtain s where s:
    "multiply_client_stub_marshal A a b = Inr (Some s)" "sb_wf s" "bsize s = 512"
    "written s = int_bytes a @ int_bytes b" by blast
  from s(2,3) obtain bs where bs: "blk s = Some bs" "contents s = bs" "length bs = 512" by fastforce
  have sent: "multiply_rpc A N a b = Inr (Some bs, None)"
    using s(1,3) bs assms(4,5)
    by (simp add: multiply_rpc_def rpc_send_recv_def serialized_buffer_start_pos_def
        serialized_buffer_size_def serialized_buffer_destroy_def peek_def int_range_defs)
  let ?r = "\<lparr>blk = Some bs, bsize = 512, bnext = 0, ser_func = f, dser_func = df\<rparr>"
  have wf: "sb_wf ?r" using bs(3) by (simp add: sb_wf_def INT_MAX_def)
  have "prefix (written s) (contents s)" by (simp add: written_def take_is_prefix)
  then have "prefix (concat (map int_bytes [a, b])) (unread ?r)"
    using s(4) bs(2) by (simp add: unread_def contents_def)
  with int_codec.get_all_reads [OF wf assms(1), of "[a, b]"] assms(2,3)
  have "get_all (\<lambda>A buf. deserialize_int buf) A 2 (Some ?r) = Inr ([a, b], Some (advance ?r 8))"
    by (simp add: numeral_2_eq_2 del: get_all.simps)
  with sent bs(3) show ?thesis by blast
qed

theorem rpc_datagram_decodes_witness:
  "\<exists>dg t. multiply_rpc generous \<lparr>host_found = True, socket_ok = True\<rparr> 3 5 = Inr (Some dg, None)
     \<and> length dg = 512
     \<and> get_all (\<lambda>A buf. deserialize_int buf) generous 2
         (Some \<lparr>blk = Some dg, bsize = 512, bnext = 0, ser_func = None, dser_func = None\<rparr>)
       = Inr ([3, 5], Some t)"
  using rpc_datagram_decodes [OF ample_generous, of 3 5 "\<lparr>host_found = True, socket_ok = True\<rparr>"]
  by (simp add: int_range_defs del: get_all.simps)

text \<open>
  The program has no result to print: on every environment, evaluating the call in
  \<^verbatim>\<open>main\<close> meets undefined behaviour, at the latest when the value of \<^verbatim>\<open>multiply_rpc\<close>, which
  never executes a \<^verbatim>\<open>return\<close>, is used.
\<close>

theorem rpc_main_has_no_result: "\<exists>e. rpc_main A N = Inl e"
  by (auto simp: rpc_main_def multiply_rpc_def cbind_def Let_def split: sum.splits)

end
