(* ===== verification/Logger.thy ===== *)
theory Logger
  imports C_Stdio
begin

text \<open>
  The logger of \<^verbatim>\<open>common/logger.c\<close> and \<^verbatim>\<open>common/logger.h\<close> with its two global variables, the
  streams it writes to, the message buffer of \<^verbatim>\<open>MSG_LEN\<close> characters in which a line is put
  together, and the program \<^verbatim>\<open>common/logger_test.c\<close>.
\<close>

section \<open>State\<close>

text \<open>
  A stream is named by a number; \<open>is_open\<close> and \<open>text_of\<close> are the state of the C library's
  streams. Stream 2 is \<^verbatim>\<open>stderr\<close>.
\<close>

record log_state =
  default_log_stream :: "nat option"
  default_log_level :: int
  is_open :: "nat \<Rightarrow> bool"
  text_of :: "nat \<Rightarrow> string"

definition stderr :: nat where "stderr = 2"

definition LOG_LEVEL_FATAL :: int where "LOG_LEVEL_FATAL = 0"
definition LOG_LEVEL_ERROR :: int where "LOG_LEVEL_ERROR = 1"
definition LOG_LEVEL_WARN :: int where "LOG_LEVEL_WARN = 2"
definition LOG_LEVEL_INFO :: int where "LOG_LEVEL_INFO = 3"
definition LOG_LEVEL_DEBUG :: int where "LOG_LEVEL_DEBUG = 4"

lemmas log_levels = LOG_LEVEL_FATAL_def LOG_LEVEL_ERROR_def LOG_LEVEL_WARN_def LOG_LEVEL_INFO_def
  LOG_LEVEL_DEBUG_def

definition log_level_string :: "string list" where
  "log_level_string = [''FATAL'', ''ERROR'', ''WARN'', ''INFO'', ''DEBUG'']"

definition initial_log_state :: log_state where
  "initial_log_state = \<lparr>default_log_stream = None, default_log_level = LOG_LEVEL_ERROR,
     is_open = (\<lambda>f. f = stderr), text_of = (\<lambda>f. [])\<rparr>"

definition MSG_LEN :: nat where "MSG_LEN = 8192"

section \<open>Operations\<close>

definition setup_logger :: "log_state \<Rightarrow> nat option \<Rightarrow> int \<Rightarrow> int \<times> log_state" where
  "setup_logger st fd level =
     (0, st\<lparr>default_log_stream := (case fd of None \<Rightarrow> Some stderr | Some f \<Rightarrow> Some f),
           default_log_level := level\<rparr>)"

definition fclose :: "log_state \<Rightarrow> nat \<Rightarrow> log_state cres" where
  "fclose st f =
     (if is_open st f then Inr (st\<lparr>is_open := (is_open st)(f := False)\<rparr>) else Inl UseAfterFree)"

definition close_logger :: "log_state \<Rightarrow> nat option \<Rightarrow> log_state cres" where
  "close_logger st fd = (case fd of None \<Rightarrow> Inr st | Some f \<Rightarrow> fclose st f)"

definition fprint :: "log_state \<Rightarrow> nat \<Rightarrow> string \<Rightarrow> log_state cres" where
  "fprint st f s =
     (if is_open st f then Inr (st\<lparr>text_of := (text_of st)(f := text_of st f @ s)\<rparr>)
      else Inl UseAfterFree)"

definition newline :: string where "newline = [CHR 0x0A]"

definition logging_to_file :: "log_state \<Rightarrow> nat \<Rightarrow> int \<Rightarrow> char list \<Rightarrow> log_state cres" where
  "logging_to_file st fp level msg = fprint st fp (c_string msg @ newline)"

definition logging_to_stderr :: "log_state \<Rightarrow> char list \<Rightarrow> log_state cres" where
  "logging_to_stderr st msg = fprint st stderr (c_string msg @ newline)"

definition log_tag :: "int \<Rightarrow> string cres" where
  "log_tag level =
     (if 0 \<le> level \<and> level < int (length log_level_string) then Inr (log_level_string ! nat level)
      else Inl OutOfBounds)"

text \<open>
  The format and its arguments are given by their expansion: \<open>None\<close> stands for an encoding
  error, for which \<^verbatim>\<open>vsnprintf\<close> returns a negative number. An expansion longer than
  \<^verbatim>\<open>INT_MAX\<close> is such an error too.
\<close>

definition vsnprintf_at :: "char list \<Rightarrow> int \<Rightarrow> nat \<Rightarrow> string option \<Rightarrow> (char list \<times> int) cres" where
  "vsnprintf_at arr off n fmt =
     (case fmt of None \<Rightarrow> Inr (arr, - 1)
      | Some s \<Rightarrow> if int (length s) \<le> INT_MAX then snprintf_at arr off n s else Inr (arr, - 1))"

definition location :: "string \<Rightarrow> int \<Rightarrow> string \<Rightarrow> string" where
  "location file line func = ''   ('' @ file @ '':'' @ dec_int line @ '':'' @ func @ '')''"

text \<open>\<^verbatim>\<open>end:\<close> of \<^verbatim>\<open>do_log_msg\<close>.\<close>

definition emit_line :: "log_state \<Rightarrow> nat option \<Rightarrow> int \<Rightarrow> char list \<Rightarrow> log_state cres" where
  "emit_line st zc level msg =
     (case zc of Some f \<Rightarrow> logging_to_file st f level msg | None \<Rightarrow> logging_to_stderr st msg)"

definition do_log_msg ::
  "log_state \<Rightarrow> nat option \<Rightarrow> int \<Rightarrow> string option \<Rightarrow> int \<Rightarrow> string option \<Rightarrow> string option \<Rightarrow>
   log_state cres" where
  "do_log_msg st zc level file line func fmt =
     cbind (log_tag level) (\<lambda>tag.
     cbind (snprintf_at (replicate MSG_LEN NUL) 0 MSG_LEN (''['' @ pad_right 5 tag @ '']'' @ '' ''))
       (\<lambda>(msg, written).
     if written < 0 then Inr st
     else
       cbind (vsnprintf_at msg written (to_size_t (int MSG_LEN - written)) fmt) (\<lambda>(msg, n).
       cbind (c_int (written + n)) (\<lambda>written.
       if written < 0 then Inr st
       else if written \<ge> int MSG_LEN - 1 then emit_line st zc level msg
       else
         cbind (case (file, line \<noteq> 0, func) of
             (Some fl, True, Some fn) \<Rightarrow>
               cbind (vsnprintf_at msg written (to_size_t (int MSG_LEN - written))
                        (Some (location fl line fn))) (\<lambda>(msg, n).
               cbind (c_int (written + n)) (\<lambda>written. Inr (msg, written)))
           | _ \<Rightarrow> Inr (msg, written)) (\<lambda>(msg, written).
         if written < 0 then Inr st
         else cbind (poke msg written [NUL]) (\<lambda>msg. emit_line st zc level msg))))))"

definition log_msg ::
  "log_state \<Rightarrow> nat option \<Rightarrow> int \<Rightarrow> string option \<Rightarrow> int \<Rightarrow> string option \<Rightarrow> string option \<Rightarrow>
   log_state cres" where
  "log_msg st zc level file line func fmt =
     (if level > default_log_level st then Inr st
      else do_log_msg st zc level file line func fmt)"

text \<open>
  The macros \<^verbatim>\<open>LOGGING_FATAL\<close> to \<^verbatim>\<open>LOGGING_DEBUG\<close>: a call with the default stream and the
  place of the call.
\<close>

definition LOGGING :: "int \<Rightarrow> log_state \<Rightarrow> string \<Rightarrow> int \<Rightarrow> string \<Rightarrow> string \<Rightarrow> log_state cres" where
  "LOGGING level st file line func s =
     log_msg st (default_log_stream st) level (Some file) line (Some func) (Some s)"

section \<open>The program logger_test.c\<close>

text \<open>
  \<open>opened\<close> tells whether \<^verbatim>\<open>fopen\<close> succeeds (as stream 3).
\<close>

definition logger_test_main :: "log_state \<Rightarrow> bool \<Rightarrow> log_state cres" where
  "logger_test_main st opened =
     (let fp = (if opened then Some 3 else None);
          st = (if opened then st\<lparr>is_open := (is_open st)(3 := True), text_of := (text_of st)(3 := [])\<rparr>
                else st);
          st = snd (setup_logger st fp LOG_LEVEL_DEBUG);
          at = ''logger_test.c''; m = ''main'' in
      cbind (LOGGING LOG_LEVEL_FATAL st at 9 m ''test 1 = 123 456'') (\<lambda>st.
      cbind (LOGGING LOG_LEVEL_FATAL st at 10 m ''test 2 = tttttest 555'') (\<lambda>st.
      cbind (LOGGING LOG_LEVEL_ERROR st at 11 m ''test 3 = hihi hoho'') (\<lambda>st.
      cbind (LOGGING LOG_LEVEL_WARN st at 12 m ''test 4'') (\<lambda>st.
      cbind (LOGGING LOG_LEVEL_INFO st at 13 m ''test 5'') (\<lambda>st.
      cbind (LOGGING LOG_LEVEL_DEBUG st at 14 m ''test 6'') (\<lambda>st.
      cbind (deref fp) (\<lambda>f. fclose st f))))))))"

section \<open>The line a call produces\<close>

definition log_prefix :: "int \<Rightarrow> string" where
  "log_prefix level = ''['' @ pad_right 5 (log_level_string ! nat level) @ '']'' @ '' ''"

definition known_level :: "int \<Rightarrow> bool" where
  "known_level level \<longleftrightarrow> 0 \<le> level \<and> level \<le> 4"

lemma known_level_cases:
  "known_level level \<Longrightarrow> level = 0 \<or> level = 1 \<or> level = 2 \<or> level = 3 \<or> level = 4"
  by (auto simp: known_level_def)

lemma log_tag_known: "known_level level \<Longrightarrow> log_tag level = Inr (log_level_string ! nat level)"
  by (simp add: log_tag_def known_level_def log_level_string_def)

lemma log_prefix_facts:
  assumes "known_level level"
  shows "length (log_prefix level) = 8" "no_nul (log_prefix level)"
  using known_level_cases [OF assms]
  by (auto simp: log_prefix_def log_level_string_def pad_right_def no_nul_def NUL_def eval_nat_numeral)

lemma holds_empty: "holds (replicate MSG_LEN NUL) []"
proof -
  have *: "MSG_LEN = Suc 8191" by (simp add: MSG_LEN_def)
  have "replicate MSG_LEN NUL = NUL # replicate 8191 NUL" unfolding * by (rule replicate_Suc)
  then show ?thesis by (simp add: holds_def no_nul_def)
qed

definition target :: "nat option \<Rightarrow> nat" where
  "target zc = (case zc of None \<Rightarrow> stderr | Some f \<Rightarrow> f)"

lemma emit_line_holds: "holds msg t \<Longrightarrow> emit_line st zc level msg = fprint st (target zc) (t @ newline)"
  by (cases zc)
    (simp_all add: emit_line_def logging_to_file_def logging_to_stderr_def target_def holds_c_string)

text \<open>\<^verbatim>\<open>snprintf\<close> into what is left of a full-size message buffer that starts with \<open>t\<close>.\<close>

lemma vsnprintf_rest:
  assumes "starts msg t" and "length msg = MSG_LEN" and "no_nul m" and "int (length m) \<le> INT_MAX"
  shows "\<exists>msg'. vsnprintf_at msg (int (length t)) (to_size_t (int MSG_LEN - int (length t))) (Some m)
             = Inr (msg', int (length m))
           \<and> holds msg' (t @ take (8191 - length t) m) \<and> length msg' = MSG_LEN"
proof -
  have "length t < MSG_LEN" using starts_length [OF assms(1)] assms(2) by simp
  then have "to_size_t (int MSG_LEN - int (length t)) = length msg - length t"
    using to_size_t_nat [of "MSG_LEN - length t"] assms(2) by (simp add: MSG_LEN_def of_nat_diff)
  moreover have "length msg - length t - 1 = 8191 - length t" using assms(2) by (simp add: MSG_LEN_def)
  ultimately show ?thesis
    using snprintf_at_holds [OF assms(1,3)] assms(2,4) by (simp add: vsnprintf_at_def)
qed

lemma log_prefix_printed:
  assumes "known_level level"
  shows "\<exists>msg. snprintf_at (replicate MSG_LEN NUL) 0 MSG_LEN
             (''['' @ pad_right 5 (log_level_string ! nat level) @ '']'' @ '' '') = Inr (msg, 8)
           \<and> holds msg (log_prefix level) \<and> length msg = MSG_LEN"
proof -
  note p = log_prefix_facts [OF assms]
  have "take (MSG_LEN - 1) (log_prefix level) = log_prefix level" using p(1) by (simp add: MSG_LEN_def)
  with snprintf_at_holds [OF holds_starts_all [OF holds_empty] p(2)] p(1) show ?thesis
    by (simp add: log_prefix_def)
qed

text \<open>
  The text in front of the location. When \<^verbatim>\<open>vsnprintf\<close> fails, its result \<open>-1\<close> is added all the same, so that
  the last character of the tag is lost. The length of the text as an \<^verbatim>\<open>int\<close> may overflow.
\<close>

definition message_ok :: "string option \<Rightarrow> bool" where
  "message_ok fmt \<longleftrightarrow> (case fmt of None \<Rightarrow> False | Some m \<Rightarrow> int (length m) \<le> INT_MAX)"

definition log_text :: "int \<Rightarrow> string option \<Rightarrow> string" where
  "log_text level fmt = (if message_ok fmt then log_prefix level @ the fmt else take 7 (log_prefix level))"

definition log_place :: "string option \<Rightarrow> int \<Rightarrow> string option \<Rightarrow> string" where
  "log_place file line func = (case (file, line \<noteq> 0, func) of (Some fl, True, Some fn) \<Rightarrow> location fl line fn | _ \<Rightarrow> [])"

text \<open>The part of \<^verbatim>\<open>do_log_msg\<close> before the location is appended.\<close>

lemma message_printed:
  assumes "known_level level" and "\<forall>m. fmt = Some m \<longrightarrow> no_nul m"
  shows "\<exists>msg1 msg2 n. snprintf_at (replicate MSG_LEN NUL) 0 MSG_LEN
             (''['' @ pad_right 5 (log_level_string ! nat level) @ '']'' @ '' '') = Inr (msg1, 8)
           \<and> vsnprintf_at msg1 8 (to_size_t (int MSG_LEN - 8)) fmt = Inr (msg2, n)
           \<and> 8 + n = int (length (log_text level fmt)) \<and> length msg2 = MSG_LEN
           \<and> (if 8191 \<le> length (log_text level fmt) then holds msg2 (take 8191 (log_text level fmt))
              else starts msg2 (log_text level fmt))"
proof -
  note p = log_prefix_facts [OF assms(1)]
  from log_prefix_printed [OF assms(1)] obtain msg1 where m1:
    "snprintf_at (replicate MSG_LEN NUL) 0 MSG_LEN
       (''['' @ pad_right 5 (log_level_string ! nat level) @ '']'' @ '' '') = Inr (msg1, 8)"
    "holds msg1 (log_prefix level)" "length msg1 = MSG_LEN" by blast
  show ?thesis
  proof (cases "message_ok fmt")
    case True
    then obtain m where m: "fmt = Some m" "int (length m) \<le> INT_MAX" by (auto simp: message_ok_def split: option.splits)
    from vsnprintf_rest [OF holds_starts_all [OF m1(2)] m1(3) _ m(2)] assms(2) m(1) p(1) obtain msg2 where m2:
      "vsnprintf_at msg1 8 (to_size_t (int MSG_LEN - 8)) (Some m) = Inr (msg2, int (length m))"
      "holds msg2 (log_prefix level @ take 8183 m)" "length msg2 = MSG_LEN" by auto
    have t: "log_text level fmt = log_prefix level @ m" using True m(1) by (simp add: log_text_def)
    have "holds msg2 (take 8191 (log_text level fmt))" using m2(2) p(1) by (simp add: t)
    moreover from this have "starts msg2 (log_text level fmt)" if "length (log_text level fmt) < 8191"
      using holds_starts_all that by fastforce
    ultimately show ?thesis using m1(1) m2 m(1) t p(1) by auto
  next
    case False
    then have "vsnprintf_at msg1 8 (to_size_t (int MSG_LEN - 8)) fmt = Inr (msg1, - 1)"
      by (auto simp: message_ok_def vsnprintf_at_def split: option.splits)
    moreover have "log_text level fmt = take 7 (log_prefix level)" using False by (simp add: log_text_def)
    ultimately show ?thesis using m1 p(1) holds_starts [OF m1(2), of 7] by auto
  qed
qed

text \<open>Appending the location, and the final terminator.\<close>

lemma place_printed:
  assumes "starts msg t" and "length msg = MSG_LEN" and "length t < 8191" and "no_nul (log_place file line func)"
    and "length (log_place file line func) < 1073741824"
  shows "\<exists>msg'. (case (file, line \<noteq> 0, func) of
             (Some fl, True, Some fn) \<Rightarrow>
               cbind (vsnprintf_at msg (int (length t)) (to_size_t (int MSG_LEN - int (length t)))
                        (Some (location fl line fn))) (\<lambda>(msg, n).
               cbind (c_int (int (length t) + n)) (\<lambda>written. Inr (msg, written)))
           | _ \<Rightarrow> Inr (msg, int (length t))) = Inr (msg', int (length (t @ log_place file line func)))
         \<and> length msg' = MSG_LEN
         \<and> (length (t @ log_place file line func) < 8192 \<longrightarrow> starts msg' (t @ log_place file line func))"
proof (cases "file \<noteq> None \<and> line \<noteq> 0 \<and> func \<noteq> None")
  case True
  then obtain fl fn where f: "file = Some fl" "func = Some fn" "line \<noteq> 0" by auto
  have l: "log_place file line func = location fl line fn" using f by (simp add: log_place_def)
  have "int (length (location fl line fn)) \<le> INT_MAX" using assms(5) l by (simp add: INT_MAX_def)
  from vsnprintf_rest [OF assms(1,2) _ this] assms(4) l obtain msg' where m:
    "vsnprintf_at msg (int (length t)) (to_size_t (int MSG_LEN - int (length t))) (Some (location fl line fn))
       = Inr (msg', int (length (location fl line fn)))"
    "holds msg' (t @ take (8191 - length t) (location fl line fn))" "length msg' = MSG_LEN" by auto
  have "in_int (int (length t) + int (length (location fl line fn)))"
    using assms(3,5) l by (simp add: int_range_defs)
  with m f l show ?thesis by (auto dest: holds_starts_all)
next
  case False
  then have "log_place file line func = []" by (auto simp: log_place_def split: option.splits bool.splits)
  with False assms(1,2) show ?thesis by (cases "file"; cases func; cases "line = 0") auto
qed

lemma do_log_msg_result:
  assumes "known_level level" and "\<forall>m. fmt = Some m \<longrightarrow> no_nul m" and "no_nul (log_place file line func)"
    and "length (log_place file line func) < 1073741824"
  shows "do_log_msg st zc level file line func fmt =
    (let text = log_text level fmt; place = log_place file line func in
     if int (length text) > INT_MAX then Inl SignedOverflow
     else if 8191 \<le> length text then fprint st (target zc) (take 8191 text @ newline)
     else if length (text @ place) < 8192 then fprint st (target zc) (text @ place @ newline)
     else Inl OutOfBounds)"
proof -
  let ?t = "log_text level fmt" and ?l = "log_place file line func"
  from message_printed [OF assms(1,2)] obtain msg1 msg2 n where *:
    "snprintf_at (replicate MSG_LEN NUL) 0 MSG_LEN
       (''['' @ pad_right 5 (log_level_string ! nat level) @ '']'' @ '' '') = Inr (msg1, 8)"
    "vsnprintf_at msg1 8 (to_size_t (int MSG_LEN - 8)) fmt = Inr (msg2, n)"
    "8 + n = int (length ?t)" "length msg2 = MSG_LEN"
    "if 8191 \<le> length ?t then holds msg2 (take 8191 ?t) else starts msg2 ?t" by blast
  note first = do_log_msg_def log_tag_known [OF assms(1)]
  show ?thesis
  proof (cases "int (length ?t) > INT_MAX")
    case True
    then have "\<not> in_int (int (length ?t))" by (simp add: int_range_defs)
    with True *(1-3) show ?thesis by (simp add: first)
  next
    case False
    then have i: "in_int (int (length ?t))" by (simp add: int_range_defs)
    show ?thesis
    proof (cases "8191 \<le> length ?t")
      case True
      with *(1-3,5) i False emit_line_holds [of msg2 "take 8191 ?t"] show ?thesis by (simp add: first MSG_LEN_def)
    next
      case short: False
      from place_printed [of msg2 ?t "file" line func] *(4,5) short assms(3,4) obtain msg3 where
        m3: "(case (file, line \<noteq> 0, func) of
             (Some fl, True, Some fn) \<Rightarrow>
               cbind (vsnprintf_at msg2 (int (length ?t)) (to_size_t (int MSG_LEN - int (length ?t)))
                        (Some (location fl line fn))) (\<lambda>(msg, n).
               cbind (c_int (int (length ?t) + n)) (\<lambda>written. Inr (msg, written)))
           | _ \<Rightarrow> Inr (msg2, int (length ?t))) = Inr (msg3, int (length (?t @ ?l)))"
          "length msg3 = MSG_LEN" "length (?t @ ?l) < 8192 \<longrightarrow> starts msg3 (?t @ ?l)" by auto
      have step: "do_log_msg st zc level file line func fmt =
          cbind (poke msg3 (int (length (?t @ ?l))) [NUL]) (\<lambda>msg. emit_line st zc level msg)"
        using *(1-3) i short m3(1) by (simp add: first MSG_LEN_def)
      show ?thesis
      proof (cases "length (?t @ ?l) < 8192")
        case True
        with m3(3) poke_terminates obtain msg4 where
          "poke msg3 (int (length (?t @ ?l))) [NUL] = Inr msg4" "holds msg4 (?t @ ?l)" by blast
        with step emit_line_holds [of msg4 "?t @ ?l"] True short False show ?thesis by simp
      next
        case False
        then have "poke msg3 (int (length (?t @ ?l))) [NUL] = Inl OutOfBounds"
          using m3(2) by (simp add: poke_def MSG_LEN_def nat_add_distrib)
        with step short False \<open>\<not> int (length ?t) > INT_MAX\<close> show ?thesis by simp
      qed
    qed
  qed
qed

lemma no_nul_location: "no_nul (location fl line fn) \<longleftrightarrow> no_nul fl \<and> no_nul fn"
  using no_nul_dec_int [of line] by (simp add: location_def no_nul_def NUL_def)

text \<open>The common case: a known level, and a location.\<close>

lemma log_msg_result:
  assumes "known_level level" and "no_nul m" and "no_nul file" and "no_nul func" and "line \<noteq> 0"
    and "length m < 1073741824" and "length (location file line func) < 1073741824"
  shows "log_msg st zc level (Some file) line (Some func) (Some m) =
    (if level > default_log_level st then Inr st
     else if 8191 \<le> length (log_prefix level @ m)
     then fprint st (target zc) (take 8191 (log_prefix level @ m) @ newline)
     else if length (log_prefix level @ m @ location file line func) < 8192
     then fprint st (target zc) (log_prefix level @ m @ location file line func @ newline)
     else Inl OutOfBounds)"
proof -
  have t: "log_text level (Some m) = log_prefix level @ m" "log_place (Some file) line (Some func) = location file line func"
    using assms(5,6) by (simp_all add: log_text_def message_ok_def INT_MAX_def log_place_def)
  have "\<not> INT_MAX < int (length (log_prefix level @ m))"
    using assms(6) log_prefix_facts(1) [OF assms(1)] by (simp add: INT_MAX_def)
  with do_log_msg_result [OF assms(1), of "Some m" "Some file" line "Some func" st zc] assms t show ?thesis
    by (simp add: log_msg_def no_nul_location Let_def)
qed

section \<open>Properties\<close>

text \<open>
  C21: what one call of \<^verbatim>\<open>log_msg\<close> does, on every branch. A level above the threshold is dropped; of the others one outside
  the table of tags reads outside the table. Then the text is the tag and the message (the length of the two as an
  \<^verbatim>\<open>int\<close> overflows for messages of nearly \<^verbatim>\<open>INT_MAX\<close> characters). When the message cannot be formatted, the text is the tag
  without its last character, because the result \<open>-1\<close> is added to the length. A text that fills the buffer is
  printed cut at 8191 characters, without the location; a text that fits together with the location (which is empty
  if the file or the function is null or the line 0) is printed with it; in the remaining case the
  final \<^verbatim>\<open>msg[written] = 0\<close> is a write outside the buffer, because \<^verbatim>\<open>snprintf\<close> returned the length it would have needed.
  Strings of C contain no null character; the names of files and functions are shorter than \<open>2 ^ 30\<close>.
\<close>

theorem log_msg_spec:
  assumes "\<forall>s \<in> {fmt, file, func}. s \<noteq> None \<longrightarrow> no_nul (the s)"
    and "length (log_place file line func) < 1073741824"
  shows "log_msg st zc level file line func fmt =
    (let tag = ''['' @ pad_right 5 (log_level_string ! nat level) @ ''] '';
         place = (if file \<noteq> None \<and> line \<noteq> 0 \<and> func \<noteq> None
                  then ''   ('' @ the file @ '':'' @ dec_int line @ '':'' @ the func @ '')'' else []);
         text = (if fmt \<noteq> None \<and> int (length (the fmt)) \<le> INT_MAX then tag @ the fmt else butlast tag) in
     if level > default_log_level st then Inr st
     else if level < 0 \<or> 4 < level then Inl OutOfBounds
     else if int (length text) > INT_MAX then Inl SignedOverflow
     else if 8191 \<le> length text then fprint st (target zc) (take 8191 text @ newline)
     else if length (text @ place) < 8192 then fprint st (target zc) (text @ place @ newline)
     else Inl OutOfBounds)"
proof (cases "level < 0 \<or> 4 < level")
  case True
  then show ?thesis by (auto simp: log_msg_def do_log_msg_def log_tag_def log_level_string_def)
next
  case False
  then have k: "known_level level" by (simp add: known_level_def)
  have tag: "''['' @ pad_right 5 (log_level_string ! nat level) @ ''] '' = log_prefix level" by (simp add: log_prefix_def)
  have "butlast (log_prefix level) = take 7 (log_prefix level)"
    using log_prefix_facts(1) [OF k] by (simp add: butlast_conv_take)
  then have tx: "log_text level fmt = (if fmt \<noteq> None \<and> int (length (the fmt)) \<le> INT_MAX
      then log_prefix level @ the fmt else butlast (log_prefix level))"
    by (auto simp: log_text_def message_ok_def split: option.splits)
  have pl: "log_place file line func = (if file \<noteq> None \<and> line \<noteq> 0 \<and> func \<noteq> None
      then ''   ('' @ the file @ '':'' @ dec_int line @ '':'' @ the func @ '')'' else [])"
    by (auto simp: log_place_def location_def split: option.splits bool.splits)
  have "no_nul (log_place file line func)"
    using assms(1) by (auto simp: log_place_def no_nul_location split: option.splits bool.splits)
      (simp_all add: no_nul_def)
  moreover have "\<forall>m. fmt = Some m \<longrightarrow> no_nul m" using assms(1) by auto
  ultimately have "do_log_msg st zc level file line func fmt =
    (let text = log_text level fmt; place = log_place file line func in
     if int (length text) > INT_MAX then Inl SignedOverflow
     else if 8191 \<le> length text then fprint st (target zc) (take 8191 text @ newline)
     else if length (text @ place) < 8192 then fprint st (target zc) (text @ place @ newline)
     else Inl OutOfBounds)" by (intro do_log_msg_result [OF k _ _ assms(2)])
  then show ?thesis
    unfolding tag Let_def tx [symmetric] pl [symmetric] log_msg_def by (simp only: False if_False)
qed

theorem log_msg_spec_witness:
  "log_msg initial_log_state None 1 (Some ''f.c'') 7 (Some ''main'') (Some (replicate 8170 CHR ''x'')) = Inl OutOfBounds
   \<and> log_msg initial_log_state None 1 None 7 (Some ''main'') (Some ''m'')
       = fprint initial_log_state stderr (''[ERROR] m'' @ newline)
   \<and> log_msg initial_log_state None 1 None 7 (Some ''main'') None
       = fprint initial_log_state stderr (''[ERROR]'' @ newline)
   \<and> log_msg initial_log_state None (- 1) None 7 None (Some ''m'') = Inl OutOfBounds"
proof -
  have d: "dec_int 7 = ''7''" by (simp add: dec_int_def dec_nat.simps [of 7] digit_chars)
  have n: "no_nul ''f.c''" "no_nul ''main''" "no_nul (replicate 8170 CHR ''x'')" "no_nul ''m''"
    by (simp_all add: no_nul_def NUL_def)
  have t: "log_level_string ! Suc 0 = ''ERROR''" by (simp add: log_level_string_def)
  have l: "log_place (Some ''f.c'') 7 (Some ''main'') = ''   (f.c:7:main)''" "log_place None l f = []" for l f
    by (simp_all add: log_place_def location_def d)
  show ?thesis
    using log_msg_spec [of "Some (replicate 8170 CHR ''x'')" "Some ''f.c''" "Some ''main''" 7 initial_log_state None 1]
      log_msg_spec [of "Some ''m''" None "Some ''main''" 7 initial_log_state None 1]
      log_msg_spec [of None None "Some ''main''" 7 initial_log_state None 1]
      log_msg_spec [of "Some ''m''" None None 7 initial_log_state None "- 1"]
    by (simp add: n l d t initial_log_state_def log_levels INT_MAX_def pad_right_def target_def)
qed

text \<open>A sequence of logging calls, each with its level, place and message.\<close>

type_synonym log_call = "int \<times> string \<times> int \<times> string \<times> string"

fun log_all :: "log_state \<Rightarrow> log_call list \<Rightarrow> log_state cres" where
  "log_all st [] = Inr st"
| "log_all st ((level, file, line, func, m) # cs) =
     cbind (LOGGING level st file line func m) (\<lambda>st'. log_all st' cs)"

fun log_line :: "log_call \<Rightarrow> string" where
  "log_line (level, file, line, func, m) = log_prefix level @ m @ location file line func @ newline"

fun short_call :: "log_call \<Rightarrow> bool" where
  "short_call (level, file, line, func, m) \<longleftrightarrow>
     known_level level \<and> no_nul m \<and> no_nul file \<and> no_nul func \<and> line \<noteq> 0
     \<and> length (log_prefix level @ m @ location file line func) < 8192"

lemma LOGGING_short:
  assumes "short_call (level, file, line, func, m)" and "is_open st (target (default_log_stream st))"
  shows "LOGGING level st file line func m =
    (if level > default_log_level st then Inr st
     else Inr (st\<lparr>text_of := (text_of st)(target (default_log_stream st) :=
            text_of st (target (default_log_stream st)) @ log_line (level, file, line, func, m))\<rparr>))"
proof -
  have "0 < length (location file line func)" by (simp add: location_def)
  with assms have "length (log_prefix level @ m) < 8191" "length m < 1073741824"
    "length (location file line func) < 1073741824"
    by (simp_all del: length_greater_0_conv)
  with assms log_msg_result [of level m "file" func line st "default_log_stream st"] show ?thesis
    by (simp add: LOGGING_def fprint_def)
qed

lemma log_all_result:
  assumes "\<forall>c \<in> set cs. short_call c" and "is_open st f" and "target (default_log_stream st) = f"
  shows "log_all st cs =
    Inr (st\<lparr>text_of := (text_of st)(f := text_of st f @
           concat (map log_line (filter (\<lambda>c. fst c \<le> default_log_level st) cs)))\<rparr>)"
  using assms
proof (induction cs arbitrary: st)
  case Nil
  then show ?case by simp
next
  case (Cons c cs)
  obtain level fl line func m where c: "c = (level, fl, line, func, m)" by (cases c)
  have call: "LOGGING level st fl line func m =
    (if level > default_log_level st then Inr st
     else Inr (st\<lparr>text_of := (text_of st)(f := text_of st f @ log_line c)\<rparr>))"
    using Cons.prems c LOGGING_short [of level fl line func m st] by simp
  show ?case
  proof (cases "level > default_log_level st")
    case True
    with Cons c call show ?thesis by simp
  next
    case False
    let ?st = "st\<lparr>text_of := (text_of st)(f := text_of st f @ log_line c)\<rparr>"
    have "log_all ?st cs = Inr (?st\<lparr>text_of := (text_of ?st)(f := text_of ?st f @
        concat (map log_line (filter (\<lambda>c. fst c \<le> default_log_level ?st) cs)))\<rparr>)"
      using Cons.prems by (intro Cons.IH) simp_all
    with False call c show ?thesis by (simp add: fun_upd_def cong: if_cong del: log_line.simps)
  qed
qed

text \<open>
  C22: logging is a filter followed by an append. A sequence of calls with short messages
  leaves on the default stream, after what was there, exactly the lines of those calls whose
  level does not exceed the threshold, in the order of the calls; nothing else changes.
\<close>

theorem log_all_appends:
  assumes "\<forall>c \<in> set cs. short_call c" and "is_open st f" and "target (default_log_stream st) = f"
  shows "log_all st cs =
    Inr (st\<lparr>text_of := (text_of st)(f := text_of st f @
           concat (map log_line (filter (\<lambda>c. fst c \<le> default_log_level st) cs)))\<rparr>)"
  using assms by (rule log_all_result)

theorem log_all_appends_witness:
  "\<exists>st'. log_all initial_log_state
       [(1, ''a.c'', 3, ''f'', ''one''), (3, ''a.c'', 4, ''f'', ''two''), (0, ''a.c'', 5, ''g'', ''three'')]
     = Inr st'
     \<and> text_of st' stderr = log_line (1, ''a.c'', 3, ''f'', ''one'') @ log_line (0, ''a.c'', 5, ''g'', ''three'')"
proof -
  have "\<forall>c \<in> set [(1, ''a.c'', 3, ''f'', ''one''), (3, ''a.c'', 4, ''f'', ''two''),
                    (0, ''a.c'', 5, ''g'', ''three'')]. short_call c"
    by (simp add: known_level_def no_nul_def NUL_def location_def dec_int_def dec_nat.simps
        log_prefix_facts(1))
  from log_all_appends [OF this, of initial_log_state stderr] show ?thesis
    by (simp add: initial_log_state_def target_def log_levels del: log_all.simps log_line.simps)
qed

text \<open>The calls of \<^verbatim>\<open>logger_test.c\<close>.\<close>

definition logger_test_calls :: "log_call list" where
  "logger_test_calls =
     [(0, ''logger_test.c'', 9, ''main'', ''test 1 = 123 456''),
      (0, ''logger_test.c'', 10, ''main'', ''test 2 = tttttest 555''),
      (1, ''logger_test.c'', 11, ''main'', ''test 3 = hihi hoho''),
      (2, ''logger_test.c'', 12, ''main'', ''test 4''),
      (3, ''logger_test.c'', 13, ''main'', ''test 5''),
      (4, ''logger_test.c'', 14, ''main'', ''test 6'')]"

lemma logger_test_calls_short: "\<forall>c \<in> set logger_test_calls. short_call c"
  by (simp add: logger_test_calls_def known_level_def no_nul_def NUL_def location_def dec_int_def
      dec_nat.simps digit_char_def log_prefix_facts(1))

lemma logger_test_main_log_all:
  "logger_test_main st opened =
     (let fp = (if opened then Some 3 else None);
          st = (if opened then st\<lparr>is_open := (is_open st)(3 := True), text_of := (text_of st)(3 := [])\<rparr>
                else st);
          st = snd (setup_logger st fp LOG_LEVEL_DEBUG) in
      cbind (log_all st logger_test_calls) (\<lambda>st. cbind (deref fp) (\<lambda>f. fclose st f)))"
  by (simp add: logger_test_main_def logger_test_calls_def cbind_assoc log_levels Let_def)

text \<open>
  The program \<^verbatim>\<open>logger_test.c\<close>. When the log file can be opened, it ends normally with
  the file closed and exactly its six lines in it. When it cannot, the messages go to
  \<^verbatim>\<open>stderr\<close> and the program then passes a null pointer to \<^verbatim>\<open>fclose\<close>.
\<close>

theorem logger_test_main_result:
  "(\<exists>st. logger_test_main initial_log_state True = Inr st \<and> \<not> is_open st 3
      \<and> text_of st 3 = concat (map log_line logger_test_calls) \<and> text_of st stderr = [])
   \<and> logger_test_main initial_log_state False = Inl NullDeref"
proof
  have all: "filter (\<lambda>c. fst c \<le> 4) logger_test_calls = logger_test_calls"
    by (simp add: logger_test_calls_def)
  let ?opened = "snd (setup_logger (initial_log_state\<lparr>is_open := (is_open initial_log_state)(3 := True),
      text_of := (text_of initial_log_state)(3 := [])\<rparr>) (Some 3) LOG_LEVEL_DEBUG)"
  have "is_open ?opened 3" "target (default_log_stream ?opened) = 3" "default_log_level ?opened = 4"
    by (simp_all add: setup_logger_def target_def log_levels)
  with log_all_result [OF logger_test_calls_short, of ?opened 3] all
  show "\<exists>st. logger_test_main initial_log_state True = Inr st \<and> \<not> is_open st 3
     \<and> text_of st 3 = concat (map log_line logger_test_calls) \<and> text_of st stderr = []"
    by (simp add: logger_test_main_log_all fclose_def setup_logger_def initial_log_state_def stderr_def)
  let ?failed = "snd (setup_logger initial_log_state None LOG_LEVEL_DEBUG)"
  have "is_open ?failed stderr" "target (default_log_stream ?failed) = stderr"
    by (simp_all add: setup_logger_def target_def initial_log_state_def)
  with log_all_result [OF logger_test_calls_short, of ?failed stderr]
  show "logger_test_main initial_log_state False = Inl NullDeref"
    by (simp add: logger_test_main_log_all)
qed

text \<open>
  Closing the stream does not detach the logger from it: a call that passes the level
  filter after \<^verbatim>\<open>setup_logger(fp, level)\<close> and \<^verbatim>\<open>close_logger(fp)\<close> writes to a closed stream.
\<close>

theorem logging_after_close:
  assumes "setup_logger st (Some f) lim = (r, st1)" and "close_logger st1 (Some f) = Inr st2"
    and "short_call (level, file, line, func, m)" and "level \<le> lim"
  shows "LOGGING level st2 file line func m = Inl UseAfterFree"
proof -
  have st2: "default_log_stream st2 = Some f" "default_log_level st2 = lim" "\<not> is_open st2 f"
    using assms(1,2) by (auto simp: setup_logger_def close_logger_def fclose_def split: if_splits)
  have "0 < length (location file line func)" by (simp add: location_def)
  with assms(3) have "length (log_prefix level @ m) < 8191" "length m < 1073741824"
    "length (location file line func) < 1073741824"
    by (simp_all del: length_greater_0_conv)
  with assms(3,4) st2 log_msg_result [of level m "file" func line st2 "Some f"] show ?thesis
    by (simp add: LOGGING_def fprint_def target_def)
qed

theorem logging_after_close_witness:
  "\<exists>st1 st2. setup_logger initial_log_state (Some stderr) 4 = (0, st1)
     \<and> close_logger st1 (Some stderr) = Inr st2
     \<and> LOGGING 3 st2 ''a.c'' 5 ''main'' ''bye'' = Inl UseAfterFree"
proof -
  let ?st1 = "snd (setup_logger initial_log_state (Some stderr) 4)"
  let ?st2 = "?st1\<lparr>is_open := (is_open ?st1)(stderr := False)\<rparr>"
  have 1: "setup_logger initial_log_state (Some stderr) 4 = (0, ?st1)" by (simp add: setup_logger_def)
  have 2: "close_logger ?st1 (Some stderr) = Inr ?st2"
    by (simp add: close_logger_def fclose_def setup_logger_def initial_log_state_def)
  have 3: "short_call (3, ''a.c'', 5, ''main'', ''bye'')"
    by (simp add: known_level_def no_nul_def NUL_def location_def dec_int_def dec_nat.simps
        log_prefix_facts(1))
  from logging_after_close [OF 1 2 3] 1 2 show ?thesis by auto
qed

end
