(* ===== verification/Job_Queue.thy ===== *)
theory Job_Queue
  imports C_Prelude
begin

text \<open>
  The binary semaphore and the job queue of \<^verbatim>\<open>common/thpool.c\<close>: a singly linked list of
  heap-allocated jobs, linked through \<^verbatim>\<open>prev\<close> from the front to the rear. Every operation of
  the queue runs with \<^verbatim>\<open>rw_mutex\<close> held from its first to its last access and is therefore
  one function here. The lemmas show that the linked list implements a first-in first-out
  queue (the contract \<open>fifo_queue\<close>), without a null dereference, a use after free or a
  wrong \<^verbatim>\<open>free\<close>.
\<close>

section \<open>Binary semaphore\<close>

text \<open>
  The value of the semaphore. Its mutex and its condition variable concern the threads that
  wait, which are part of the state of theory \<open>Thread_Pool\<close>.
\<close>

type_synonym bsem = int

definition bsem_init :: "int \<Rightarrow> bsem cres" where
  "bsem_init value = (if value < 0 \<or> value > 1 then Inl (ExitProcess 1) else Inr value)"

definition bsem_reset :: "bsem cres" where
  "bsem_reset = bsem_init 0"

definition bsem_post :: "bsem \<Rightarrow> bsem" where
  "bsem_post v = 1"

definition bsem_post_all :: "bsem \<Rightarrow> bsem" where
  "bsem_post_all v = 1"

text \<open>One round of \<^verbatim>\<open>bsem_wait\<close>: \<open>None\<close> when the caller has to sleep on the condition variable.\<close>

definition bsem_wait :: "bsem \<Rightarrow> bsem option" where
  "bsem_wait v = (if v \<noteq> 1 then None else Some 0)"

section \<open>Jobs and the queue\<close>

record thpool_job =
  prev :: "nat option"
  func :: string
  args :: nat

type_synonym job_heap = "nat \<rightharpoonup> thpool_job"

text \<open>\<open>bsem_has_job\<close> is a pointer: \<open>None\<close> once the semaphore has been freed.\<close>

record job_queue =
  front :: "nat option"
  rear :: "nat option"
  len :: int
  bsem_has_job :: "bsem option"

type_synonym jq = "job_heap \<times> job_queue"

definition load_job :: "job_heap \<Rightarrow> nat option \<Rightarrow> (nat \<times> thpool_job) cres" where
  "load_job h p =
     (case p of None \<Rightarrow> Inl NullDeref
      | Some a \<Rightarrow> (case h a of None \<Rightarrow> Inl UseAfterFree | Some j \<Rightarrow> Inr (a, j)))"

definition free_job :: "job_heap \<Rightarrow> nat option \<Rightarrow> job_heap cres" where
  "free_job h p =
     (case p of None \<Rightarrow> Inr h
      | Some a \<Rightarrow> (case h a of None \<Rightarrow> Inl InvalidFree | Some j \<Rightarrow> Inr (h(a := None))))"

definition post_queue :: "job_queue \<Rightarrow> job_queue cres" where
  "post_queue q =
     (case bsem_has_job q of None \<Rightarrow> Inl UseAfterFree
      | Some v \<Rightarrow> Inr (q\<lparr>bsem_has_job := Some (bsem_post v)\<rparr>))"

text \<open>\<open>granted\<close>: the allocation of the semaphore succeeds.\<close>

definition jobqueue_init :: "bool \<Rightarrow> (int \<times> job_queue) cres" where
  "jobqueue_init granted =
     (let q = \<lparr>front = None, rear = None, len = 0, bsem_has_job = None\<rparr> in
      if \<not> granted then Inr (- 1, q)
      else cbind (bsem_init 0) (\<lambda>v. Inr (0, q\<lparr>bsem_has_job := Some v\<rparr>)))"

definition jobqueue_push :: "jq \<Rightarrow> nat \<Rightarrow> jq cres" where
  "jobqueue_push hq job =
     (let (h, q) = hq in
      cbind (load_job h (Some job)) (\<lambda>(_, j).
      let h = h(job \<mapsto> j\<lparr>prev := None\<rparr>) in
      cbind (if len q = 0 then Inr (h, q\<lparr>front := Some job, rear := Some job\<rparr>)
             else cbind (load_job h (rear q)) (\<lambda>(r, jr).
                  Inr (h(r \<mapsto> jr\<lparr>prev := Some job\<rparr>), q\<lparr>rear := Some job\<rparr>))) (\<lambda>(h, q).
      cbind (c_int (len q + 1)) (\<lambda>n.
      cbind (post_queue (q\<lparr>len := n\<rparr>)) (\<lambda>q. Inr (h, q))))))"

definition jobqueue_pull :: "jq \<Rightarrow> (nat option \<times> jq) cres" where
  "jobqueue_pull hq =
     (let (h, q) = hq; job = front q in
      if len q = 0 then Inr (job, (h, q))
      else if len q = 1 then Inr (job, (h, q\<lparr>front := None, rear := None, len := 0\<rparr>))
      else cbind (load_job h job) (\<lambda>(_, j).
           cbind (c_int (len q - 1)) (\<lambda>n.
           cbind (post_queue (q\<lparr>front := prev j, len := n\<rparr>)) (\<lambda>q. Inr (job, (h, q))))))"

partial_function (option) clear_loop :: "jq \<Rightarrow> jq cres option" where
  "clear_loop hq =
     (if len (snd hq) = 0 then Some (Inr hq)
      else case cbind (jobqueue_pull hq) (\<lambda>(job, (h, q)). cbind (free_job h job) (\<lambda>h. Inr (h, q))) of
             Inl e \<Rightarrow> Some (Inl e)
           | Inr hq' \<Rightarrow> clear_loop hq')"

definition jobqueue_clear :: "jq \<Rightarrow> jq cres" where
  "jobqueue_clear hq =
     cbind (run_loop (clear_loop hq)) (\<lambda>(h, q).
       case bsem_has_job q of None \<Rightarrow> Inl UseAfterFree
       | Some _ \<Rightarrow> cbind bsem_reset (\<lambda>v.
           Inr (h, q\<lparr>front := None, rear := None, bsem_has_job := Some v, len := 0\<rparr>)))"

definition jobqueue_destroy :: "jq \<Rightarrow> jq cres" where
  "jobqueue_destroy hq =
     cbind (jobqueue_clear hq) (\<lambda>(h, q).
       case bsem_has_job q of None \<Rightarrow> Inl InvalidFree
       | Some _ \<Rightarrow> Inr (h, q\<lparr>bsem_has_job := None\<rparr>))"

section \<open>Lists of jobs on the heap\<close>

text \<open>\<open>chain h p xs\<close>: following \<open>prev\<close> from \<open>p\<close> visits exactly the jobs \<open>xs\<close>.\<close>

fun chain :: "job_heap \<Rightarrow> nat option \<Rightarrow> nat list \<Rightarrow> bool" where
  "chain h p [] \<longleftrightarrow> p = None"
| "chain h p (x # xs) \<longleftrightarrow> p = Some x \<and> (\<exists>j. h x = Some j \<and> chain h (prev j) xs)"

lemma chain_allocated: "chain h p xs \<Longrightarrow> x \<in> set xs \<Longrightarrow> h x \<noteq> None"
  by (induction xs arbitrary: p) auto

lemma chain_frame: "chain h p xs \<Longrightarrow> a \<notin> set xs \<Longrightarrow> chain (h(a := v)) p xs"
  by (induction xs arbitrary: p) auto

lemma chain_upd_other:
  "chain h p xs \<Longrightarrow> (\<And>x. x \<in> set xs \<Longrightarrow> h' x = h x) \<Longrightarrow> chain h' p xs"
  by (induction xs arbitrary: p) auto

text \<open>Linking a fresh job behind the last one.\<close>

lemma chain_snoc:
  assumes "chain h p (xs @ [l])" and "distinct (xs @ [l])" and "a \<notin> set (xs @ [l])"
    and "h l = Some jl" and "h a = Some ja" and "prev ja = None"
  shows "chain (h(l \<mapsto> jl\<lparr>prev := Some a\<rparr>)) p (xs @ [l, a])"
  using assms by (induction xs arbitrary: p) auto

lemma chain_last_prev: "chain h p (xs @ [l]) \<Longrightarrow> \<exists>jl. h l = Some jl \<and> prev jl = None"
  by (induction xs arbitrary: p) auto

section \<open>The invariant of the queue\<close>

definition queue_of :: "jq \<Rightarrow> nat list \<Rightarrow> bool" where
  "queue_of hq xs \<longleftrightarrow>
     (let (h, q) = hq in
      chain h (front q) xs \<and> distinct xs \<and> rear q = (if xs = [] then None else Some (last xs))
      \<and> len q = int (length xs) \<and> bsem_has_job q \<noteq> None)"

lemma queue_of_init: "jobqueue_init True = Inr (0, q) \<Longrightarrow> queue_of (h, q) []"
  by (auto simp: jobqueue_init_def bsem_init_def queue_of_def)

text \<open>
  What the queue operations leave alone: which jobs are allocated, and their function and
  argument.
\<close>

definition same_jobs :: "job_heap \<Rightarrow> job_heap \<Rightarrow> bool" where
  "same_jobs h h' \<longleftrightarrow>
     (\<forall>a. map_option (\<lambda>j. (func j, args j)) (h' a) = map_option (\<lambda>j. (func j, args j)) (h a))"

lemma same_jobs_refl [simp]: "same_jobs h h"
  by (simp add: same_jobs_def)

lemma same_jobs_trans: "same_jobs h h' \<Longrightarrow> same_jobs h' h'' \<Longrightarrow> same_jobs h h''"
  by (simp add: same_jobs_def)

lemma same_jobs_prev: "h a = Some j \<Longrightarrow> same_jobs h (h(a \<mapsto> j\<lparr>prev := p\<rparr>))"
  by (simp add: same_jobs_def)

lemma same_jobs_allocated:
  assumes "same_jobs h h'"
  shows "h' a = None \<longleftrightarrow> h a = None"
proof -
  have "map_option (\<lambda>j. (func j, args j)) (h' a) = map_option (\<lambda>j. (func j, args j)) (h a)"
    using assms by (simp add: same_jobs_def)
  then show ?thesis by (cases "h a"; cases "h' a") simp_all
qed

lemma jobqueue_push_ok:
  assumes "queue_of (h, q) xs" and "h a \<noteq> None" and "a \<notin> set xs" and "int (length xs) < INT_MAX"
  shows "\<exists>h' q'. jobqueue_push (h, q) a = Inr (h', q') \<and> queue_of (h', q') (xs @ [a])
           \<and> same_jobs h h' \<and> bsem_has_job q' = Some 1"
proof -
  from assms(2) obtain j where j: "h a = Some j" by blast
  let ?h = "h(a \<mapsto> j\<lparr>prev := None\<rparr>)"
  from assms(1) have q: "chain h (front q) xs" "distinct xs"
      "rear q = (if xs = [] then None else Some (last xs))" "len q = int (length xs)"
    and "bsem_has_job q \<noteq> None" by (auto simp: queue_of_def)
  then obtain v where v: "bsem_has_job q = Some v" by blast
  have n: "in_int (len q + 1)" using assms(4) q(4) by (simp add: int_range_defs)
  have hj: "same_jobs h ?h" using j by (rule same_jobs_prev)
  show ?thesis
  proof (cases xs rule: rev_cases)
    case Nil
    let ?q = "q\<lparr>front := Some a, rear := Some a, len := 1, bsem_has_job := Some 1\<rparr>"
    have "jobqueue_push (h, q) a = Inr (?h, ?q)"
      using Nil q(4) v j n by (simp add: jobqueue_push_def load_job_def post_queue_def bsem_post_def)
    then show ?thesis using hj Nil by (auto simp: queue_of_def)
  next
    case (snoc ys l)
    have ch: "chain ?h (front q) (ys @ [l])" using q(1) assms(3) snoc by (auto intro: chain_frame)
    from chain_last_prev [OF ch] obtain jl where jl: "?h l = Some jl" by blast
    let ?h2 = "?h(l \<mapsto> jl\<lparr>prev := Some a\<rparr>)"
    let ?q = "q\<lparr>rear := Some a, len := len q + 1, bsem_has_job := Some 1\<rparr>"
    have push: "jobqueue_push (h, q) a = Inr (?h2, ?q)"
      using snoc q v j n jl by (simp add: jobqueue_push_def load_job_def post_queue_def bsem_post_def)
    have "chain ?h2 (front q) (ys @ [l, a])"
      using ch q(2) assms(3) snoc jl by (intro chain_snoc) auto
    then have "queue_of (?h2, ?q) (xs @ [a])" using q(2,4) assms(3) snoc by (auto simp: queue_of_def)
    moreover have "same_jobs h ?h2" using hj same_jobs_prev [of ?h l jl] jl by (blast intro: same_jobs_trans)
    ultimately show ?thesis using push by auto
  qed
qed

lemma jobqueue_pull_empty:
  "queue_of (h, q) [] \<Longrightarrow> jobqueue_pull (h, q) = Inr (None, (h, q))"
  by (simp add: jobqueue_pull_def queue_of_def)

lemma jobqueue_pull_first:
  assumes "queue_of (h, q) (x # xs)" and "int (length (x # xs)) \<le> INT_MAX"
  shows "\<exists>q'. jobqueue_pull (h, q) = Inr (Some x, (h, q')) \<and> queue_of (h, q') xs
           \<and> bsem_has_job q' = (if xs = [] then bsem_has_job q else Some 1)"
proof -
  from assms(1) obtain j v where q: "front q = Some x" "h x = Some j" "chain h (prev j) xs"
    "distinct (x # xs)" "rear q = Some (last (x # xs))" "len q = 1 + int (length xs)"
    "bsem_has_job q = Some v" by (auto simp: queue_of_def)
  show ?thesis
  proof (cases xs)
    case Nil
    with q show ?thesis by (simp add: jobqueue_pull_def queue_of_def)
  next
    case (Cons y ys)
    have "in_int (len q - 1)" using q(6) assms(2) by (simp add: int_range_defs)
    with Cons q show ?thesis
      by (auto simp: jobqueue_pull_def queue_of_def load_job_def post_queue_def bsem_post_def)
  qed
qed

section \<open>Sequences of queue operations\<close>

datatype 'a qop = Push 'a | Pull

text \<open>The operations on an implementation, collecting what the pulls return.\<close>

fun impl_run ::
  "('q \<Rightarrow> 'a \<Rightarrow> 'q cres) \<Rightarrow> ('q \<Rightarrow> ('a option \<times> 'q) cres) \<Rightarrow> 'q \<Rightarrow> 'a qop list \<Rightarrow> ('a option list \<times> 'q) cres"
where
  "impl_run push pull q [] = Inr ([], q)"
| "impl_run push pull q (Push x # os) = cbind (push q x) (\<lambda>q'. impl_run push pull q' os)"
| "impl_run push pull q (Pull # os) =
     cbind (pull q) (\<lambda>(r, q'). cbind (impl_run push pull q' os) (\<lambda>(rs, q''). Inr (r # rs, q'')))"

text \<open>The specification: a list, pushed at the end and pulled at the front.\<close>

fun spec_run :: "'a list \<Rightarrow> 'a qop list \<Rightarrow> 'a option list \<times> 'a list" where
  "spec_run xs [] = ([], xs)"
| "spec_run xs (Push x # os) = spec_run (xs @ [x]) os"
| "spec_run [] (Pull # os) = (case spec_run [] os of (rs, ys) \<Rightarrow> (None # rs, ys))"
| "spec_run (x # xs) (Pull # os) = (case spec_run xs os of (rs, ys) \<Rightarrow> (Some x # rs, ys))"

fun pushed :: "'a qop list \<Rightarrow> 'a list" where
  "pushed [] = []"
| "pushed (Push x # os) = x # pushed os"
| "pushed (Pull # os) = pushed os"

text \<open>
  The contract of a first-in first-out queue whose items are the addresses of objects that
  the client owns: \<open>ready q x\<close> says that \<open>x\<close> may be stored in the queue.
\<close>

locale fifo_queue =
  fixes push :: "'q \<Rightarrow> 'a \<Rightarrow> 'q cres"
    and pull :: "'q \<Rightarrow> ('a option \<times> 'q) cres"
    and rep :: "'q \<Rightarrow> 'a list \<Rightarrow> bool"
    and ready :: "'q \<Rightarrow> 'a \<Rightarrow> bool"
    and capacity :: nat
  assumes push_rep: "rep q xs \<Longrightarrow> ready q x \<Longrightarrow> x \<notin> set xs \<Longrightarrow> length xs < capacity \<Longrightarrow>
      \<exists>q'. push q x = Inr q' \<and> rep q' (xs @ [x]) \<and> (\<forall>y. ready q' y = ready q y)"
    and pull_Nil: "rep q [] \<Longrightarrow> \<exists>q'. pull q = Inr (None, q') \<and> rep q' [] \<and> (\<forall>y. ready q' y = ready q y)"
    and pull_Cons: "rep q (x # xs) \<Longrightarrow>
      \<exists>q'. pull q = Inr (Some x, q') \<and> rep q' xs \<and> (\<forall>y. ready q' y = ready q y)"
begin

lemma run_refines:
  assumes "rep q xs" and "distinct (xs @ pushed os)" and "list_all (ready q) (pushed os)"
    and "length xs + length (pushed os) \<le> capacity"
  shows "\<exists>q'. impl_run push pull q os = Inr (fst (spec_run xs os), q') \<and> rep q' (snd (spec_run xs os))"
  using assms
proof (induction xs os arbitrary: q rule: spec_run.induct)
  case (1 xs)
  then show ?case by simp
next
  case (2 xs x os)
  have "ready q x" "x \<notin> set xs" "length xs < capacity" using 2(3-5) by auto
  from push_rep [OF 2(2) this] obtain q' where q': "push q x = Inr q'" "rep q' (xs @ [x])"
      "\<forall>y. ready q' y = ready q y" by blast
  have "list_all (ready q') (pushed os)" using 2(4) q'(3) by (simp add: list_all_iff)
  with 2(1) [OF q'(2)] 2(3,5) q'(1) show ?case by simp
next
  case (3 os)
  from pull_Nil [OF 3(2)] obtain q' where q': "pull q = Inr (None, q')" "rep q' []"
      "\<forall>y. ready q' y = ready q y" by blast
  have "list_all (ready q') (pushed os)" using 3(4) q'(3) by (simp add: list_all_iff)
  with 3(1) [OF q'(2)] 3(3,5) q'(1) show ?case by (auto split: prod.splits)
next
  case (4 x xs os)
  from pull_Cons [OF 4(2)] obtain q' where q': "pull q = Inr (Some x, q')" "rep q' xs"
      "\<forall>y. ready q' y = ready q y" by blast
  have "list_all (ready q') (pushed os)" using 4(4) q'(3) by (simp add: list_all_iff)
  with 4(1) [OF q'(2)] 4(3,5) q'(1) show ?case by (auto split: prod.splits)
qed

end

definition queue_rep :: "jq \<Rightarrow> nat list \<Rightarrow> bool" where
  "queue_rep hq xs \<longleftrightarrow> queue_of hq xs \<and> length xs \<le> 2147483647"

interpretation jobs: fifo_queue jobqueue_push jobqueue_pull queue_rep "\<lambda>hq a. fst hq a \<noteq> None" 2147483647
proof
  fix hq :: jq and xs a
  assume *: "queue_rep hq xs" "fst hq a \<noteq> None" "a \<notin> set xs" "length xs < 2147483647"
  obtain h q where hq: "hq = (h, q)" by (cases hq)
  from * hq obtain h' q' where r: "jobqueue_push (h, q) a = Inr (h', q')" "queue_of (h', q') (xs @ [a])"
      "same_jobs h h'"
    using jobqueue_push_ok [of h q xs a] by (auto simp: queue_rep_def INT_MAX_def)
  have "\<forall>y. (h' y \<noteq> None) = (h y \<noteq> None)" using same_jobs_allocated [OF r(3)] by simp
  with r * hq show "\<exists>hq'. jobqueue_push hq a = Inr hq' \<and> queue_rep hq' (xs @ [a])
      \<and> (\<forall>y. (fst hq' y \<noteq> None) = (fst hq y \<noteq> None))"
    by (auto simp: queue_rep_def)
next
  fix hq :: jq
  assume "queue_rep hq []"
  then show "\<exists>hq'. jobqueue_pull hq = Inr (None, hq') \<and> queue_rep hq' []
      \<and> (\<forall>y. (fst hq' y \<noteq> None) = (fst hq y \<noteq> None))"
    by (cases hq) (auto simp: queue_rep_def jobqueue_pull_empty)
next
  fix hq :: jq and x xs
  assume *: "queue_rep hq (x # xs)"
  obtain h q where hq: "hq = (h, q)" by (cases hq)
  with * jobqueue_pull_first [of h q x xs]
  show "\<exists>hq'. jobqueue_pull hq = Inr (Some x, hq') \<and> queue_rep hq' xs
      \<and> (\<forall>y. (fst hq' y \<noteq> None) = (fst hq y \<noteq> None))"
    by (auto simp: queue_rep_def INT_MAX_def)
qed

section \<open>Clearing the queue\<close>

lemma clear_loop_ok:
  assumes "queue_of (h, q) xs" and "int (length xs) \<le> INT_MAX"
  shows "\<exists>q'. clear_loop (h, q) = Some (Inr (\<lambda>a. if a \<in> set xs then None else h a, q'))
           \<and> queue_of (h, q') []"
  using assms
proof (induction xs arbitrary: h q)
  case Nil
  then show ?case by (subst clear_loop.simps) (auto simp: queue_of_def)
next
  case (Cons x xs)
  from jobqueue_pull_first [OF Cons.prems] obtain q' where q':
    "jobqueue_pull (h, q) = Inr (Some x, (h, q'))" "queue_of (h, q') xs" by blast
  have x: "h x \<noteq> None" "x \<notin> set xs" "len q \<noteq> 0" using Cons.prems by (auto simp: queue_of_def)
  let ?h = "h(x := None)"
  have "queue_of (?h, q') xs" "int (length xs) \<le> INT_MAX"
    using q'(2) x(2) Cons.prems(2) by (auto simp: queue_of_def chain_frame)
  from Cons.IH [OF this] obtain q'' where q'':
    "clear_loop (?h, q') = Some (Inr (\<lambda>a. if a \<in> set xs then None else ?h a, q''))"
    "queue_of (?h, q'') []" by blast
  have "clear_loop (h, q) = clear_loop (?h, q')"
    using q'(1) x(1,3) by (subst clear_loop.simps) (auto simp: free_job_def)
  moreover have "(\<lambda>a. if a \<in> set xs then None else ?h a) = (\<lambda>a. if a \<in> set (x # xs) then None else h a)"
    by auto
  moreover have "queue_of (h, q'') []" using q''(2) by (simp add: queue_of_def)
  ultimately show ?case using q''(1) by auto
qed

lemma jobqueue_clear_ok:
  assumes "queue_of (h, q) xs" and "int (length xs) \<le> INT_MAX"
  shows "jobqueue_clear (h, q) = Inr (\<lambda>a. if a \<in> set xs then None else h a,
           q\<lparr>front := None, rear := None, len := 0, bsem_has_job := Some 0\<rparr>)"
proof -
  from clear_loop_ok [OF assms] obtain q' where q':
    "clear_loop (h, q) = Some (Inr (\<lambda>a. if a \<in> set xs then None else h a, q'))" "queue_of (h, q') []"
    by blast
  then obtain v where "bsem_has_job q' = Some v" by (auto simp: queue_of_def)
  with q'(1) show ?thesis
    by (cases q; cases q') (simp add: jobqueue_clear_def bsem_reset_def bsem_init_def)
qed

section \<open>Properties\<close>

text \<open>
  C3: the job queue is a first-in first-out queue. For any sequence of pushes (of distinct
  allocated jobs) and pulls, the linked list with its front, rear, length and semaphore
  returns exactly what a list returns that is extended at its end and consumed at its front,
  pulls of an empty queue included, without any undefined memory access.
\<close>

theorem job_queue_is_fifo:
  assumes "jobqueue_init True = Inr (0, q)" and "distinct (pushed os)"
    and "list_all (\<lambda>a. h a \<noteq> None) (pushed os)" and "length (pushed os) \<le> 2147483647"
  shows "\<exists>hq. impl_run jobqueue_push jobqueue_pull (h, q) os = Inr (fst (spec_run [] os), hq)
           \<and> queue_of hq (snd (spec_run [] os))"
proof -
  have "queue_rep (h, q) []" using queue_of_init [OF assms(1)] by (simp add: queue_rep_def)
  from jobs.run_refines [OF this, of os] assms(2-4) show ?thesis by (auto simp: queue_rep_def)
qed

theorem job_queue_is_fifo_witness:
  "\<exists>hq. impl_run jobqueue_push jobqueue_pull
      ([7 \<mapsto> \<lparr>prev = None, func = ''f'', args = 1\<rparr>, 9 \<mapsto> \<lparr>prev = None, func = ''g'', args = 2\<rparr>],
       \<lparr>front = None, rear = None, len = 0, bsem_has_job = Some 0\<rparr>)
      [Pull, Push 7, Push 9, Pull, Pull, Pull] = Inr ([None, Some 7, Some 9, None], hq)"
  using job_queue_is_fifo [of "\<lparr>front = None, rear = None, len = 0, bsem_has_job = Some 0\<rparr>"
      "[Pull, Push 7, Push 9, Pull, Pull, Pull]"
      "[7 \<mapsto> \<lparr>prev = None, func = ''f'', args = 1\<rparr>, 9 \<mapsto> \<lparr>prev = None, func = ''g'', args = 2\<rparr>]"]
  by (auto simp: jobqueue_init_def bsem_init_def simp del: impl_run.simps)

text \<open>
  \<^verbatim>\<open>jobqueue_destroy\<close> ends and frees exactly the jobs that are still queued, each of
  them once, and the semaphore; every other job object is left alone, and the queue is empty.
\<close>

theorem jobqueue_destroy_frees_queued:
  assumes "queue_of (h, q) xs" and "int (length xs) \<le> INT_MAX"
  shows "jobqueue_destroy (h, q) = Inr (\<lambda>a. if a \<in> set xs then None else h a,
           q\<lparr>front := None, rear := None, len := 0, bsem_has_job := None\<rparr>)"
  using jobqueue_clear_ok [OF assms] by (simp add: jobqueue_destroy_def)

theorem jobqueue_destroy_frees_queued_witness:
  "\<exists>h'. jobqueue_destroy
      ([7 \<mapsto> \<lparr>prev = Some 9, func = ''f'', args = 1\<rparr>, 9 \<mapsto> \<lparr>prev = None, func = ''g'', args = 2\<rparr>,
        4 \<mapsto> \<lparr>prev = None, func = ''h'', args = 3\<rparr>],
       \<lparr>front = Some 7, rear = Some 9, len = 2, bsem_has_job = Some 1\<rparr>) =
      Inr (h', \<lparr>front = None, rear = None, len = 0, bsem_has_job = None\<rparr>)
    \<and> h' 7 = None \<and> h' 9 = None \<and> h' 4 = Some \<lparr>prev = None, func = ''h'', args = 3\<rparr>"
  using jobqueue_destroy_frees_queued
    [of "[7 \<mapsto> \<lparr>prev = Some 9, func = ''f'', args = 1\<rparr>, 9 \<mapsto> \<lparr>prev = None, func = ''g'', args = 2\<rparr>,
          4 \<mapsto> \<lparr>prev = None, func = ''h'', args = 3\<rparr>]"
        "\<lparr>front = Some 7, rear = Some 9, len = 2, bsem_has_job = Some 1\<rparr>" "[7, 9]"]
  by (simp add: queue_of_def INT_MAX_def)

end
