(* ===== verification/Step_Systems.thy ===== *)
theory Step_Systems
  imports Main
begin

text \<open>
  Concurrent components are step relations over a state record: one rule per atomic action
  of one thread. This theory holds what their proofs share: reachable states, the invariance
  rule and progress, each stated once in a locale that the components interpret.
\<close>

inductive reach :: "('s \<Rightarrow> bool) \<Rightarrow> ('s \<Rightarrow> 's \<Rightarrow> bool) \<Rightarrow> 's \<Rightarrow> bool"
  for init :: "'s \<Rightarrow> bool" and step :: "'s \<Rightarrow> 's \<Rightarrow> bool" where
  reach_init: "init s \<Longrightarrow> reach init step s"
| reach_step: "reach init step s \<Longrightarrow> step s t \<Longrightarrow> reach init step t"

lemma reach_run: "step\<^sup>*\<^sup>* s t \<Longrightarrow> reach init step s \<Longrightarrow> reach init step t"
  by (induction rule: rtranclp_induct) (auto intro: reach_step)

text \<open>A predicate that holds initially and that every step keeps.\<close>

locale invariant_system =
  fixes init :: "'s \<Rightarrow> bool" and step :: "'s \<Rightarrow> 's \<Rightarrow> bool" and inv :: "'s \<Rightarrow> bool"
  assumes inv_init: "init s \<Longrightarrow> inv s"
    and inv_step: "inv s \<Longrightarrow> step s t \<Longrightarrow> inv t"
begin

lemma inv_reach: "reach init step s \<Longrightarrow> inv s"
  by (induction rule: reach.induct) (auto intro: inv_init inv_step)

lemma inv_run: "step\<^sup>*\<^sup>* s t \<Longrightarrow> inv s \<Longrightarrow> inv t"
  by (induction rule: rtranclp_induct) (auto intro: inv_step)

end

text \<open>
  In addition: in every state that satisfies the invariant and is not \<open>final\<close>, some step
  is possible.
\<close>

locale progress_system = invariant_system init step inv
  for init :: "'s \<Rightarrow> bool" and step :: "'s \<Rightarrow> 's \<Rightarrow> bool" and inv :: "'s \<Rightarrow> bool" +
  fixes final :: "'s \<Rightarrow> bool"
  assumes progress: "inv s \<Longrightarrow> \<not> final s \<Longrightarrow> \<exists>t. step s t"
begin

lemma not_stuck: "reach init step s \<Longrightarrow> \<not> final s \<Longrightarrow> \<exists>t. step s t"
  by (blast intro: progress inv_reach)

end

text \<open>
  A system whose steps all decrease a measure under the invariant has no infinite run, and
  every run that cannot be continued has ended in a final state.
\<close>

locale terminating_system = progress_system init step inv final
  for init :: "'s \<Rightarrow> bool" and step :: "'s \<Rightarrow> 's \<Rightarrow> bool" and inv :: "'s \<Rightarrow> bool"
    and final :: "'s \<Rightarrow> bool" +
  fixes msr :: "'s \<Rightarrow> nat"
  assumes decreases: "inv s \<Longrightarrow> step s t \<Longrightarrow> msr t < msr s"
begin

lemma run_bounded: "(step ^^ n) s t \<Longrightarrow> inv s \<Longrightarrow> n + msr t \<le> msr s"
proof (induction n arbitrary: t)
  case 0
  then show ?case by simp
next
  case (Suc n)
  then obtain u where u: "(step ^^ n) s u" "step u t" by auto
  then have "inv u" using Suc.prems(2) by (meson inv_run relpowp_imp_rtranclp)
  with u Suc show ?case using decreases by fastforce
qed

lemma reaches_final: "inv s \<Longrightarrow> \<exists>t. step\<^sup>*\<^sup>* s t \<and> final t"
proof (induction "msr s" arbitrary: s rule: less_induct)
  case less
  show ?case
  proof (cases "final s")
    case True
    then show ?thesis by blast
  next
    case False
    with less.prems obtain u where "step s u" using progress by blast
    then show ?thesis using less inv_step decreases
      by (meson converse_rtranclp_into_rtranclp)
  qed
qed

end

section \<open>Refinement\<close>

text \<open>
  A detailed system and an abstract one: the abstraction takes initial states to initial states, and
  every step of the detailed system to a step of the abstract one or to no change. Then its runs and
  its reachable states are runs and reachable states of the abstract system.
\<close>

locale refinement = invariant_system cinit cstep cinv
  for cinit :: "'c \<Rightarrow> bool" and cstep :: "'c \<Rightarrow> 'c \<Rightarrow> bool" and cinv :: "'c \<Rightarrow> bool" +
  fixes ainit :: "'a \<Rightarrow> bool" and astep :: "'a \<Rightarrow> 'a \<Rightarrow> bool" and abs :: "'c \<Rightarrow> 'a"
  assumes abs_init: "cinit s \<Longrightarrow> ainit (abs s)"
    and abs_step: "cinv s \<Longrightarrow> cstep s t \<Longrightarrow> abs t = abs s \<or> astep (abs s) (abs t)"
begin

lemma abs_run: "cstep\<^sup>*\<^sup>* s t \<Longrightarrow> cinv s \<Longrightarrow> astep\<^sup>*\<^sup>* (abs s) (abs t)"
proof (induction rule: rtranclp_induct)
  case (step t u)
  then have "cinv t" by (simp add: inv_run)
  with step abs_step show ?case by (metis rtranclp.rtrancl_into_rtrancl)
qed simp

lemma abs_reach: "reach cinit cstep s \<Longrightarrow> reach ainit astep (abs s)"
proof (induction rule: reach.induct)
  case (reach_step s t)
  with abs_step [OF inv_reach] show ?case by (metis reach.reach_step)
qed (simp add: abs_init reach.reach_init)

end

section \<open>Counting threads\<close>

text \<open>The number of threads below \<open>n\<close> whose local state satisfies \<open>P\<close>.\<close>

definition count_threads :: "nat \<Rightarrow> (nat \<Rightarrow> bool) \<Rightarrow> nat" where
  "count_threads n P = card {i. i < n \<and> P i}"

lemma finite_threads [simp]: "finite {i. i < n \<and> P (i :: nat)}"
  by simp

lemma count_threads_cong: "(\<And>i. i < n \<Longrightarrow> P i = Q i) \<Longrightarrow> count_threads n P = count_threads n Q"
  unfolding count_threads_def by (rule arg_cong [where f = card]) auto

lemma count_threads_le: "count_threads n P \<le> n"
proof -
  have "{i. i < n \<and> P i} \<subseteq> {..<n}" by auto
  then show ?thesis unfolding count_threads_def
    by (metis card_lessThan card_mono finite_lessThan)
qed

lemma count_threads_zero_iff: "count_threads n P = 0 \<longleftrightarrow> (\<forall>i < n. \<not> P i)"
  by (auto simp: count_threads_def)

lemma count_threads_pos_iff: "0 < count_threads n P \<longleftrightarrow> (\<exists>i < n. P i)"
  using count_threads_zero_iff [of n P] by auto

lemma count_threads_all_iff: "count_threads n P = n \<longleftrightarrow> (\<forall>i < n. P i)"
proof
  assume *: "count_threads n P = n"
  have "{i. i < n \<and> P i} \<subseteq> {..<n}" by auto
  moreover have "card {i. i < n \<and> P i} = card {..<n}" using * by (simp add: count_threads_def)
  ultimately have "{i. i < n \<and> P i} = {..<n}" by (metis card_subset_eq finite_lessThan)
  then show "\<forall>i < n. P i" by auto
next
  assume "\<forall>i < n. P i"
  then have "{i. i < n \<and> P i} = {..<n}" by auto
  then show "count_threads n P = n" by (simp add: count_threads_def)
qed

lemma count_threads_Suc: "count_threads (Suc n) P = count_threads n P + of_bool (P n)"
proof -
  have "Collect (\<lambda>k. k < Suc n \<and> P k) = {k \<in> insert n {..<n}. P k}" by (auto simp: less_Suc_eq)
  also have "\<dots> = (if P n then insert n {k. k < n \<and> P k} else {k. k < n \<and> P k})" by auto
  finally have "{i. i < Suc n \<and> P i} = (if P n then insert n {k. k < n \<and> P k} else {k. k < n \<and> P k})" .
  then show ?thesis by (simp add: count_threads_def)
qed

text \<open>Effect on the counts of a step of thread \<open>i\<close>, which changes the local state of \<open>i\<close> only.\<close>

lemma count_threads_upd:
  assumes "i < n"
  shows "count_threads n (\<lambda>j. P ((f(i := x)) j)) + of_bool (P (f i)) =
         count_threads n (\<lambda>j. P (f j)) + of_bool (P x)"
proof -
  let ?S = "{j. j < n \<and> j \<noteq> i \<and> P (f j)}"
  have fin: "finite ?S" "i \<notin> ?S" by auto
  have "{j. j < n \<and> P ((f(i := x)) j)} = (if P x then insert i ?S else ?S)"
    and "{j. j < n \<and> P (f j)} = (if P (f i) then insert i ?S else ?S)"
    using assms by (auto split: if_splits)
  then show ?thesis using fin by (auto simp: count_threads_def)
qed

lemma count_threads_updates:
  assumes "i < n"
  shows "\<not> P (f i) \<Longrightarrow> P x \<Longrightarrow> count_threads n (\<lambda>j. P ((f(i := x)) j)) = Suc (count_threads n (\<lambda>j. P (f j)))"
    and "P (f i) \<Longrightarrow> \<not> P x \<Longrightarrow> Suc (count_threads n (\<lambda>j. P ((f(i := x)) j))) = count_threads n (\<lambda>j. P (f j))"
    and "P (f i) = P x \<Longrightarrow> count_threads n (\<lambda>j. P ((f(i := x)) j)) = count_threads n (\<lambda>j. P (f j))"
  using count_threads_upd [OF assms, of P f x] by auto

text \<open>The same number as an integer, for threads with positions \<open>w\<close>.\<close>

definition cnt :: "('p \<Rightarrow> bool) \<Rightarrow> nat \<Rightarrow> (nat \<Rightarrow> 'p) \<Rightarrow> int" where
  "cnt P n w = int (count_threads n (\<lambda>j. P (w j)))"

lemma cnt_upd:
  assumes "i < n"
  shows "cnt P n (w(i := p)) = cnt P n w - of_bool (P (w i)) + of_bool (P p)"
proof -
  have "int (count_threads n (\<lambda>j. P ((w(i := p)) j)) + of_bool (P (w i))) =
      int (count_threads n (\<lambda>j. P (w j)) + of_bool (P p))"
    by (simp only: count_threads_upd [OF assms])
  then show ?thesis by (simp add: cnt_def del: fun_upd_apply)
qed

lemma cnt_cong: "(\<And>j. P (w' j) = P (w j)) \<Longrightarrow> cnt P n w' = cnt P n w"
  by (simp add: cnt_def cong: count_threads_cong)

lemma cnt_pos: "i < n \<Longrightarrow> P (w i) \<Longrightarrow> 0 < cnt P n w"
  by (auto simp: cnt_def count_threads_pos_iff)

lemma cnt_zero_iff: "cnt P n w = 0 \<longleftrightarrow> (\<forall>i < n. \<not> P (w i))"
  by (simp add: cnt_def count_threads_zero_iff)

lemma cnt_all_iff: "cnt P n w = int n \<longleftrightarrow> (\<forall>i < n. P (w i))"
  by (simp add: cnt_def count_threads_all_iff)

lemma cnt_0 [simp]: "cnt P 0 w = 0"
  by (simp add: cnt_def count_threads_def)

lemma cnt_Suc: "cnt P (Suc n) w = cnt P n w + of_bool (P (w n))"
  by (simp add: cnt_def count_threads_Suc)

lemma cnt_nonneg: "0 \<le> cnt P n w"
  by (simp add: cnt_def)

lemma cnt_le: "cnt P n w \<le> int n"
  by (simp add: cnt_def count_threads_le)

text \<open>The sum of a weight over the threads.\<close>

definition total :: "('p \<Rightarrow> int) \<Rightarrow> nat \<Rightarrow> (nat \<Rightarrow> 'p) \<Rightarrow> int" where
  "total f n w = (\<Sum>i < n. f (w i))"

lemma total_upd:
  assumes "i < n"
  shows "total f n (w(i := p)) = total f n w - f (w i) + f p"
proof -
  have "(\<Sum>j \<in> {..<n} - {i}. f ((w(i := p)) j)) = (\<Sum>j \<in> {..<n} - {i}. f (w j))"
    by (rule sum.cong) auto
  then show ?thesis using assms unfolding total_def by (simp add: sum.remove [of "{..<n}" i])
qed

lemma total_add:
  assumes "\<And>p. f p \<le> g p + c"
  shows "total f n w \<le> total g n w + int n * c"
proof -
  have "(\<Sum>i < n. f (w i)) \<le> (\<Sum>i < n. g (w i) + c)" by (intro sum_mono assms)
  then show ?thesis by (simp add: total_def sum.distrib)
qed

lemma total_nonneg: "(\<And>p. 0 \<le> f p) \<Longrightarrow> 0 \<le> total f n w"
  unfolding total_def by (simp add: sum_nonneg)

end
