(* ===== verification/Thread_Pool.thy ===== *)
theory Thread_Pool
  imports Job_Queue Step_Systems "HOL-Library.Multiset"
begin

text \<open>
  The thread pool of \<^verbatim>\<open>common/thpool.c\<close>: worker threads, one client thread, and the signals
  of \<^verbatim>\<open>thpool_pause\<close>. The pool is a step relation. A step is one access to shared state, or
  one region that the code runs under a mutex (\<^verbatim>\<open>thcount_lock\<close>, the queue's \<^verbatim>\<open>rw_mutex\<close>, the
  mutex of the semaphore); regions of the client that other threads can observe in the middle
  are split. Which thread moves next is not determined.
\<close>

section \<open>Creating threads\<close>

text \<open>
  The answers of the system to \<^verbatim>\<open>thread_init\<close> for one thread. The result is the returned value, the state of the slot in
  the array \<^verbatim>\<open>threads\<close>, and whether a thread exists. The result of \<^verbatim>\<open>pthread_create\<close> is not tested: after
  a failure \<^verbatim>\<open>pthread_detach\<close> is called with an identifier that was never set.
\<close>

record thread_env =
  malloc_ok :: bool
  attr_init_ok :: bool
  stacksize_ok :: bool
  create_ok :: bool

datatype slot = SlotNull | SlotDangling | SlotLive

definition thread_init :: "thread_env \<Rightarrow> (int \<times> slot \<times> bool) cres" where
  "thread_init E =
     (if \<not> malloc_ok E then Inr (- 1, SlotNull, False)
      else if \<not> attr_init_ok E then Inr (- 1, SlotDangling, False)
      else if \<not> stacksize_ok E then Inr (- 1, SlotDangling, False)
      else if \<not> create_ok E then Inl Uninitialised
      else Inr (0, SlotLive, True))"

section \<open>State\<close>

text \<open>Where a worker is in \<^verbatim>\<open>thread_do\<close>.\<close>

datatype wpc =
    W_absent            \<comment> \<open>there is no such thread\<close>
  | W_start             \<comment> \<open>before \<^verbatim>\<open>num_threads_alive += 1\<close>\<close>
  | W_loop              \<comment> \<open>at \<^verbatim>\<open>while (threads_keepalive)\<close>\<close>
  | W_check             \<comment> \<open>in \<^verbatim>\<open>bsem_wait\<close>, about to test the semaphore\<close>
  | W_sleep             \<comment> \<open>in \<^verbatim>\<open>bsem_wait\<close>, asleep on the condition variable\<close>
  | W_got               \<comment> \<open>at \<^verbatim>\<open>if (threads_keepalive)\<close>\<close>
  | W_count             \<comment> \<open>before \<^verbatim>\<open>num_threads_working++\<close>\<close>
  | W_pull              \<comment> \<open>before \<^verbatim>\<open>jobqueue_pull\<close>\<close>
  | W_run nat           \<comment> \<open>has pulled the job at this address, not yet run it\<close>
  | W_free nat          \<comment> \<open>has run the job, before \<^verbatim>\<open>free(job)\<close>\<close>
  | W_done              \<comment> \<open>before \<^verbatim>\<open>num_threads_working--\<close>\<close>
  | W_exit              \<comment> \<open>before \<^verbatim>\<open>num_threads_alive--\<close>\<close>
  | W_unlock            \<comment> \<open>after it, before the last \<^verbatim>\<open>pthread_mutex_unlock\<close>\<close>
  | W_dead

text \<open>Where the client is.\<close>

datatype cpc =
    C_init              \<comment> \<open>in \<^verbatim>\<open>thpool_init\<close>, spinning until all threads are alive\<close>
  | C_idle              \<comment> \<open>outside the library\<close>
  | C_wait              \<comment> \<open>in \<^verbatim>\<open>thpool_wait\<close>, about to lock and read the queue length\<close>
  | C_chk               \<comment> \<open>the length was 0; about to read \<^verbatim>\<open>num_threads_working\<close> (lock held)\<close>
  | C_presleep          \<comment> \<open>has to wait; about to enter \<^verbatim>\<open>pthread_cond_wait\<close> (lock held)\<close>
  | C_sleep             \<comment> \<open>asleep on \<^verbatim>\<open>threads_all_idle\<close>\<close>
  | C_kill              \<comment> \<open>in \<^verbatim>\<open>thpool_destroy\<close>, waking threads until none is alive\<close>
  | C_gone              \<comment> \<open>the pool has been destroyed and freed\<close>

text \<open>
  The fields of \<^verbatim>\<open>thpool_t\<close> and the two static variables, the threads, and three histories
  that the code does not keep: the jobs submitted, the jobs taken from the queue and the
  calls completed (each with the thread).
\<close>

record pool =
  nthreads :: nat
  heap :: job_heap
  queue :: job_queue
  num_threads_alive :: int
  num_threads_working :: int
  threads_keepalive :: bool
  threads_on_hold :: bool
  wpcs :: "nat \<Rightarrow> wpc"
  client :: cpc
  sig_pending :: "nat \<Rightarrow> bool"
  held :: "nat \<Rightarrow> bool"
  submitted :: "(string \<times> nat) list"
  taken :: "(nat \<times> string \<times> nat) list"
  executed :: "(nat \<times> string \<times> nat) list"

text \<open>The loop of \<^verbatim>\<open>thpool_init\<close> over the threads; it ignores the results of \<^verbatim>\<open>thread_init\<close>.\<close>

primrec create_threads :: "(nat \<Rightarrow> thread_env) \<Rightarrow> nat \<Rightarrow> (nat \<Rightarrow> wpc) cres" where
  "create_threads E 0 = Inr (\<lambda>i. W_absent)"
| "create_threads E (Suc n) =
     cbind (create_threads E n) (\<lambda>w.
     cbind (thread_init (E n)) (\<lambda>(r, sl, exists). Inr (w(n := if exists then W_start else W_absent))))"

text \<open>
  \<^verbatim>\<open>thpool_init\<close>: \<open>None\<close> is the result \<^verbatim>\<open>NULL\<close>; otherwise the state in which the caller spins
  until every thread has announced itself.
\<close>

record init_env =
  pool_malloc_ok :: bool
  sem_malloc_ok :: bool
  threads_calloc_ok :: bool
  thread_envs :: "nat \<Rightarrow> thread_env"

definition thpool_init :: "init_env \<Rightarrow> int \<Rightarrow> pool option cres" where
  "thpool_init E num_threads =
     (let num_threads = (if num_threads < 0 then 0 else num_threads) in
      if \<not> pool_malloc_ok E then Inr None
      else cbind (jobqueue_init (sem_malloc_ok E)) (\<lambda>(r, q).
        if r = - 1 then Inr None
        else if \<not> threads_calloc_ok E
        then cbind (jobqueue_destroy (Map.empty, q)) (\<lambda>_. Inr None)
        else
          cbind (create_threads (thread_envs E) (nat num_threads)) (\<lambda>w.
          Inr (Some \<lparr>nthreads = nat num_threads, heap = Map.empty, queue = q,
               num_threads_alive = 0, num_threads_working = 0,
               threads_keepalive = True, threads_on_hold = False, wpcs = w,
               client = C_init, sig_pending = (\<lambda>i. False), held = (\<lambda>i. False),
               submitted = [], taken = [], executed = []\<rparr>))))"

text \<open>
  \<^verbatim>\<open>thpool_add_work\<close>: the result of \<^verbatim>\<open>malloc\<close> (an address, or \<open>None\<close>) and the indeterminate
  content \<open>g\<close> of the new object's \<^verbatim>\<open>prev\<close> are parameters.
\<close>

definition thpool_add_work :: "nat option \<Rightarrow> nat option \<Rightarrow> jq \<Rightarrow> string \<Rightarrow> nat \<Rightarrow> (int \<times> jq) cres" where
  "thpool_add_work m g hq f x =
     (case m of None \<Rightarrow> Inr (- 1, hq)
      | Some job \<Rightarrow>
          (let (h, q) = hq in
           cbind (jobqueue_push (h(job \<mapsto> \<lparr>prev = g, func = f, args = x\<rparr>), q) job) (\<lambda>hq'. Inr (0, hq'))))"

definition thpool_num_threads_working :: "pool \<Rightarrow> int" where
  "thpool_num_threads_working s = num_threads_working s"

section \<open>Waking threads\<close>

text \<open>\<^verbatim>\<open>pthread_cond_signal\<close> on the semaphore: one of the sleeping workers, if any, wakes up.\<close>

definition woken :: "nat \<Rightarrow> (nat \<Rightarrow> wpc) \<Rightarrow> (nat \<Rightarrow> wpc) \<Rightarrow> bool" where
  "woken n w w' \<longleftrightarrow>
     (w' = w \<and> (\<forall>j < n. w j \<noteq> W_sleep)) \<or> (\<exists>j < n. w j = W_sleep \<and> w' = w(j := W_check))"

text \<open>\<^verbatim>\<open>pthread_cond_broadcast\<close>.\<close>

definition wake_all :: "(nat \<Rightarrow> wpc) \<Rightarrow> nat \<Rightarrow> wpc" where
  "wake_all w j = (if w j = W_sleep then W_check else w j)"

text \<open>The client holds \<^verbatim>\<open>thcount_lock\<close> across steps in two places only.\<close>

definition lock_free :: "pool \<Rightarrow> bool" where
  "lock_free s \<longleftrightarrow> client s \<noteq> C_chk \<and> client s \<noteq> C_presleep"

definition goto :: "pool \<Rightarrow> nat \<Rightarrow> wpc \<Rightarrow> pool" where
  "goto s i p = s\<lparr>wpcs := (wpcs s)(i := p)\<rparr>"

section \<open>Steps of the workers\<close>

text \<open>\<^verbatim>\<open>thread_do\<close>, by thread \<open>i\<close>, which is not stopped in the signal handler.\<close>

inductive worker_step :: "nat \<Rightarrow> pool \<Rightarrow> pool \<Rightarrow> bool" for i where
  start: "wpcs s i = W_start \<Longrightarrow> lock_free s \<Longrightarrow>
    worker_step i s ((goto s i W_loop)\<lparr>num_threads_alive := num_threads_alive s + 1\<rparr>)"
| loop: "wpcs s i = W_loop \<Longrightarrow>
    worker_step i s (goto s i (if threads_keepalive s then W_check else W_exit))"
| sem_take: "wpcs s i = W_check \<Longrightarrow> bsem_has_job (queue s) = Some v \<Longrightarrow> bsem_wait v = Some v' \<Longrightarrow>
    worker_step i s ((goto s i W_got)\<lparr>queue := (queue s)\<lparr>bsem_has_job := Some v'\<rparr>\<rparr>)"
| sem_sleep: "wpcs s i = W_check \<Longrightarrow> bsem_has_job (queue s) = Some v \<Longrightarrow> bsem_wait v = None \<Longrightarrow>
    worker_step i s (goto s i W_sleep)"
| got: "wpcs s i = W_got \<Longrightarrow>
    worker_step i s (goto s i (if threads_keepalive s then W_count else W_loop))"
| count: "wpcs s i = W_count \<Longrightarrow> lock_free s \<Longrightarrow>
    worker_step i s ((goto s i W_pull)\<lparr>num_threads_working := num_threads_working s + 1\<rparr>)"
| pull_none: "wpcs s i = W_pull \<Longrightarrow> jobqueue_pull (heap s, queue s) = Inr (None, (h', q')) \<Longrightarrow>
    worker_step i s ((goto s i W_done)\<lparr>heap := h', queue := q'\<rparr>)"
| pull_some: "wpcs s i = W_pull \<Longrightarrow> jobqueue_pull (heap s, queue s) = Inr (Some a, (h', q')) \<Longrightarrow>
    h' a = Some j \<Longrightarrow>
    (if len (queue s) = 1 then w' = (wpcs s)(i := W_run a)
     else woken (nthreads s) ((wpcs s)(i := W_run a)) w') \<Longrightarrow>
    worker_step i s (s\<lparr>heap := h', queue := q', wpcs := w',
                      taken := taken s @ [(i, func j, args j)]\<rparr>)"
| run: "wpcs s i = W_run a \<Longrightarrow> heap s a = Some j \<Longrightarrow>
    worker_step i s ((goto s i (W_free a))\<lparr>executed := executed s @ [(i, func j, args j)]\<rparr>)"
| free: "wpcs s i = W_free a \<Longrightarrow> free_job (heap s) (Some a) = Inr h' \<Longrightarrow>
    worker_step i s ((goto s i W_done)\<lparr>heap := h'\<rparr>)"
| finish: "wpcs s i = W_done \<Longrightarrow> lock_free s \<Longrightarrow> n = num_threads_working s - 1 \<Longrightarrow>
    worker_step i s ((goto s i W_loop)\<lparr>num_threads_working := n,
      client := (if n = 0 \<and> client s = C_sleep then C_wait else client s)\<rparr>)"
| exit: "wpcs s i = W_exit \<Longrightarrow> lock_free s \<Longrightarrow>
    worker_step i s ((goto s i W_unlock)\<lparr>num_threads_alive := num_threads_alive s - 1\<rparr>)"
| unlock: "wpcs s i = W_unlock \<Longrightarrow> client s \<noteq> C_gone \<Longrightarrow>
    worker_step i s (goto s i W_dead)"

section \<open>Steps of the client\<close>

inductive client_step :: "pool \<Rightarrow> pool \<Rightarrow> bool" where
  init_done: "client s = C_init \<Longrightarrow> num_threads_alive s = int (nthreads s) \<Longrightarrow>
    client_step s (s\<lparr>client := C_idle\<rparr>)"
| add_work: "client s = C_idle \<Longrightarrow> heap s a = None \<Longrightarrow>
    thpool_add_work (Some a) g (heap s, queue s) f x = Inr (0, (h', q')) \<Longrightarrow>
    woken (nthreads s) (wpcs s) w' \<Longrightarrow>
    client_step s (s\<lparr>heap := h', queue := q', wpcs := w', submitted := submitted s @ [(f, x)]\<rparr>)"
| wait_call: "client s = C_idle \<Longrightarrow> client_step s (s\<lparr>client := C_wait\<rparr>)"
| wait_len: "client s = C_wait \<Longrightarrow>
    client_step s (s\<lparr>client := (if len (queue s) \<noteq> 0 then C_presleep else C_chk)\<rparr>)"
| wait_working: "client s = C_chk \<Longrightarrow>
    client_step s (s\<lparr>client := (if num_threads_working s \<noteq> 0 then C_presleep else C_idle)\<rparr>)"
| wait_sleep: "client s = C_presleep \<Longrightarrow> client_step s (s\<lparr>client := C_sleep\<rparr>)"
| pause: "client s = C_idle \<Longrightarrow>
    client_step s (s\<lparr>sig_pending := (\<lambda>i. sig_pending s i \<or> int i < num_threads_alive s)\<rparr>)"
| resume: "client s = C_idle \<Longrightarrow> client_step s (s\<lparr>threads_on_hold := False\<rparr>)"
| destroy_call: "client s = C_idle \<Longrightarrow>
    client_step s (s\<lparr>threads_keepalive := False, client := C_kill\<rparr>)"
| destroy_post: "client s = C_kill \<Longrightarrow> num_threads_alive s \<noteq> 0 \<Longrightarrow>
    bsem_has_job (queue s) = Some v \<Longrightarrow>
    client_step s (s\<lparr>queue := (queue s)\<lparr>bsem_has_job := Some (bsem_post_all v)\<rparr>,
                    wpcs := wake_all (wpcs s)\<rparr>)"
| destroy_free: "client s = C_kill \<Longrightarrow> num_threads_alive s = 0 \<Longrightarrow>
    jobqueue_destroy (heap s, queue s) = Inr (h', q') \<Longrightarrow>
    client_step s (s\<lparr>heap := h', queue := q', client := C_gone\<rparr>)"

section \<open>Signals and spurious wakeups\<close>

text \<open>
  \<^verbatim>\<open>thread_hold\<close>, the handler of \<^verbatim>\<open>SIGUSR1\<close>: a running thread that receives the signal sets
  \<^verbatim>\<open>threads_on_hold\<close> and stays in the handler until it finds the variable cleared. A thread
  asleep on a condition variable may wake up without a signal.
\<close>

inductive env_step :: "pool \<Rightarrow> pool \<Rightarrow> bool" where
  deliver: "i < nthreads s \<Longrightarrow> sig_pending s i \<Longrightarrow> \<not> held s i \<Longrightarrow>
    wpcs s i \<noteq> W_absent \<Longrightarrow> wpcs s i \<noteq> W_dead \<Longrightarrow>
    env_step s (s\<lparr>sig_pending := (sig_pending s)(i := False), held := (held s)(i := True),
                 threads_on_hold := True\<rparr>)"
| release: "i < nthreads s \<Longrightarrow> held s i \<Longrightarrow> \<not> threads_on_hold s \<Longrightarrow>
    env_step s (s\<lparr>held := (held s)(i := False)\<rparr>)"
| spurious_worker: "i < nthreads s \<Longrightarrow> wpcs s i = W_sleep \<Longrightarrow> env_step s (goto s i W_check)"
| spurious_client: "client s = C_sleep \<Longrightarrow> env_step s (s\<lparr>client := C_wait\<rparr>)"

inductive pool_step :: "pool \<Rightarrow> pool \<Rightarrow> bool" where
  worker: "i < nthreads s \<Longrightarrow> \<not> held s i \<Longrightarrow> worker_step i s t \<Longrightarrow> pool_step s t"
| client: "client_step s t \<Longrightarrow> pool_step s t"
| environment: "env_step s t \<Longrightarrow> pool_step s t"

definition pool_init :: "pool \<Rightarrow> bool" where
  "pool_init s \<longleftrightarrow> (\<exists>E num_threads. thpool_init E num_threads = Inr (Some s))"

abbreviation pool_reach :: "pool \<Rightarrow> bool" where
  "pool_reach \<equiv> reach pool_init pool_step"

section \<open>Control invariant\<close>

text \<open>Classes of program points.\<close>

fun alive_pc :: "wpc \<Rightarrow> bool" where
  "alive_pc W_absent = False" | "alive_pc W_start = False" | "alive_pc W_unlock = False"
| "alive_pc W_dead = False" | "alive_pc _ = True"

fun busy :: "wpc \<Rightarrow> bool" where
  "busy W_pull = True" | "busy (W_run a) = True" | "busy (W_free a) = True" | "busy W_done = True"
| "busy _ = False"

fun token :: "wpc \<Rightarrow> bool" where
  "token W_got = True" | "token W_count = True" | "token W_pull = True" | "token _ = False"

fun ending :: "wpc \<Rightarrow> bool" where
  "ending W_exit = True" | "ending W_unlock = True" | "ending W_dead = True" | "ending _ = False"

fun unborn :: "wpc \<Rightarrow> bool" where
  "unborn W_absent = True" | "unborn W_start = True" | "unborn _ = False"

fun job_of :: "wpc \<Rightarrow> nat option" where
  "job_of (W_run a) = Some a" | "job_of (W_free a) = Some a" | "job_of _ = None"

text \<open>The job that a worker has taken but not yet finished.\<close>

fun running :: "wpc \<Rightarrow> nat option" where
  "running (W_run a) = Some a" | "running _ = None"

named_theorems pool_simps \<open>effect of the steps on the fields and the counts\<close>

declare cnt_upd [pool_simps]

lemma goto_simps [pool_simps]:
  "wpcs (goto s i p) = (wpcs s)(i := p)" "nthreads (goto s i p) = nthreads s"
  "heap (goto s i p) = heap s" "queue (goto s i p) = queue s" "client (goto s i p) = client s"
  "num_threads_alive (goto s i p) = num_threads_alive s"
  "num_threads_working (goto s i p) = num_threads_working s"
  "threads_keepalive (goto s i p) = threads_keepalive s"
  "submitted (goto s i p) = submitted s" "taken (goto s i p) = taken s"
  "executed (goto s i p) = executed s" "held (goto s i p) = held s"
  "sig_pending (goto s i p) = sig_pending s" "threads_on_hold (goto s i p) = threads_on_hold s"
  by (simp_all add: goto_def)

text \<open>Waking up changes no class except asleep or checking.\<close>

definition wakes :: "nat \<Rightarrow> (nat \<Rightarrow> wpc) \<Rightarrow> (nat \<Rightarrow> wpc) \<Rightarrow> bool" where
  "wakes n w w' \<longleftrightarrow> w' = w \<or> woken n w w' \<or> w' = wake_all w"

lemma wakes_eq: "wakes n w w' \<Longrightarrow> f W_sleep = f W_check \<Longrightarrow> f (w' j) = f (w j)"
  by (auto simp: wakes_def woken_def wake_all_def)

lemma wakes_classes:
  assumes "wakes n w w'"
  shows "alive_pc (w' j) = alive_pc (w j)" "busy (w' j) = busy (w j)" "token (w' j) = token (w j)"
    "ending (w' j) = ending (w j)" "unborn (w' j) = unborn (w j)" "job_of (w' j) = job_of (w j)"
    "running (w' j) = running (w j)" "cnt alive_pc m w' = cnt alive_pc m w" "cnt busy m w' = cnt busy m w"
proof -
  note eq = wakes_eq [OF assms]
  show "alive_pc (w' j) = alive_pc (w j)" "busy (w' j) = busy (w j)" "token (w' j) = token (w j)"
    "ending (w' j) = ending (w j)" "unborn (w' j) = unborn (w j)" "job_of (w' j) = job_of (w j)"
    "running (w' j) = running (w j)"
    using eq [of alive_pc] eq [of busy] eq [of token] eq [of ending] eq [of unborn] eq [of job_of]
      eq [of running] by simp_all
  show "cnt alive_pc m w' = cnt alive_pc m w" "cnt busy m w' = cnt busy m w"
    using eq [of alive_pc] eq [of busy] by (simp_all add: cnt_def)
qed

lemma pull_wakes:
  "(if c then w' = w else woken n w w') \<Longrightarrow> wakes n w w'"
  by (auto simp: wakes_def split: if_splits)

lemma wakes_intros [intro]: "woken n w w' \<Longrightarrow> wakes n w w'" "wakes n w (wake_all w)" "wakes n w w"
  by (simp_all add: wakes_def)

lemma worker_nthreads: "worker_step i s t \<Longrightarrow> nthreads t = nthreads s"
  by (induction rule: worker_step.induct) (simp_all add: pool_simps)

lemma client_nthreads: "client_step s t \<Longrightarrow> nthreads t = nthreads s"
  by (induction rule: client_step.induct) simp_all

lemma env_nthreads: "env_step s t \<Longrightarrow> nthreads t = nthreads s"
  by (induction rule: env_step.induct) (simp_all add: pool_simps)

lemma step_nthreads: "pool_step s t \<Longrightarrow> nthreads t = nthreads s"
  by (erule pool_step.cases) (simp_all add: worker_nthreads client_nthreads env_nthreads)

definition inv_ctl :: "pool \<Rightarrow> bool" where
  "inv_ctl s \<longleftrightarrow>
     num_threads_alive s = cnt alive_pc (nthreads s) (wpcs s)
   \<and> num_threads_working s = cnt busy (nthreads s) (wpcs s)
   \<and> threads_keepalive s = (client s \<noteq> C_kill \<and> client s \<noteq> C_gone)
   \<and> (threads_keepalive s \<longrightarrow> (\<forall>i < nthreads s. \<not> ending (wpcs s i)))
   \<and> (client s \<noteq> C_init \<longrightarrow> (\<forall>i < nthreads s. \<not> unborn (wpcs s i)))
   \<and> (client s = C_gone \<longrightarrow> num_threads_alive s = 0)"

text \<open>Which threads exist after the loop, and when it gets to its end.\<close>

definition prepared :: "thread_env \<Rightarrow> bool" where
  "prepared E \<longleftrightarrow> malloc_ok E \<and> attr_init_ok E \<and> stacksize_ok E"

lemma create_threads_result:
  "create_threads E n =
     (if \<exists>i < n. prepared (E i) \<and> \<not> create_ok (E i) then Inl Uninitialised
      else Inr (\<lambda>i. if i < n \<and> prepared (E i) then W_start else W_absent))"
proof (induction n)
  case (Suc n)
  then show ?case
    by (auto simp: thread_init_def prepared_def less_Suc_eq fun_eq_iff)
qed simp

lemma thpool_init_state:
  assumes "thpool_init E k = Inr (Some s)"
  shows "wpcs s = (\<lambda>i. if i < nthreads s \<and> prepared (thread_envs E i) then W_start else W_absent)"
    and "nthreads s = nat k" and "client s = C_init" and "num_threads_alive s = 0" and "held s = (\<lambda>i. False)"
    and "\<forall>i < nthreads s. prepared (thread_envs E i) \<longrightarrow> create_ok (thread_envs E i)"
  using assms
  by (auto simp: thpool_init_def Let_def cbind_eq_Inr_iff create_threads_result split: if_splits)

lemma inv_ctl_init: "pool_init s \<Longrightarrow> inv_ctl s"
proof -
  assume "pool_init s"
  then obtain E k where E: "thpool_init E k = Inr (Some s)" by (auto simp: pool_init_def)
  then have "\<forall>i. wpcs s i = W_start \<or> wpcs s i = W_absent"
    by (simp add: thpool_init_state(1))
  then have "\<forall>i. \<not> alive_pc (wpcs s i) \<and> \<not> busy (wpcs s i) \<and> \<not> ending (wpcs s i)"
    by (metis alive_pc.simps(1,2) busy.simps(5,6) ending.simps(4,5))
  with E show ?thesis
    by (auto simp: inv_ctl_def cnt_zero_iff thpool_init_def Let_def cbind_eq_Inr_iff split: if_splits)
qed

lemma inv_ctl_worker:
  assumes "worker_step i s t" and "i < nthreads s" and "inv_ctl s"
  shows "inv_ctl t"
  using assms
proof (cases rule: worker_step.cases)
  case (pull_some a h' q' j w')
  from wakes_classes [OF pull_wakes [OF pull_some(5)]] pull_some assms(2,3) show ?thesis
    by (auto simp: inv_ctl_def pool_simps)
next
  case exit
  have "0 < cnt alive_pc (nthreads s) (wpcs s)" 
    using exit(2) assms(2) cnt_pos [of i "nthreads s" alive_pc "wpcs s"] by simp
  with exit assms(2,3) show ?thesis by (auto simp: inv_ctl_def pool_simps)
qed (auto simp: inv_ctl_def pool_simps lock_free_def split: if_splits)

lemma inv_ctl_client:
  assumes "client_step s t" and "inv_ctl s"
  shows "inv_ctl t"
  using assms
proof (cases rule: client_step.cases)
  case init_done
  have "\<forall>i < nthreads s. alive_pc (wpcs s i)"
    using init_done assms(2) cnt_all_iff [of alive_pc "nthreads s" "wpcs s"] by (simp add: inv_ctl_def)
  then have "\<forall>i < nthreads s. \<not> unborn (wpcs s i)"
    by (metis alive_pc.simps(1,2) unborn.elims(2))
  with init_done assms(2) show ?thesis by (simp add: inv_ctl_def)
next
  case (add_work a g f x h' q' w')
  from wakes_classes [OF wakes_intros(1) [OF add_work(5)]] add_work assms(2) show ?thesis
    by (auto simp: inv_ctl_def)
next
  case (destroy_post v)
  from wakes_classes [OF wakes_intros(2) [of "nthreads s" "wpcs s"]] destroy_post assms(2)
  show ?thesis by (auto simp: inv_ctl_def)
qed (auto simp: inv_ctl_def split: if_splits)

lemma inv_ctl_env:
  assumes "env_step s t" and "inv_ctl s"
  shows "inv_ctl t"
  using assms by (cases rule: env_step.cases) (auto simp: inv_ctl_def pool_simps)

interpretation control: invariant_system pool_init pool_step inv_ctl
proof
  show "inv_ctl t" if "inv_ctl s" "pool_step s t" for s t
    using that(2,1) by cases (blast intro: inv_ctl_worker inv_ctl_client inv_ctl_env)+
qed (rule inv_ctl_init)

section \<open>Memory invariant\<close>

definition payload :: "job_heap \<Rightarrow> nat \<Rightarrow> string \<times> nat" where
  "payload h a = (func (the (h a)), args (the (h a)))"

lemma payload_same_jobs:
  assumes "same_jobs h h'" and "h a \<noteq> None"
  shows "payload h' a = payload h a"
proof -
  have "map_option (\<lambda>j. (func j, args j)) (h' a) = map_option (\<lambda>j. (func j, args j)) (h a)"
    using assms(1) by (simp add: same_jobs_def)
  with assms(2) show ?thesis by (cases "h a"; cases "h' a") (simp_all add: payload_def)
qed

text \<open>
  The queue is well formed and holds the jobs \<open>xs\<close>; the allocated jobs are exactly the
  queued ones and the ones a worker holds; no job is in two places.
\<close>

definition inv_mem :: "pool \<Rightarrow> nat list \<Rightarrow> bool" where
  "inv_mem s xs \<longleftrightarrow>
     queue_of (heap s, queue s) xs \<and> int (length xs) \<le> INT_MAX
   \<and> dom (heap s) = set xs \<union> {a. \<exists>i < nthreads s. job_of (wpcs s i) = Some a}
   \<and> (\<forall>i < nthreads s. \<forall>a. job_of (wpcs s i) = Some a \<longrightarrow> a \<notin> set xs)
   \<and> (\<forall>i < nthreads s. \<forall>j < nthreads s. \<forall>a.
        job_of (wpcs s i) = Some a \<longrightarrow> job_of (wpcs s j) = Some a \<longrightarrow> i = j)"

lemma inv_mem_queue:
  assumes "inv_mem s xs"
  shows "queue_of (heap s, queue s) xs" "int (length xs) \<le> INT_MAX"
  using assms by (simp_all add: inv_mem_def)

lemma inv_memD:
  assumes "inv_mem s xs"
  shows "queue_of (heap s, queue s) xs" "int (length xs) \<le> INT_MAX"
    "dom (heap s) = set xs \<union> {a. \<exists>i < nthreads s. job_of (wpcs s i) = Some a}"
    "\<And>i a. i < nthreads s \<Longrightarrow> job_of (wpcs s i) = Some a \<Longrightarrow> a \<notin> set xs"
    "\<And>i j a. i < nthreads s \<Longrightarrow> j < nthreads s \<Longrightarrow> job_of (wpcs s i) = Some a \<Longrightarrow>
        job_of (wpcs s j) = Some a \<Longrightarrow> i = j"
  using assms unfolding inv_mem_def by blast+

lemma inv_memI:
  assumes "queue_of (heap s, queue s) xs" "int (length xs) \<le> INT_MAX"
    "dom (heap s) = set xs \<union> {a. \<exists>i < nthreads s. job_of (wpcs s i) = Some a}"
    "\<And>i a. i < nthreads s \<Longrightarrow> job_of (wpcs s i) = Some a \<Longrightarrow> a \<notin> set xs"
    "\<And>i j a. i < nthreads s \<Longrightarrow> j < nthreads s \<Longrightarrow> job_of (wpcs s i) = Some a \<Longrightarrow>
        job_of (wpcs s j) = Some a \<Longrightarrow> i = j"
  shows "inv_mem s xs"
  unfolding inv_mem_def using assms by blast

lemma inv_mem_frame:
  assumes "inv_mem s xs" and "heap t = heap s" and "queue_of (heap s, queue t) xs"
    and "nthreads t = nthreads s" and "\<And>j. job_of (wpcs t j) = job_of (wpcs s j)"
  shows "inv_mem t xs"
  using assms by (simp add: inv_mem_def)

lemma queue_of_bsem: "queue_of (h, q) xs \<Longrightarrow> queue_of (h, q\<lparr>bsem_has_job := Some v\<rparr>) xs"
  by (simp add: queue_of_def)

lemma job_of_goto: "job_of p = job_of (w i) \<Longrightarrow> job_of ((w(i := p)) j) = job_of (w j)"
  by simp

lemma inv_mem_goto:
  assumes "inv_mem s xs" and "heap t = heap s" and "queue t = queue s" and "nthreads t = nthreads s"
    and "wpcs t = (wpcs s)(i := p)" and "job_of p = job_of (wpcs s i)"
  shows "inv_mem t xs"
  using assms inv_mem_queue(1) [OF assms(1)] by (intro inv_mem_frame [OF assms(1)]) simp_all

lemma pull_result:
  assumes "queue_of (h, q) xs" and "int (length xs) \<le> INT_MAX" and "jobqueue_pull (h, q) = Inr (r, (h', q'))"
  shows "h' = h" and "queue_of (h, q') (tl xs)" and "r = (if xs = [] then None else Some (hd xs))"
    and "bsem_has_job q' = (if length xs \<le> 1 then bsem_has_job q else Some 1)"
proof -
  have "h' = h \<and> queue_of (h, q') (tl xs) \<and> r = (if xs = [] then None else Some (hd xs))
    \<and> bsem_has_job q' = (if length xs \<le> 1 then bsem_has_job q else Some 1)"
  proof (cases xs)
    case Nil
    with assms jobqueue_pull_empty [of h q] show ?thesis by simp
  next
    case (Cons x ys)
    with assms jobqueue_pull_first [of h q x ys] show ?thesis by auto
  qed
  then show "h' = h" and "queue_of (h, q') (tl xs)" and "r = (if xs = [] then None else Some (hd xs))"
    and "bsem_has_job q' = (if length xs \<le> 1 then bsem_has_job q else Some 1)" by simp_all
qed

lemma owned_upd:
  "i < (n :: nat) \<Longrightarrow> {b. \<exists>j < n. (if j = i then v else f j) = Some b} = set_option v \<union> {b. \<exists>j < n. j \<noteq> i \<and> f j = Some b}"
  by auto

lemma owned_drop: "f i = None \<Longrightarrow> {b. \<exists>j < n. j \<noteq> i \<and> f j = Some b} = {b. \<exists>j < (n :: nat). f j = Some b}"
  by (rule Collect_cong) (metis option.distinct(1))

lemma inv_mem_pull:
  assumes "inv_mem s (a # xs)" and "i < nthreads s" and "wpcs s i = W_pull"
    and "heap t = heap s" and "queue_of (heap s, queue t) xs" and "nthreads t = nthreads s"
    and w: "\<And>j. job_of (wpcs t j) = job_of (((wpcs s)(i := W_run a)) j)"
  shows "inv_mem t xs"
proof -
  have job: "job_of (wpcs t j) = (if j = i then Some a else job_of (wpcs s j))" for j
    using w [of j] by simp
  have a: "\<And>j. j < nthreads s \<Longrightarrow> job_of (wpcs s j) \<noteq> Some a" "a \<notin> set xs" "job_of (wpcs s i) = None"
    using assms(1,3) by (auto simp: inv_mem_def queue_of_def)
  note s = inv_memD [OF assms(1)]
  show ?thesis
  proof (rule inv_memI)
    show "queue_of (heap t, queue t) xs" using assms(4,5) by simp
    show "int (length xs) \<le> INT_MAX" using s(2) by simp
    show "dom (heap t) = set xs \<union> {b. \<exists>j < nthreads t. job_of (wpcs t j) = Some b}"
      unfolding assms(4,6) s(3) job owned_upd [OF assms(2)] 
      using a(3) owned_drop [of "\<lambda>j. job_of (wpcs s j)" i] by auto
    show "b \<notin> set xs" if "j < nthreads t" "job_of (wpcs t j) = Some b" for j b
      using s(4) [of j b] a(2) assms(6) that by (auto simp: job split: if_splits)
    show "j = k" if "j < nthreads t" "k < nthreads t" "job_of (wpcs t j) = Some b"
      "job_of (wpcs t k) = Some b" for j k b
      using s(5) [of j k b] a(1) [of j] a(1) [of k] assms(6) that by (auto simp: job split: if_splits)
  qed
qed

lemma inv_mem_free:
  assumes "inv_mem s xs" and "i < nthreads s" and "wpcs s i = W_free a"
    and "heap t = (heap s)(a := None)" and "queue t = queue s" and "nthreads t = nthreads s"
    and "wpcs t = (wpcs s)(i := W_done)"
  shows "inv_mem t xs"
proof -
  have job: "job_of (wpcs t j) = (if j = i then None else job_of (wpcs s j))" for j
    using assms(7) by simp
  note s = inv_memD [OF assms(1)]
  have a: "a \<notin> set xs" "\<And>j. j < nthreads s \<Longrightarrow> j \<noteq> i \<Longrightarrow> job_of (wpcs s j) \<noteq> Some a"
  proof -
    have i: "job_of (wpcs s i) = Some a" using assms(3) by simp
    show "a \<notin> set xs" using s(4) [OF assms(2) i] .
    show "job_of (wpcs s j) \<noteq> Some a" if "j < nthreads s" "j \<noteq> i" for j
      using s(5) [OF assms(2) that(1) i] that(2) by auto
  qed
  show ?thesis
  proof (rule inv_memI)
    show "queue_of (heap t, queue t) xs"
      using a(1) s(1) assms(4,5) by (auto simp: queue_of_def chain_frame)
    show "int (length xs) \<le> INT_MAX" by (rule s(2))
    have "dom (heap t) = dom (heap s) - {a}" using assms(4) by auto
    also have "\<dots> = set xs \<union> {b. \<exists>j < nthreads t. job_of (wpcs t j) = Some b}"
      unfolding s(3) assms(6) job owned_upd [OF assms(2)] using a assms(2,3) by auto
    finally show "dom (heap t) = set xs \<union> {b. \<exists>j < nthreads t. job_of (wpcs t j) = Some b}" .
    show "b \<notin> set xs" if "j < nthreads t" "job_of (wpcs t j) = Some b" for j b
      using s(4) [of j b] assms(6) that by (auto simp: job split: if_splits)
    show "j = k" if "j < nthreads t" "k < nthreads t" "job_of (wpcs t j) = Some b"
      "job_of (wpcs t k) = Some b" for j k b
      using s(5) [of j k b] assms(6) that by (auto simp: job split: if_splits)
  qed
qed

lemma push_in_int: "jobqueue_push (h, q) a = Inr r \<Longrightarrow> in_int (len q + 1)"
  by (auto simp: jobqueue_push_def Let_def cbind_eq_Inr_iff c_int_eq_Inr_iff split: if_splits prod.splits)

lemma add_work_result:
  assumes "queue_of (h, q) xs" and "h a = None" and "thpool_add_work (Some a) g (h, q) f x = Inr (0, (h', q'))"
  shows "queue_of (h', q') (xs @ [a])" and "int (length (xs @ [a])) \<le> INT_MAX"
    and "dom h' = insert a (dom h)" and "payload h' a = (f, x)"
    and "h b \<noteq> None \<Longrightarrow> payload h' b = payload h b" and "bsem_has_job q' = Some 1"
proof -
  let ?h = "h(a \<mapsto> \<lparr>prev = g, func = f, args = x\<rparr>)"
  from assms(3) have push: "jobqueue_push (?h, q) a = Inr (h', q')"
    by (auto simp: thpool_add_work_def cbind_eq_Inr_iff)
  have len: "int (length xs) < INT_MAX"
    using push_in_int [OF push] assms(1) by (auto simp: queue_of_def int_range_defs)
  have a: "a \<notin> set xs" using assms(1,2) chain_allocated by (fastforce simp: queue_of_def)
  then have q: "queue_of (?h, q) xs" using assms(1) by (auto simp: queue_of_def chain_frame)
  from jobqueue_push_ok [OF q _ a len] push have r: "queue_of (h', q') (xs @ [a])" "same_jobs ?h h'"
    "bsem_has_job q' = Some 1" by auto
  show "queue_of (h', q') (xs @ [a])" "int (length (xs @ [a])) \<le> INT_MAX" "bsem_has_job q' = Some 1"
    using r len by simp_all
  show "dom h' = insert a (dom h)"
    using same_jobs_allocated [OF r(2)] by (auto simp: dom_def split: if_splits)
  show "payload h' a = (f, x)" using payload_same_jobs [OF r(2), of a] by (simp add: payload_def)
  show "payload h' b = payload h b" if "h b \<noteq> None"
    using payload_same_jobs [OF r(2), of b] that assms(2) by (cases "b = a") (auto simp: payload_def)
qed

lemma inv_mem_worker:
  assumes "worker_step i s t" and "i < nthreads s" and "inv_mem s xs"
  shows "inv_mem t (if wpcs s i = W_pull then tl xs else xs)"
  using assms(1)
proof (cases rule: worker_step.cases)
  case (sem_take v v')
  have "inv_mem t xs"
    using sem_take queue_of_bsem [OF inv_mem_queue(1) [OF assms(3)]]
    by (intro inv_mem_frame [OF assms(3)]) (simp_all add: pool_simps)
  with sem_take(2) show ?thesis by simp
next
  case (pull_none h' q')
  from pull_result [OF inv_mem_queue [OF assms(3)] pull_none(3)] have "h' = heap s" "xs = []"
    "queue_of (heap s, q') xs" by (auto split: if_splits)
  moreover from this have "inv_mem t xs" using pull_none
    by (intro inv_mem_frame [OF assms(3)]) (simp_all add: pool_simps)
  ultimately show ?thesis by simp
next
  case (pull_some a h' q' j w')
  from pull_result [OF inv_mem_queue [OF assms(3)] pull_some(3)] have r: "h' = heap s"
    "queue_of (heap s, q') (tl xs)" "xs = a # tl xs" by (auto split: if_splits)
  note w = wakes_classes(6) [OF pull_wakes [OF pull_some(5)]]
  have "inv_mem s (a # tl xs)" using assms(3) r(3) by simp
  then have "inv_mem t (tl xs)"
    using assms(2) pull_some(2) by (rule inv_mem_pull) (use pull_some r w in simp_all)
  with pull_some(2) show ?thesis by simp
next
  case (run a j)
  then show ?thesis using assms(3)
    by (auto intro!: inv_mem_goto [OF assms(3), where i = i and p = "W_free a"] simp: pool_simps)
next
  case (free a h')
  have "heap t = (heap s)(a := None)"
    using free by (auto simp: free_job_def split: option.splits)
  then have "inv_mem t xs"
    by (intro inv_mem_free [OF assms(3,2) free(2)]) (use free in \<open>simp_all add: pool_simps\<close>)
  with free(2) show ?thesis by simp
qed (auto intro!: inv_mem_goto [OF assms(3)] simp: pool_simps)

lemma inv_mem_add_work:
  assumes "inv_mem s xs" and "heap s a = None"
    and "thpool_add_work (Some a) g (heap s, queue s) f x = Inr (0, (heap t, queue t))"
    and "wakes (nthreads s) (wpcs s) (wpcs t)" and "nthreads t = nthreads s"
  shows "inv_mem t (xs @ [a])"
proof -
  note s = inv_memD [OF assms(1)] and r = add_work_result [OF inv_memD(1) [OF assms(1)] assms(2,3)]
  note w = wakes_classes(6) [OF assms(4)]
  have a: "a \<notin> dom (heap s)" using assms(2) by auto
  show ?thesis
  proof (rule inv_memI)
    show "dom (heap t) = set (xs @ [a]) \<union> {b. \<exists>i < nthreads t. job_of (wpcs t i) = Some b}"
      unfolding r(3) s(3) w assms(5) by auto
    show "b \<notin> set (xs @ [a])" if "i < nthreads t" "job_of (wpcs t i) = Some b" for i b
    proof -
      have "b \<in> dom (heap s)" unfolding s(3) using that assms(5) w by auto
      with a s(4) [of i b] that assms(5) w show ?thesis by auto
    qed
    show "i = j" if "i < nthreads t" "j < nthreads t" "job_of (wpcs t i) = Some b"
      "job_of (wpcs t j) = Some b" for i j b
      using s(5) [of i j b] that assms(5) w by simp
  qed (rule r(1), rule r(2))
qed

lemma inv_mem_same:
  "inv_mem s xs \<Longrightarrow> heap t = heap s \<Longrightarrow> queue t = queue s \<Longrightarrow> nthreads t = nthreads s \<Longrightarrow>
   wakes (nthreads s) (wpcs s) (wpcs t) \<Longrightarrow> inv_mem t xs"
  by (rule inv_mem_frame [of s xs t]) (simp_all add: inv_memD(1) wakes_classes(6))

end
