(* ===== verification/Pool_Wait.thy ===== *)
theory Pool_Wait
  imports Thread_Pool
begin

text \<open>
  What a client of the thread pool can rely on: the histories of submitted, taken and executed
  jobs, the wake-up discipline of the semaphore, and from them that \<^verbatim>\<open>thpool_wait\<close> returns,
  and returns only when every submitted job has been executed.
\<close>

section \<open>The histories\<close>

definition own :: "nat \<Rightarrow> (nat \<times> 'a) list \<Rightarrow> (nat \<times> 'a) list" where
  "own i es = filter (\<lambda>e. fst e = i) es"

lemma own_simps [simp]:
  "own i [] = []" "own i (es @ fs) = own i es @ own i fs"
  "own i [(j, x)] = (if j = i then [(j, x)] else [])"
  by (simp_all add: own_def)

definition inv_log :: "pool \<Rightarrow> nat list \<Rightarrow> bool" where
  "inv_log s xs \<longleftrightarrow>
     submitted s = map snd (taken s) @ map (payload (heap s)) xs
   \<and> (\<forall>i < nthreads s. own i (taken s) = own i (executed s)
        @ (case running (wpcs s i) of None \<Rightarrow> [] | Some a \<Rightarrow> [(i, payload (heap s) a)]))
   \<and> (\<forall>e \<in> set (taken s) \<union> set (executed s). fst e < nthreads s)"

lemma inv_log_frame:
  assumes "inv_log s xs" and "submitted t = submitted s" and "taken t = taken s"
    and "executed t = executed s" and "nthreads t = nthreads s"
    and "\<And>j. running (wpcs t j) = running (wpcs s j)"
    and "\<And>a. a \<in> set xs \<Longrightarrow> payload (heap t) a = payload (heap s) a"
    and "\<And>j a. j < nthreads s \<Longrightarrow> running (wpcs s j) = Some a \<Longrightarrow> payload (heap t) a = payload (heap s) a"
  shows "inv_log t xs"
  unfolding inv_log_def
proof (intro conjI allI impI)
  show "submitted t = map snd (taken t) @ map (payload (heap t)) xs"
    using assms(1-3,7) by (simp add: inv_log_def)
  show "own i (taken t) = own i (executed t)
        @ (case running (wpcs t i) of None \<Rightarrow> [] | Some a \<Rightarrow> [(i, payload (heap t) a)])"
    if "i < nthreads t" for i
    using assms(1,3-6) assms(8) [of i] that by (auto simp: inv_log_def split: option.splits)
  show "\<forall>e \<in> set (taken t) \<union> set (executed t). fst e < nthreads t"
    using assms(1,3-5) by (simp add: inv_log_def)
qed

lemma inv_log_same:
  "inv_log s xs \<Longrightarrow> heap t = heap s \<Longrightarrow> submitted t = submitted s \<Longrightarrow> taken t = taken s \<Longrightarrow>
   executed t = executed s \<Longrightarrow> nthreads t = nthreads s \<Longrightarrow>
   (\<And>j. running (wpcs t j) = running (wpcs s j)) \<Longrightarrow> inv_log t xs"
  by (erule inv_log_frame) simp_all

lemma inv_log_taken:
  assumes "inv_log s (a # xs)" and "i < nthreads s" and "running (wpcs s i) = None"
    and "\<And>j. running (wpcs t j) = (if j = i then Some a else running (wpcs s j))"
    and "heap t = heap s" and "taken t = taken s @ [(i, payload (heap s) a)]"
    and "submitted t = submitted s" and "executed t = executed s" and "nthreads t = nthreads s"
  shows "inv_log t xs"
  using assms by (auto simp: inv_log_def split: option.splits)

lemma inv_log_executed:
  assumes "inv_log s xs" and "i < nthreads s" and "running (wpcs s i) = Some a"
    and "\<And>j. running (wpcs t j) = (if j = i then None else running (wpcs s j))"
    and "heap t = heap s" and "executed t = executed s @ [(i, payload (heap s) a)]"
    and "submitted t = submitted s" and "taken t = taken s" and "nthreads t = nthreads s"
  shows "inv_log t xs"
  using assms by (auto simp: inv_log_def split: option.splits)

lemma running_job_of: "running p = Some a \<Longrightarrow> job_of p = Some a"
  by (cases p) simp_all

lemma payload_upd_other: "a \<noteq> b \<Longrightarrow> payload (h(b := v)) a = payload h a"
  by (simp add: payload_def)

lemma inv_log_worker:
  assumes "worker_step i s t" and "i < nthreads s" and "inv_mem s xs" and "inv_log s xs"
  shows "inv_log t (if wpcs s i = W_pull then tl xs else xs)"
  using assms(1)
proof (cases rule: worker_step.cases)
  case (pull_none h' q')
  from pull_result [OF inv_mem_queue [OF assms(3)] pull_none(3)] have "h' = heap s" "xs = []"
    by (auto split: if_splits)
  moreover from this have "inv_log t xs" using pull_none
    by (intro inv_log_same [OF assms(4)]) (simp_all add: pool_simps)
  ultimately show ?thesis by simp
next
  case (pull_some a h' q' j w')
  from pull_result [OF inv_mem_queue [OF assms(3)] pull_some(3)] have r: "h' = heap s"
    "xs = a # tl xs" by (auto split: if_splits)
  note w = wakes_classes(7) [OF pull_wakes [OF pull_some(5)]]
  have "inv_log s (a # tl xs)" using assms(4) r(2) by simp
  then have "inv_log t (tl xs)" using assms(2)
    by (rule inv_log_taken [of s a "tl xs" i t]) (use pull_some r w in \<open>simp_all add: payload_def\<close>)
  with pull_some(2) show ?thesis by simp
next
  case (run a j)
  have "inv_log t xs" using assms(4,2)
    by (rule inv_log_executed [of s xs i a t]) (use run in \<open>simp_all add: payload_def pool_simps\<close>)
  with run(2) show ?thesis by simp
next
  case (free a h')
  note m = inv_memD [OF assms(3)]
  have i: "job_of (wpcs s i) = Some a" using free(2) by simp
  have h: "heap t = (heap s)(a := None)" using free by (auto simp: free_job_def split: option.splits)
  have "inv_log t xs" using assms(4)
  proof (rule inv_log_frame)
    show "payload (heap t) b = payload (heap s) b" if "b \<in> set xs" for b
      unfolding h using m(4) [OF assms(2) i] that by (intro payload_upd_other) auto
    show "payload (heap t) b = payload (heap s) b" if "j < nthreads s" "running (wpcs s j) = Some b" for j b
    proof -
      have "b \<noteq> a" using m(5) [OF that(1) assms(2) running_job_of [OF that(2)]] i that(2) free(2) by auto
      then show ?thesis unfolding h by (rule payload_upd_other)
    qed
  qed (use free in \<open>simp_all add: pool_simps\<close>)
  with free(2) show ?thesis by simp
qed (auto intro!: inv_log_same [OF assms(4)] simp: pool_simps)

lemma inv_log_add_work:
  assumes "inv_log s xs" and "inv_mem s xs" and "heap s a = None"
    and "thpool_add_work (Some a) g (heap s, queue s) f x = Inr (0, (heap t, queue t))"
    and "wakes (nthreads s) (wpcs s) (wpcs t)" and "nthreads t = nthreads s"
    and "submitted t = submitted s @ [(f, x)]" and "taken t = taken s" and "executed t = executed s"
  shows "inv_log t (xs @ [a])"
proof -
  note m = inv_memD [OF assms(2)] and r = add_work_result [OF inv_memD(1) [OF assms(2)] assms(3,4)]
  have frame: "payload (heap t) b = payload (heap s) b"
    if "b \<in> set xs \<or> (\<exists>j < nthreads s. running (wpcs s j) = Some b)" for b
  proof -
    have "b \<in> dom (heap s)" unfolding m(3) using that running_job_of by auto
    then show ?thesis by (intro r(5)) auto
  qed
  let ?t = "t\<lparr>submitted := submitted s\<rparr>"
  have "inv_log ?t xs" using assms(1)
    by (rule inv_log_frame) (use assms frame in \<open>auto simp: wakes_classes(7) [OF assms(5)]\<close>)
  with assms(7) r(4) show ?thesis by (simp add: inv_log_def cong: option.case_cong)
qed

section \<open>Wake-ups\<close>

text \<open>
  The value of the semaphore is 0 or 1. While the pool is in use and jobs are queued, the
  semaphore is up or some worker is on its way to the queue. When the semaphore is up, some
  worker is about to test it, or no worker is asleep. What the client has seen in
  \<^verbatim>\<open>thpool_wait\<close> still holds.
\<close>

definition sem_value :: "pool \<Rightarrow> int" where
  "sem_value s = the (bsem_has_job (queue s))"

definition coming :: "nat \<Rightarrow> (nat \<Rightarrow> wpc) \<Rightarrow> bool" where
  "coming n w \<longleftrightarrow> (\<exists>i < n. token (w i))"

definition alert :: "nat \<Rightarrow> (nat \<Rightarrow> wpc) \<Rightarrow> bool" where
  "alert n w \<longleftrightarrow> (\<exists>i < n. w i = W_check) \<or> (\<forall>i < n. w i \<noteq> W_sleep)"

definition inv_live :: "pool \<Rightarrow> bool" where
  "inv_live s \<longleftrightarrow>
     (bsem_has_job (queue s) = Some 0 \<or> bsem_has_job (queue s) = Some 1)
   \<and> (threads_keepalive s \<longrightarrow> len (queue s) \<noteq> 0 \<longrightarrow> sem_value s = 1 \<or> coming (nthreads s) (wpcs s))
   \<and> (sem_value s = 1 \<longrightarrow> alert (nthreads s) (wpcs s))
   \<and> (client s = C_chk \<longrightarrow> len (queue s) = 0)
   \<and> (client s = C_presleep \<or> client s = C_sleep \<longrightarrow> len (queue s) \<noteq> 0 \<or> num_threads_working s \<noteq> 0)"

lemma coming_upd: "coming n w \<Longrightarrow> token (w i) \<longrightarrow> token p \<Longrightarrow> coming n (w(i := p))"
  unfolding coming_def by (metis fun_upd_apply)

lemma coming_intro: "i < n \<Longrightarrow> token p \<Longrightarrow> coming n (w(i := p))"
  unfolding coming_def by (metis fun_upd_same)

lemma alert_upd:
  assumes "alert n w" and "w i \<noteq> W_check" and "p \<noteq> W_sleep"
  shows "alert n (w(i := p))"
proof (cases "\<exists>j < n. w j = W_check")
  case True
  then obtain j where "j < n" "w j = W_check" by blast
  moreover from this assms(2) have "j \<noteq> i" by auto
  ultimately show ?thesis unfolding alert_def by (metis fun_upd_other)
next
  case False
  with assms(1,3) show ?thesis by (simp add: alert_def)
qed

lemma alert_intro: "i < n \<Longrightarrow> alert n (w(i := W_check))"
  unfolding alert_def by (metis fun_upd_same)

lemma alert_woken: "woken n w w' \<Longrightarrow> alert n w'"
  unfolding woken_def using alert_intro by (auto simp: alert_def)

lemma alert_wake_all: "alert n (wake_all w)"
  by (simp add: alert_def wake_all_def)

lemma coming_wakes: "wakes n w w' \<Longrightarrow> coming n w' = coming n w"
  by (simp add: coming_def wakes_classes(3))

lemma bsem_wait_simps: "bsem_wait v = Some v' \<longleftrightarrow> v = 1 \<and> v' = 0" "bsem_wait v = None \<longleftrightarrow> v \<noteq> 1"
  by (auto simp: bsem_wait_def)

text \<open>A step of a worker that leaves the queue, the semaphore and the client alone.\<close>

lemma inv_live_goto:
  assumes "inv_live s" and "wpcs t = (wpcs s)(i := p)"
    and "queue t = queue s" "client t = client s" "threads_keepalive t = threads_keepalive s" "nthreads t = nthreads s"
    and "threads_keepalive s \<Longrightarrow> len (queue s) \<noteq> 0 \<Longrightarrow> token (wpcs s i) \<longrightarrow> token p"
    and "wpcs s i \<noteq> W_check" and "p \<noteq> W_sleep"
    and "client s = C_presleep \<or> client s = C_sleep \<Longrightarrow> num_threads_working s \<noteq> 0 \<Longrightarrow> num_threads_working t \<noteq> 0"
  shows "inv_live t"
proof -
  have "sem_value t = sem_value s" using assms(3) by (simp add: sem_value_def)
  with assms show ?thesis
    using coming_upd [of "nthreads s" "wpcs s" i p] alert_upd [of "nthreads s" "wpcs s" i p]
    unfolding inv_live_def by (simp del: fun_upd_apply) blast
qed

lemma inv_live_sem_take:
  assumes "inv_live s" and "i < nthreads s"
    and "t = (goto s i W_got)\<lparr>queue := (queue s)\<lparr>bsem_has_job := Some 0\<rparr>\<rparr>"
  shows "inv_live t"
  using assms coming_intro [of i "nthreads s" W_got]
  by (simp add: inv_live_def sem_value_def pool_simps del: fun_upd_apply)

lemma inv_live_sem_sleep:
  assumes "inv_live s" and "wpcs s i = W_check" and "sem_value s \<noteq> 1" and "t = goto s i W_sleep"
  shows "inv_live t"
  using assms coming_upd [of "nthreads s" "wpcs s" i W_sleep]
  by (simp add: inv_live_def sem_value_def pool_simps del: fun_upd_apply)

lemma inv_live_pull_some:
  assumes "inv_live s" and "inv_ctl s" and "i < nthreads s" and "wpcs s i = W_pull"
    and "len (queue s) \<noteq> 0" and "len (queue t) = len (queue s) - 1"
    and "bsem_has_job (queue t) = (if len (queue s) = 1 then bsem_has_job (queue s) else Some 1)"
    and "if len (queue s) = 1 then wpcs t = (wpcs s)(i := W_run a)
         else woken (nthreads s) ((wpcs s)(i := W_run a)) (wpcs t)"
    and "nthreads t = nthreads s" and "client t = client s"
    and "num_threads_working t = num_threads_working s"
  shows "inv_live t"
proof -
  have busy: "num_threads_working t \<noteq> 0"
    using assms(2-4,11) cnt_pos [of i "nthreads s" busy "wpcs s"] by (auto simp: inv_ctl_def)
  have chk: "client t \<noteq> C_chk" using assms(1,5,10) by (auto simp: inv_live_def)
  show ?thesis
  proof (cases "len (queue s) = 1")
    case True
    with assms have eq: "sem_value t = sem_value s" "wpcs t = (wpcs s)(i := W_run a)" "len (queue t) = 0"
      by (simp_all add: sem_value_def)
    with True assms(1,4,7,9) busy chk alert_upd [of "nthreads s" "wpcs s" i "W_run a"] show ?thesis
      by (simp add: inv_live_def del: fun_upd_apply)
  next
    case False
    with assms(7-9) alert_woken [of "nthreads s" _ "wpcs t"] busy chk show ?thesis
      by (simp add: inv_live_def sem_value_def del: fun_upd_apply)
  qed
qed

lemma inv_live_finish:
  assumes "inv_live s" and "wpcs s i = W_done" and "lock_free s"
    and "t = (goto s i W_loop)\<lparr>num_threads_working := num_threads_working s - 1,
      client := (if num_threads_working s - 1 = 0 \<and> client s = C_sleep then C_wait else client s)\<rparr>"
  shows "inv_live t"
  using assms coming_upd [of "nthreads s" "wpcs s" i W_loop] alert_upd [of "nthreads s" "wpcs s" i W_loop]
  by (simp add: inv_live_def sem_value_def pool_simps lock_free_def del: fun_upd_apply) blast

lemma inv_live_worker:
  assumes "worker_step i s t" and "i < nthreads s" and "inv_ctl s" and "inv_mem s xs" and "inv_live s"
  shows "inv_live t"
  using assms(1)
proof (cases rule: worker_step.cases)
  case (sem_take v v')
  then show ?thesis by (intro inv_live_sem_take [OF assms(5,2)]) (simp add: bsem_wait_simps)
next
  case (sem_sleep v)
  then show ?thesis by (intro inv_live_sem_sleep [OF assms(5)]) (simp_all add: bsem_wait_simps sem_value_def)
next
  case (pull_none h' q')
  from pull_result [OF inv_mem_queue [OF assms(4)] pull_none(3)] inv_mem_queue(1) [OF assms(4)]
  have "len (queue s) = 0" by (auto simp: queue_of_def split: if_splits)
  moreover from this pull_none(3) have "q' = queue s" by (simp add: jobqueue_pull_def)
  ultimately show ?thesis
    using pull_none by (intro inv_live_goto [OF assms(5), of _ i W_done]) (simp_all add: pool_simps)
next
  case (pull_some a h' q' j w')
  note r = pull_result [OF inv_mem_queue [OF assms(4)] pull_some(3)]
  have xs: "xs \<noteq> []" "len (queue s) = int (length xs)" "len q' = int (length (tl xs))"
    using r(2,3) inv_mem_queue(1) [OF assms(4)] by (auto simp: queue_of_def)
  then have "len (queue s) \<noteq> 0" "len q' = len (queue s) - 1" "length xs \<le> 1 \<longleftrightarrow> len (queue s) = 1"
    by (cases xs; simp)+
  with r(4) pull_some show ?thesis
    by (intro inv_live_pull_some [OF assms(5,3,2) pull_some(2), of _ a]) simp_all
next
  case count
  have "0 \<le> num_threads_working s" using assms(3) cnt_nonneg by (simp add: inv_ctl_def)
  with count show ?thesis
    by (intro inv_live_goto [OF assms(5), of _ i W_pull]) (simp_all add: pool_simps)
next
  case (finish n)
  then show ?thesis by (intro inv_live_finish [OF assms(5)]) simp_all
qed (auto intro!: inv_live_goto [OF assms(5), where i = i] simp: pool_simps)

section \<open>The invariant\<close>

definition inv_run :: "pool \<Rightarrow> nat list \<Rightarrow> bool" where
  "inv_run s xs \<longleftrightarrow> inv_mem s xs \<and> inv_log s xs \<and> inv_live s"

text \<open>Once the pool has been destroyed nothing is allocated any more.\<close>

definition inv_pool :: "pool \<Rightarrow> bool" where
  "inv_pool s \<longleftrightarrow> inv_ctl s \<and> (if client s = C_gone then heap s = Map.empty else \<exists>xs. inv_run s xs)"

lemma inv_run_worker:
  assumes "worker_step i s t" and "i < nthreads s" and "inv_ctl s" and "inv_run s xs"
  shows "inv_run t (if wpcs s i = W_pull then tl xs else xs)"
  using assms inv_mem_worker [OF assms(1,2)] inv_log_worker [OF assms(1,2)] inv_live_worker [OF assms(1-3)]
  unfolding inv_run_def by blast

lemma gone_no_worker:
  assumes "inv_ctl s" and "client s = C_gone" and "i < nthreads s"
  shows "wpcs s i = W_unlock \<or> wpcs s i = W_dead"
proof -
  have "cnt alive_pc (nthreads s) (wpcs s) = 0" "\<not> unborn (wpcs s i)"
    using assms by (auto simp: inv_ctl_def)
  then have "\<not> alive_pc (wpcs s i)" using assms(3) by (simp add: cnt_zero_iff)
  with \<open>\<not> unborn (wpcs s i)\<close> show ?thesis by (cases "wpcs s i") simp_all
qed

lemma worker_not_gone:
  assumes "worker_step i s t" and "i < nthreads s" and "inv_ctl s"
  shows "client s \<noteq> C_gone"
proof
  assume gone: "client s = C_gone"
  from gone_no_worker [OF assms(3) gone assms(2)] show False
    using assms(1) gone by (auto elim!: worker_step.cases)
qed

lemma worker_client_gone: "worker_step i s t \<Longrightarrow> client t = C_gone \<Longrightarrow> client s = C_gone"
  by (erule worker_step.cases) (auto simp: pool_simps split: if_splits)

text \<open>Steps that change neither the queue, the threads' positions nor the histories.\<close>

lemma inv_run_quiet:
  assumes "inv_run s xs" and "heap t = heap s" "queue t = queue s" "nthreads t = nthreads s" "wpcs t = wpcs s"
    and "submitted t = submitted s" "taken t = taken s" "executed t = executed s"
    and "threads_keepalive t \<Longrightarrow> threads_keepalive s" and "num_threads_working t = num_threads_working s"
    and "client t = C_chk \<Longrightarrow> len (queue s) = 0"
    and "client t = C_presleep \<or> client t = C_sleep \<Longrightarrow> len (queue s) \<noteq> 0 \<or> num_threads_working s \<noteq> 0"
  shows "inv_run t xs"
  unfolding inv_run_def
proof (intro conjI)
  show "inv_mem t xs"
    by (rule inv_mem_same [of s]) (use assms(1-5) in \<open>simp_all add: inv_run_def wakes_def\<close>)
  show "inv_log t xs"
    by (rule inv_log_same [of s]) (use assms(1,2,4-8) in \<open>simp_all add: inv_run_def\<close>)
  show "inv_live t" using assms(1,3-5,9-12) unfolding inv_run_def inv_live_def sem_value_def by simp
qed

lemma inv_run_add_work:
  assumes "inv_run s xs" and "client s = C_idle" and "heap s a = None"
    and "thpool_add_work (Some a) g (heap s, queue s) f x = Inr (0, (h', q'))"
    and "woken (nthreads s) (wpcs s) w'"
  shows "inv_run (s\<lparr>heap := h', queue := q', wpcs := w', submitted := submitted s @ [(f, x)]\<rparr>) (xs @ [a])"
    (is "inv_run ?t _")
proof -
  have m: "inv_mem s xs" "inv_log s xs" using assms(1) by (simp_all add: inv_run_def)
  have w: "wakes (nthreads s) (wpcs s) w'" using assms(5) by (rule wakes_intros)
  have "inv_mem ?t (xs @ [a])" using m(1) assms(3) by (rule inv_mem_add_work) (use assms(4) w in simp_all)
  moreover have "inv_log ?t (xs @ [a])" using m(2,1) assms(3)
    by (rule inv_log_add_work) (use assms(4) w in simp_all)
  moreover have "inv_live ?t"
    using add_work_result(6) [OF inv_memD(1) [OF m(1)] assms(3,4)] alert_woken [OF assms(5)] assms(2)
    by (simp add: inv_live_def sem_value_def)
  ultimately show ?thesis by (simp add: inv_run_def)
qed

lemma inv_run_post_all:
  assumes "inv_run s xs" and "client s = C_kill" and "inv_ctl s"
  shows "inv_run (s\<lparr>queue := (queue s)\<lparr>bsem_has_job := Some (bsem_post_all v)\<rparr>, wpcs := wake_all (wpcs s)\<rparr>) xs"
    (is "inv_run ?t _")
proof -
  have m: "inv_mem s xs" "inv_log s xs" using assms(1) by (simp_all add: inv_run_def)
  note w = wakes_classes [OF wakes_intros(2) [of "nthreads s" "wpcs s"]]
  have "inv_mem ?t xs" using queue_of_bsem [OF inv_memD(1) [OF m(1)]] w(6)
    by (intro inv_mem_frame [OF m(1)]) simp_all
  moreover have "inv_log ?t xs" using w(7) by (intro inv_log_same [OF m(2)]) simp_all
  moreover have "inv_live ?t" using alert_wake_all assms(2,3)
    by (simp add: inv_live_def sem_value_def bsem_post_all_def inv_ctl_def)
  ultimately show ?thesis by (simp add: inv_run_def)
qed

lemma inv_mem_destroy:
  assumes "inv_mem s xs" and "\<forall>i < nthreads s. \<not> alive_pc (wpcs s i)"
  shows "\<exists>q'. jobqueue_destroy (heap s, queue s) = Inr (Map.empty, q')"
proof -
  note m = inv_memD [OF assms(1)]
  have "job_of (wpcs s i) = None" if "i < nthreads s" for i
    using assms(2) that by (cases "wpcs s i") auto
  then have d: "dom (heap s) = set xs" unfolding m(3) by force
  have "(\<lambda>a. if a \<in> set xs then None else heap s a) = Map.empty"
    unfolding d [symmetric] by (rule ext) (simp add: domIff)
  then show ?thesis using jobqueue_clear_ok [OF m(1,2)] by (simp add: jobqueue_destroy_def)
qed

lemma inv_pool_worker:
  assumes "worker_step i s t" and "i < nthreads s" and "inv_pool s"
  shows "inv_pool t"
proof -
  have c: "inv_ctl s" using assms(3) by (simp add: inv_pool_def)
  have g: "client s \<noteq> C_gone" by (rule worker_not_gone [OF assms(1,2) c])
  with assms(3) obtain xs where "inv_run s xs" by (auto simp: inv_pool_def)
  from inv_run_worker [OF assms(1,2) c this] g worker_client_gone [OF assms(1)] inv_ctl_worker [OF assms(1,2) c]
  show ?thesis by (auto simp: inv_pool_def)
qed

lemma inv_pool_client:
  assumes "client_step s t" and "inv_pool s"
  shows "inv_pool t"
proof -
  have c: "inv_ctl s" "inv_ctl t" using assms inv_ctl_client by (auto simp: inv_pool_def)
  have "client s \<noteq> C_gone" using assms(1) by (auto elim: client_step.cases)
  with assms(2) obtain xs where run: "inv_run s xs" by (auto simp: inv_pool_def)
  have live: "inv_live s" using run by (simp add: inv_run_def)
  from assms(1) have "if client t = C_gone then heap t = Map.empty else \<exists>xs. inv_run t xs"
  proof (cases rule: client_step.cases)
    case (add_work a g f x h' q' w')
    from inv_run_add_work [OF run add_work(2-5)] add_work(1,2) show ?thesis by auto
  next
    case (destroy_post v)
    from inv_run_post_all [OF run destroy_post(2) c(1)] destroy_post(1,2) show ?thesis by auto
  next
    case (destroy_free h' q')
    have "\<forall>i < nthreads s. \<not> alive_pc (wpcs s i)" using c(1) destroy_free(3)
      by (simp add: inv_ctl_def cnt_zero_iff)
    with run destroy_free inv_mem_destroy [of s xs] show ?thesis by (auto simp: inv_run_def)
  next
    case wait_len
    have "inv_run t xs" using run by (rule inv_run_quiet) (use wait_len in \<open>simp_all split: if_splits\<close>)
    with wait_len show ?thesis by auto
  next
    case wait_working
    have "inv_run t xs" using run
      by (rule inv_run_quiet) (use wait_working live in \<open>auto simp: inv_live_def split: if_splits\<close>)
    with wait_working show ?thesis by auto
  next
    case wait_sleep
    have "inv_run t xs" using run
      by (rule inv_run_quiet) (use wait_sleep live in \<open>auto simp: inv_live_def\<close>)
    with wait_sleep show ?thesis by auto
  qed (use inv_run_quiet [OF run, of t] in auto)
  with c(2) show ?thesis by (simp add: inv_pool_def)
qed

lemma inv_pool_env:
  assumes "env_step s t" and "inv_pool s"
  shows "inv_pool t"
proof -
  have c: "inv_ctl t" using assms inv_ctl_env by (auto simp: inv_pool_def)
  from assms(1) have "if client t = C_gone then heap t = Map.empty else \<exists>xs. inv_run t xs"
  proof (cases rule: env_step.cases)
    case (spurious_worker i)
    have g: "client s \<noteq> C_gone"
      using gone_no_worker [of s i] spurious_worker assms(2) by (auto simp: inv_pool_def)
    with assms(2) obtain xs where run: "inv_run s xs" by (auto simp: inv_pool_def)
    then have m: "inv_mem s xs" "inv_log s xs" "inv_live s" by (simp_all add: inv_run_def)
    have "inv_mem t xs" using spurious_worker
      by (intro inv_mem_goto [OF m(1), where i = i and p = W_check]) (simp_all add: pool_simps)
    moreover have "inv_log t xs" using spurious_worker
      by (intro inv_log_same [OF m(2)]) (simp_all add: pool_simps)
    moreover have "inv_live t"
      using m(3) spurious_worker coming_upd [of "nthreads s" "wpcs s" i W_check] alert_intro [of i "nthreads s" "wpcs s"]
      by (simp add: inv_live_def sem_value_def pool_simps del: fun_upd_apply) blast
    ultimately show ?thesis using spurious_worker(1) g by (auto simp: inv_run_def pool_simps)
  next
    case spurious_client
    then obtain xs where run: "inv_run s xs" using assms(2) by (auto simp: inv_pool_def)
    have "inv_run t xs" using run by (rule inv_run_quiet) (use spurious_client in simp_all)
    with spurious_client show ?thesis by auto
  next
    case (deliver i)
    show ?thesis
    proof (cases "client s = C_gone")
      case False
      then obtain xs where run: "inv_run s xs" using assms(2) by (auto simp: inv_pool_def)
      then have "inv_run t xs"
        by (rule inv_run_quiet) (use deliver run in \<open>simp_all add: inv_run_def inv_live_def\<close>)
      with False deliver(1) show ?thesis by auto
    qed (use deliver assms(2) in \<open>simp add: inv_pool_def\<close>)
  next
    case (release i)
    show ?thesis
    proof (cases "client s = C_gone")
      case False
      then obtain xs where run: "inv_run s xs" using assms(2) by (auto simp: inv_pool_def)
      then have "inv_run t xs"
        by (rule inv_run_quiet) (use release run in \<open>simp_all add: inv_run_def inv_live_def\<close>)
      with False release(1) show ?thesis by auto
    qed (use release assms(2) in \<open>simp add: inv_pool_def\<close>)
  qed
  with c show ?thesis by (simp add: inv_pool_def)
qed

lemma inv_pool_init: "pool_init s \<Longrightarrow> inv_pool s"
proof -
  assume init: "pool_init s"
  then obtain E k where E: "thpool_init E k = Inr (Some s)" by (auto simp: pool_init_def)
  then have f: "client s = C_init" "heap s = Map.empty" "len (queue s) = 0" "front (queue s) = None"
    "rear (queue s) = None" "bsem_has_job (queue s) = Some 0" "submitted s = []" "taken s = []" "executed s = []"
    by (auto simp: thpool_init_def jobqueue_init_def bsem_init_def Let_def cbind_eq_Inr_iff split: if_splits)
  have w: "\<forall>i. wpcs s i = W_start \<or> wpcs s i = W_absent" by (simp add: thpool_init_state(1) [OF E])
  have n: "job_of (wpcs s i) = None" "running (wpcs s i) = None" for i using w by (metis job_of.simps(3,4) running.simps(2,3))+
  have "inv_run s []"
    using f n by (simp add: inv_run_def inv_mem_def queue_of_def inv_log_def inv_live_def sem_value_def INT_MAX_def)
  with f(1) inv_ctl_init [OF init] show ?thesis by (auto simp: inv_pool_def)
qed

interpretation pool: invariant_system pool_init pool_step inv_pool
proof
  show "inv_pool t" if "inv_pool s" "pool_step s t" for s t
    using that(2,1) by cases (blast intro: inv_pool_worker inv_pool_client inv_pool_env)+
qed (rule inv_pool_init)

section \<open>The next access of a worker\<close>

text \<open>
  What the next statement of worker \<open>i\<close> accesses. Every statement of \<^verbatim>\<open>thread_do\<close> up to the last unlock reads or writes the pool or
  something that belongs to it: the semaphore, the queue, or the job that the worker has taken.
\<close>

definition next_access :: "pool \<Rightarrow> nat \<Rightarrow> unit cres" where
  "next_access s i =
     (if wpcs s i = W_absent \<or> wpcs s i = W_dead then Inr ()
      else if client s = C_gone then Inl UseAfterFree
      else case wpcs s i of
          W_check \<Rightarrow> cbind (deref (bsem_has_job (queue s))) (\<lambda>_. Inr ())
        | W_sleep \<Rightarrow> cbind (deref (bsem_has_job (queue s))) (\<lambda>_. Inr ())
        | W_pull \<Rightarrow> cbind (jobqueue_pull (heap s, queue s)) (\<lambda>_. Inr ())
        | W_run a \<Rightarrow> cbind (load_job (heap s) (Some a)) (\<lambda>_. Inr ())
        | W_free a \<Rightarrow> cbind (free_job (heap s) (Some a)) (\<lambda>_. Inr ())
        | _ \<Rightarrow> Inr ())"

lemma access_result:
  assumes "pool_reach s" and "i < nthreads s"
  shows "next_access s i = (if client s = C_gone \<and> wpcs s i = W_unlock then Inl UseAfterFree else Inr ())"
proof (cases "client s = C_gone")
  case True
  with gone_no_worker [OF control.inv_reach [OF assms(1)] True assms(2)] show ?thesis by (auto simp: next_access_def)
next
  case False
  with assms(1) pool.inv_reach obtain xs where r: "inv_mem s xs" by (fastforce simp: inv_pool_def inv_run_def)
  note m = inv_memD [OF r]
  have sem: "bsem_has_job (queue s) \<noteq> None" using m(1) by (simp add: queue_of_def)
  obtain q where pull: "jobqueue_pull (heap s, queue s) = Inr q"
    using m(1,2) jobqueue_pull_empty jobqueue_pull_first by (cases xs) blast+
  have "a \<in> dom (heap s)" if "job_of (wpcs s i) = Some a" for a unfolding m(3) using that assms(2) by auto
  then have "\<exists>j. heap s a = Some j" if "wpcs s i = W_run a \<or> wpcs s i = W_free a" for a using that by auto
  with False sem pull show ?thesis
    by (cases "wpcs s i") (auto simp: next_access_def load_job_def free_job_def)
qed

section \<open>Why waiting ends\<close>

text \<open>
  While the client is in \<^verbatim>\<open>thpool_wait\<close>, no jobs are added, and every step uses up some of the
  remaining effort: of the queued jobs, of the semaphore, of each worker and of the client.
\<close>

fun weight :: "wpc \<Rightarrow> int" where
  "weight W_absent = 0" | "weight W_start = 4" | "weight W_loop = 3" | "weight W_check = 1"
| "weight W_sleep = 0" | "weight W_got = 12" | "weight W_count = 11" | "weight W_pull = 10"
| "weight (W_run a) = 9" | "weight (W_free a) = 8" | "weight W_done = 7" | "weight W_exit = 2"
| "weight W_unlock = 1" | "weight W_dead = 0"

fun cweight :: "cpc \<Rightarrow> int" where
  "cweight C_wait = 4" | "cweight C_chk = 3" | "cweight C_presleep = 2" | "cweight C_sleep = 1"
| "cweight _ = 0"

fun waiting :: "cpc \<Rightarrow> bool" where
  "waiting C_wait = True" | "waiting C_chk = True" | "waiting C_presleep = True"
| "waiting C_sleep = True" | "waiting _ = False"

definition effort :: "pool \<Rightarrow> int" where
  "effort s = 13 * len (queue s) + 12 * sem_value s + total weight (nthreads s) (wpcs s) + cweight (client s)"

declare total_upd [pool_simps]

lemma weight_nonneg: "0 \<le> weight p"
  by (cases p) simp_all

lemma total_woken: "woken n w w' \<Longrightarrow> total weight n w' \<le> total weight n w + 1"
  by (auto simp: woken_def total_upd)

lemma effort_pos:
  assumes "inv_run s xs" and "waiting (client s)"
  shows "0 < effort s"
proof -
  have "0 \<le> len (queue s)" using assms by (simp add: inv_run_def inv_mem_def queue_of_def)
  moreover have "0 \<le> sem_value s" using assms by (auto simp: inv_run_def inv_live_def sem_value_def)
  moreover have "0 \<le> total weight (nthreads s) (wpcs s)" unfolding total_def by (simp add: sum_nonneg weight_nonneg)
  moreover have "0 < cweight (client s)" using assms(2) by (cases "client s") simp_all
  ultimately show ?thesis by (simp add: effort_def)
qed

lemma effort_pull:
  assumes "inv_run s xs" and "i < nthreads s" and "wpcs s i = W_pull" and "0 < len (queue s)"
    and "len q' = len (queue s) - 1"
    and "bsem_has_job q' = (if len (queue s) = 1 then bsem_has_job (queue s) else Some 1)"
    and "if len (queue s) = 1 then w' = (wpcs s)(i := W_run a) else woken (nthreads s) ((wpcs s)(i := W_run a)) w'"
  shows "13 * len q' + 12 * the (bsem_has_job q') + total weight (nthreads s) w' <
         13 * len (queue s) + 12 * sem_value s + total weight (nthreads s) (wpcs s)"
proof -
  have "0 \<le> sem_value s" using assms(1) by (auto simp: inv_run_def inv_live_def sem_value_def)
  moreover have "total weight (nthreads s) w' \<le> total weight (nthreads s) (wpcs s) + (if len (queue s) = 1 then -1 else 0)"
    using assms(2,3,7) total_woken [of "nthreads s" "(wpcs s)(i := W_run a)" w']
    by (simp add: total_upd split: if_splits)
  ultimately show ?thesis using assms(5,6) by (auto simp: sem_value_def split: if_splits)
qed

lemma effort_worker:
  assumes "worker_step i s t" and "i < nthreads s" and "inv_run s xs"
  shows "effort t < effort s"
  using assms(1)
proof (cases rule: worker_step.cases)
  case (pull_none h' q')
  have m: "inv_mem s xs" using assms(3) by (simp add: inv_run_def)
  from pull_result [OF inv_mem_queue [OF m] pull_none(3)] inv_mem_queue(1) [OF m]
  have "len (queue s) = 0" by (auto simp: queue_of_def split: if_splits)
  moreover from this pull_none(3) have "q' = queue s" by (simp add: jobqueue_pull_def)
  ultimately show ?thesis
    using pull_none assms(2) by (simp add: effort_def sem_value_def pool_simps del: fun_upd_apply)
next
  case (pull_some a h' q' j w')
  have m: "inv_mem s xs" using assms(3) by (simp add: inv_run_def)
  note r = pull_result [OF inv_mem_queue [OF m] pull_some(3)]
  have "xs \<noteq> []" "len (queue s) = int (length xs)" "len q' = int (length (tl xs))"
    using r(2,3) inv_mem_queue(1) [OF m] by (auto simp: queue_of_def)
  then have "0 < len (queue s)" "len q' = len (queue s) - 1" "length xs \<le> 1 \<longleftrightarrow> len (queue s) = 1"
    by (cases xs; simp)+
  moreover from this r(4) have "13 * len q' + 12 * the (bsem_has_job q') + total weight (nthreads s) w' <
      13 * len (queue s) + 12 * sem_value s + total weight (nthreads s) (wpcs s)"
    by (intro effort_pull [OF assms(3,2) pull_some(2) _ _ _ pull_some(5)]) simp_all
  ultimately show ?thesis using pull_some(1) by (simp add: effort_def sem_value_def)
qed (use assms(2) in \<open>auto simp: effort_def sem_value_def pool_simps bsem_wait_simps simp del: fun_upd_apply\<close>)

section \<open>Waiting\<close>

text \<open>The steps of the workers and of the client while it is in \<^verbatim>\<open>thpool_wait\<close>.\<close>

definition wait_step :: "pool \<Rightarrow> pool \<Rightarrow> bool" where
  "wait_step s t \<longleftrightarrow> waiting (client s) \<and> ((\<exists>i < nthreads s. \<not> held s i \<and> worker_step i s t) \<or> client_step s t)"

definition wait_inv :: "pool \<Rightarrow> bool" where
  "wait_inv s \<longleftrightarrow> inv_pool s \<and> 0 < nthreads s \<and> (\<forall>i < nthreads s. \<not> held s i)"

lemma worker_held: "worker_step i s t \<Longrightarrow> held t = held s"
  by (erule worker_step.cases) (simp_all add: pool_simps)

lemma client_held: "client_step s t \<Longrightarrow> held t = held s"
  by (erule client_step.cases) simp_all

lemma wait_inv_step: "wait_inv s \<Longrightarrow> wait_step s t \<Longrightarrow> wait_inv t"
  unfolding wait_inv_def wait_step_def
  using inv_pool_worker inv_pool_client worker_held client_held worker_nthreads client_nthreads by metis

lemma waiting_run: "inv_pool s \<Longrightarrow> waiting (client s) \<Longrightarrow> \<exists>xs. inv_run s xs"
  by (auto simp: inv_pool_def split: if_splits)

lemma effort_client: "client_step s t \<Longrightarrow> waiting (client s) \<Longrightarrow> effort t < effort s"
  by (erule client_step.cases) (auto simp: effort_def sem_value_def)

lemma effort_decreases:
  assumes "wait_inv s" and "wait_step s t"
  shows "nat (effort t) < nat (effort s)"
proof -
  from assms obtain xs where r: "inv_run s xs" using waiting_run by (auto simp: wait_inv_def wait_step_def)
  have "effort t < effort s"
    using assms(2) effort_worker [OF _ _ r] effort_client by (auto simp: wait_step_def)
  with effort_pos [OF r] assms(2) show ?thesis by (simp add: wait_step_def)
qed

text \<open>A worker that holds a job, is about to take one or to put itself in order can move.\<close>

lemma busy_moves:
  assumes "inv_mem s xs" and "i < nthreads s" and "busy (wpcs s i)" and "lock_free s"
  shows "\<exists>t. worker_step i s t"
proof -
  note m = inv_memD [OF assms(1)]
  have job: "heap s a \<noteq> None" if "job_of (wpcs s i) = Some a" for a
    using that assms(2) m(3) by (auto simp: set_eq_iff domIff)
  from assms(3) show ?thesis
  proof (cases "wpcs s i")
    case W_pull
    show ?thesis
    proof (cases xs)
      case Nil
      with W_pull jobqueue_pull_empty m(1) show ?thesis by (blast intro: worker_step.pull_none)
    next
      case (Cons a ys)
      then obtain q' where q': "jobqueue_pull (heap s, queue s) = Inr (Some a, (heap s, q'))"
        using jobqueue_pull_first m(1,2) by blast
      obtain j where j: "heap s a = Some j" using m(3) Cons by (auto simp: set_eq_iff domIff)
      let ?w = "(wpcs s)(i := W_run a)"
      obtain w' where "if len (queue s) = 1 then w' = ?w else woken (nthreads s) ?w w'"
        by (metis woken_def)
      with worker_step.pull_some [OF W_pull q' j] show ?thesis by blast
    qed
  next
    case (W_run a)
    then show ?thesis using job [of a] by (auto intro: worker_step.run)
  next
    case (W_free a)
    then obtain h' where "free_job (heap s) (Some a) = Inr h'"
      using job [of a] by (auto simp: free_job_def)
    with W_free show ?thesis by (blast intro: worker_step.free)
  qed (use assms(4) worker_step.finish in auto)
qed

lemma awake_moves:
  assumes "inv_mem s xs" and "i < nthreads s" and "lock_free s" and "client s \<noteq> C_gone"
    and "\<not> unborn (wpcs s i)" and "wpcs s i \<noteq> W_sleep" and "wpcs s i \<noteq> W_dead"
  shows "\<exists>t. worker_step i s t"
proof (cases "busy (wpcs s i)")
  case True
  then show ?thesis using busy_moves assms(1-3) by blast
next
  case False
  obtain v where v: "bsem_has_job (queue s) = Some v"
    using inv_memD(1) [OF assms(1)] by (auto simp: queue_of_def)
  show ?thesis
  proof (cases "wpcs s i")
    case W_check
    show ?thesis
    proof (cases "v = 1")
      case True
      then have "bsem_wait v = Some 0" by (simp add: bsem_wait_def)
      with W_check v show ?thesis by (blast intro: worker_step.sem_take)
    next
      case False
      then have "bsem_wait v = None" by (simp add: bsem_wait_def)
      with W_check v show ?thesis by (blast intro: worker_step.sem_sleep)
    qed
  qed (use False assms in \<open>auto intro: worker_step.intros\<close>)
qed

lemma sleep_progress:
  assumes "inv_ctl s" and "inv_run s xs" and "client s = C_sleep" and "0 < nthreads s"
  shows "\<exists>i < nthreads s. \<exists>t. worker_step i s t"
proof -
  have r: "inv_mem s xs" "inv_live s" using assms(2) by (simp_all add: inv_run_def)
  have k: "threads_keepalive s" "lock_free s" "\<And>i. i < nthreads s \<Longrightarrow> \<not> unborn (wpcs s i) \<and> \<not> ending (wpcs s i)"
    using assms(1,3) by (auto simp: inv_ctl_def lock_free_def)
  have move: "\<exists>i < nthreads s. \<exists>t. worker_step i s t" if "i < nthreads s" "wpcs s i \<noteq> W_sleep" for i
  proof -
    have "wpcs s i \<noteq> W_dead" using k(3) [OF that(1)] by auto
    with awake_moves [OF r(1) that(1) k(2) _ _ that(2)] k(3) [OF that(1)] assms(3) that(1)
    show ?thesis by auto
  qed
  show ?thesis
  proof (cases "num_threads_working s = 0")
    case False
    then have "cnt busy (nthreads s) (wpcs s) \<noteq> 0" using assms(1) by (simp add: inv_ctl_def)
    then obtain i where "i < nthreads s" "busy (wpcs s i)" by (auto simp: cnt_zero_iff)
    moreover from this(2) have "wpcs s i \<noteq> W_sleep" by auto
    ultimately show ?thesis by (intro move)
  next
    case True
    with r(2) assms(3) k(1) have c: "sem_value s = 1 \<or> coming (nthreads s) (wpcs s)" and
      a: "sem_value s = 1 \<Longrightarrow> alert (nthreads s) (wpcs s)" by (auto simp: inv_live_def)
    from c show ?thesis
    proof
      assume "coming (nthreads s) (wpcs s)"
      then obtain i where "i < nthreads s" "token (wpcs s i)" by (auto simp: coming_def)
      moreover from this(2) have "wpcs s i \<noteq> W_sleep" by auto
      ultimately show ?thesis by (intro move)
    next
      assume "sem_value s = 1"
      with a obtain i where "i < nthreads s" "wpcs s i \<noteq> W_sleep"
        using assms(4) by (auto simp: alert_def)
      then show ?thesis using move [of i] by auto
    qed
  qed
qed

interpretation wait: terminating_system wait_inv wait_step wait_inv "\<lambda>s. \<not> waiting (client s)" "\<lambda>s. nat (effort s)"
proof
  fix s
  assume *: "wait_inv s" "\<not> \<not> waiting (client s)"
  show "\<exists>t. wait_step s t"
  proof (cases "client s = C_sleep")
    case True
    from * obtain xs where "inv_run s xs" using waiting_run by (auto simp: wait_inv_def)
    with sleep_progress [of s xs] * True show ?thesis by (auto simp: wait_inv_def wait_step_def inv_pool_def)
  next
    case False
    then have "\<exists>t. client_step s t" using *(2) by (cases "client s") (auto intro: client_step.intros)
    with *(2) show ?thesis by (auto simp: wait_step_def)
  qed
qed (blast intro: wait_inv_step effort_decreases)+

section \<open>What has been executed when the client returns\<close>

lemma own_count: "count (mset (own (fst e) es)) e = count (mset es) e"
  by (simp add: own_def mset_filter)

lemma mset_own_eqI:
  assumes "\<And>i. i < n \<Longrightarrow> own i es = own i fs" and "\<forall>e \<in> set es \<union> set fs. fst e < n"
  shows "mset es = mset fs"
proof (rule multiset_eqI)
  fix e
  show "count (mset es) e = count (mset fs) e"
  proof (cases "fst e < n")
    case True
    then show ?thesis using assms(1) own_count [of e es] own_count [of e fs] by metis
  next
    case False
    then have "e \<notin> set es" "e \<notin> set fs" using assms(2) by auto
    then show ?thesis by (metis count_mset_0_iff)
  qed
qed

text \<open>No job is queued and no worker is running one: everything submitted has been executed.\<close>

lemma no_job_left:
  assumes "inv_run s xs" and "len (queue s) = 0" and "\<And>i. i < nthreads s \<Longrightarrow> running (wpcs s i) = None"
  shows "mset (map snd (executed s)) = mset (submitted s)" and "length (taken s) = length (submitted s)"
proof -
  have m: "inv_mem s xs" and l: "inv_log s xs" using assms(1) by (simp_all add: inv_run_def)
  have xs: "xs = []" using inv_memD(1) [OF m] assms(2) by (simp add: queue_of_def)
  have "mset (taken s) = mset (executed s)"
    using l assms(3) by (intro mset_own_eqI [of "nthreads s"]) (auto simp: inv_log_def)
  then have "mset (map snd (taken s)) = mset (map snd (executed s))" by (metis mset_map)
  then show "mset (map snd (executed s)) = mset (submitted s)" using l xs by (simp add: inv_log_def)
  show "length (taken s) = length (submitted s)" using l xs by (simp add: inv_log_def)
qed

lemma not_working_not_running:
  assumes "inv_ctl s" and "num_threads_working s = 0" and "i < nthreads s"
  shows "running (wpcs s i) = None"
proof -
  have "\<not> busy (wpcs s i)" using assms by (simp add: inv_ctl_def cnt_zero_iff)
  then show ?thesis by (cases "wpcs s i") auto
qed

lemma idle_all_executed:
  assumes "inv_ctl s" and "inv_run s xs" and "len (queue s) = 0" and "num_threads_working s = 0"
  shows "mset (map snd (executed s)) = mset (submitted s)"
  using no_job_left(1) [OF assms(2,3)] not_working_not_running [OF assms(1,4)] by blast

lemma wait_return:
  assumes "client_step s t" and "waiting (client s)" and "\<not> waiting (client t)"
  shows "t = s\<lparr>client := C_idle\<rparr>" and "client s = C_chk" and "num_threads_working s = 0"
  using assms by (auto elim!: client_step.cases split: if_splits)

lemma wait_return_executed:
  assumes "inv_pool s" and "client_step s t" and "waiting (client s)" and "\<not> waiting (client t)"
  shows "client t = C_idle \<and> mset (map snd (executed t)) = mset (submitted t)"
proof -
  note t = wait_return [OF assms(2-4)]
  from assms(1,3) obtain xs where r: "inv_run s xs" using waiting_run by blast
  then have "len (queue s) = 0" using t(2) by (simp add: inv_run_def inv_live_def)
  with idle_all_executed [OF _ r _ t(3)] assms(1) have "mset (map snd (executed s)) = mset (submitted s)"
    by (simp add: inv_pool_def)
  with t(1) show ?thesis by simp
qed

lemma worker_keeps_waiting: "worker_step i s t \<Longrightarrow> waiting (client s) \<Longrightarrow> waiting (client t)"
  by (erule worker_step.cases) (auto simp: pool_simps)

lemma wait_run_result:
  assumes "wait_step\<^sup>*\<^sup>* s t" and "wait_inv s" and "waiting (client s)"
  shows "waiting (client t) \<or> (client t = C_idle \<and> mset (map snd (executed t)) = mset (submitted t))"
  using assms
proof (induction rule: rtranclp_induct)
  case (step u t)
  then have u: "wait_inv u" "waiting (client u)" using wait.inv_run by (auto simp: wait_step_def)
  show ?case
  proof (cases "client_step u t")
    case True
    with u wait_return_executed [of u t] show ?thesis by (auto simp: wait_inv_def)
  next
    case False
    with step.hyps(2) u(2) worker_keeps_waiting show ?thesis by (auto simp: wait_step_def)
  qed
qed simp

end
