(* ===== verification/Pool_Properties.thy ===== *)
theory Pool_Properties
  imports Pool_Wait
begin

text \<open>
  The properties of the thread pool, and the runs of a pool with one thread that show their
  hypotheses to be satisfiable.
\<close>

section \<open>A pool with one thread\<close>

definition demo_env :: init_env where
  "demo_env = \<lparr>pool_malloc_ok = True, sem_malloc_ok = True, threads_calloc_ok = True,
     thread_envs = (\<lambda>i. \<lparr>malloc_ok = True, attr_init_ok = True, stacksize_ok = True, create_ok = (i = 0)\<rparr>)\<rparr>"

definition demo :: "bool \<Rightarrow> int \<Rightarrow> wpc \<Rightarrow> cpc \<Rightarrow> pool" where
  "demo keep alive p c =
     \<lparr>nthreads = 1, heap = Map.empty,
      queue = \<lparr>front = None, rear = None, len = 0, bsem_has_job = Some 0\<rparr>,
      num_threads_alive = alive, num_threads_working = 0, threads_keepalive = keep, threads_on_hold = False,
      wpcs = (\<lambda>i. if i = 0 then p else W_absent), client = c,
      sig_pending = (\<lambda>i. False), held = (\<lambda>i. False), submitted = [], taken = [], executed = []\<rparr>"

lemma demo_goto [simp]: "goto (demo k a p c) 0 p' = demo k a p' c"
  by (auto simp: goto_def demo_def fun_upd_def)

lemma demo_fields [simp]:
  "nthreads (demo k a p c) = 1" "heap (demo k a p c) = Map.empty" "num_threads_alive (demo k a p c) = a"
  "num_threads_working (demo k a p c) = 0" "threads_keepalive (demo k a p c) = k" "client (demo k a p c) = c"
  "wpcs (demo k a p c) 0 = p" "held (demo k a p c) = (\<lambda>i. False)" "threads_on_hold (demo k a p c) = False"
  "sig_pending (demo k a p c) = (\<lambda>i. False)"
  "queue (demo k a p c) = \<lparr>front = None, rear = None, len = 0, bsem_has_job = Some 0\<rparr>"
  "(demo k a p c)\<lparr>num_threads_alive := a'\<rparr> = demo k a' p c"
  "(demo k a p c)\<lparr>client := c'\<rparr> = demo k a p c'"
  "(demo k a p c)\<lparr>threads_keepalive := k'\<rparr> = demo k' a p c"
  by (simp_all add: demo_def)

lemma demo_worker: "worker_step 0 (demo k a p c) t \<Longrightarrow> pool_reach (demo k a p c) \<Longrightarrow> pool_reach t"
  by (erule reach_step) (auto intro: pool_step.worker [of 0])

lemma demo_client: "client_step s t \<Longrightarrow> pool_reach s \<Longrightarrow> pool_reach t"
  by (erule reach_step) (rule pool_step.client)

lemma demo_init: "pool_reach (demo True 0 W_start C_init)"
proof (rule reach_init)
  have "thpool_init demo_env 1 = Inr (Some (demo True 0 W_start C_init))"
    by (auto simp: thpool_init_def demo_env_def demo_def jobqueue_init_def bsem_init_def create_threads_result prepared_def)
  then show "pool_init (demo True 0 W_start C_init)" unfolding pool_init_def by blast
qed

lemma demo_ready: "pool_reach (demo True 1 W_loop C_idle)"
proof -
  have "worker_step 0 (demo True 0 W_start C_init) (demo True 1 W_loop C_init)"
    using worker_step.start [of "demo True 0 W_start C_init" 0] by (simp add: lock_free_def)
  from demo_worker [OF this demo_init] have "pool_reach (demo True 1 W_loop C_init)" .
  moreover have "client_step (demo True 1 W_loop C_init) (demo True 1 W_loop C_idle)"
    using client_step.init_done [of "demo True 1 W_loop C_init"] by simp
  ultimately show ?thesis by (rule demo_client [rotated])
qed

text \<open>One job has been submitted.\<close>

definition demo_job :: "cpc \<Rightarrow> pool" where
  "demo_job c = (demo True 1 W_loop c)
     \<lparr>heap := [7 \<mapsto> \<lparr>prev = None, func = ''f'', args = 5\<rparr>],
      queue := \<lparr>front = Some 7, rear = Some 7, len = 1, bsem_has_job = Some 1\<rparr>,
      submitted := [(''f'', 5)]\<rparr>"

lemma demo_job_reach: "pool_reach (demo_job C_idle)" "pool_reach (demo_job C_wait)"
proof -
  let ?s = "demo True 1 W_loop C_idle"
  have add: "thpool_add_work (Some 7) None (heap ?s, queue ?s) ''f'' 5 =
      Inr (0, ([7 \<mapsto> \<lparr>prev = None, func = ''f'', args = 5\<rparr>],
             \<lparr>front = Some 7, rear = Some 7, len = 1, bsem_has_job = Some 1\<rparr>))"
    by (simp add: thpool_add_work_def jobqueue_push_def load_job_def post_queue_def bsem_post_def
        int_range_defs c_int_def)
  have "woken 1 (wpcs ?s) (wpcs ?s)" by (simp add: woken_def demo_def)
  with client_step.add_work [of ?s 7, OF _ _ add] have "client_step ?s (demo_job C_idle)"
    by (simp add: demo_job_def demo_def)
  then show idle: "pool_reach (demo_job C_idle)" using demo_ready by (rule demo_client)
  have "client_step (demo_job C_idle) (demo_job C_wait)"
    using client_step.wait_call [of "demo_job C_idle"] by (simp add: demo_job_def demo_def)
  then show "pool_reach (demo_job C_wait)" using idle by (rule demo_client)
qed

section \<open>Waiting for the jobs\<close>

text \<open>
  C2: \<^verbatim>\<open>thpool_wait\<close> returns. When the client calls it on a pool with at least one thread, none
  of them stopped by \<^verbatim>\<open>thpool_pause\<close>, the number of steps that the workers and the client can
  make before it returns is bounded whatever the scheduler does; in every state on the way some
  step is possible, so no wake-up is lost; and in the end the client is back outside the library
  and every job submitted so far has been executed exactly once. Jobs are assumed to return.
\<close>

theorem thpool_wait_returns:
  assumes "pool_reach s" and "client s = C_wait" and "0 < nthreads s" and "\<forall>i < nthreads s. \<not> held s i"
  shows "(\<exists>k. \<forall>m t. (wait_step ^^ m) s t \<longrightarrow> m \<le> k)
    \<and> (\<forall>t. wait_step\<^sup>*\<^sup>* s t \<longrightarrow>
         (\<exists>u. wait_step t u) \<or> (client t = C_idle \<and> mset (map snd (executed t)) = mset (submitted t)))"
proof -
  have inv: "wait_inv s" using assms pool.inv_reach by (simp add: wait_inv_def)
  have "m \<le> nat (effort s)" if "(wait_step ^^ m) s t" for m t
    using wait.run_bounded [OF that inv] by simp
  moreover have "(\<exists>u. wait_step t u) \<or> (client t = C_idle \<and> mset (map snd (executed t)) = mset (submitted t))"
    if "wait_step\<^sup>*\<^sup>* s t" for t
    using wait_run_result [OF that inv] wait.progress [OF wait.inv_run [OF that inv]] assms(2) by auto
  ultimately show ?thesis by blast
qed

theorem thpool_wait_returns_witness:
  "\<exists>t. wait_step\<^sup>*\<^sup>* (demo_job C_wait) t \<and> client t = C_idle \<and> mset (map snd (executed t)) = mset (submitted t)"
proof -
  have n: "0 < nthreads (demo_job C_wait)" "\<forall>i < nthreads (demo_job C_wait). \<not> held (demo_job C_wait) i"
    "client (demo_job C_wait) = C_wait" by (simp_all add: demo_job_def)
  then have "wait_inv (demo_job C_wait)" using pool.inv_reach [OF demo_job_reach(2)] by (simp add: wait_inv_def)
  from wait.reaches_final [OF this] obtain t where t: "wait_step\<^sup>*\<^sup>* (demo_job C_wait) t" "\<not> waiting (client t)"
    by blast
  then have "\<nexists>u. wait_step t u" by (simp add: wait_step_def)
  with thpool_wait_returns [OF demo_job_reach(2) n(3,1,2)] t(1) show ?thesis by blast
qed

text \<open>
  C7: whatever the workers, the client, the signals of \<^verbatim>\<open>thpool_pause\<close> and spurious wake-ups did
  before, when \<^verbatim>\<open>thpool_wait\<close> returns, every submitted job has been executed, exactly once.
\<close>

theorem thpool_wait_all_executed:
  assumes "pool_reach s" and "client_step s t" and "waiting (client s)" and "\<not> waiting (client t)"
  shows "mset (map snd (executed t)) = mset (submitted t)"
  using wait_return_executed [OF pool.inv_reach [OF assms(1)] assms(2-4)] by simp

lemma wait_keeps_submitted: "wait_step s t \<Longrightarrow> submitted t = submitted s"
  by (auto simp: wait_step_def pool_simps elim!: worker_step.cases client_step.cases)

lemma wait_pool_step: "wait_step s t \<Longrightarrow> pool_step s t"
  by (auto simp: wait_step_def intro: pool_step.worker pool_step.client)

theorem thpool_wait_all_executed_witness:
  "\<exists>s t. pool_reach s \<and> client_step s t \<and> \<not> waiting (client t) \<and> map snd (executed t) = [(''f'', 5)]"
proof -
  let ?j = "demo_job C_wait"
  have "wait_inv ?j" using pool.inv_reach [OF demo_job_reach(2)] by (simp add: wait_inv_def demo_job_def)
  from wait.reaches_final [OF this] obtain t where t: "wait_step\<^sup>*\<^sup>* ?j t" "\<not> waiting (client t)" by blast
  from t(1) have "pool_reach t \<and> submitted t = submitted ?j"
    by (induction rule: rtranclp_induct) (auto simp: demo_job_reach wait_keeps_submitted intro: reach_step wait_pool_step)
  then have sub: "submitted t = [(''f'', 5)]" by (simp add: demo_job_def)
  have "t \<noteq> ?j" using t(2) by (auto simp: demo_job_def)
  with t(1) obtain s where s: "wait_step\<^sup>*\<^sup>* ?j s" "wait_step s t" by (metis rtranclp.cases)
  from s(1) have r: "pool_reach s"
    by (induction rule: rtranclp_induct) (auto simp: demo_job_reach intro: reach_step wait_pool_step)
  have c: "waiting (client s)" "client_step s t"
    using s(2) t(2) worker_keeps_waiting by (auto simp: wait_step_def)
  from thpool_wait_all_executed [OF r c(2,1) t(2)] have "mset (map snd (executed t)) = mset [(''f'', 5)]"
    by (simp only: sub)
  then have "map snd (executed t) = [(''f'', 5)]" by (simp del: mset_map)
  with r c(2) t(2) show ?thesis by (intro exI [of _ s] exI [of _ t] conjI)
qed

section \<open>Order, counters, memory\<close>

text \<open>
  C13: jobs are taken in the order of submission, and each is taken by one worker: until the pool
  is destroyed, the jobs submitted are the jobs taken so far, in order, followed by as many
  pending jobs as the queue's length says; and every worker has executed the jobs it took,
  in that order, except possibly the last one, which it is about to run.
\<close>

theorem jobs_taken_in_order:
  assumes "pool_reach s" and "client s \<noteq> C_gone"
  shows "(\<exists>pending. submitted s = map snd (taken s) @ pending \<and> int (length pending) = len (queue s))
    \<and> (\<forall>i < nthreads s. own i (taken s) = own i (executed s)
         \<or> (\<exists>a. wpcs s i = W_run a \<and> own i (taken s) = own i (executed s) @ [(i, payload (heap s) a)]))"
proof -
  from assms pool.inv_reach obtain xs where r: "inv_mem s xs" "inv_log s xs"
    by (fastforce simp: inv_pool_def inv_run_def)
  have "len (queue s) = int (length xs)" using inv_memD(1) [OF r(1)] by (simp add: queue_of_def)
  with r(2) have "submitted s = map snd (taken s) @ map (payload (heap s)) xs
      \<and> int (length (map (payload (heap s)) xs)) = len (queue s)"
    by (simp add: inv_log_def)
  moreover have "own i (taken s) = own i (executed s)
         \<or> (\<exists>a. wpcs s i = W_run a \<and> own i (taken s) = own i (executed s) @ [(i, payload (heap s) a)])"
    if "i < nthreads s" for i
    using r(2) that by (cases "wpcs s i") (auto simp: inv_log_def)
  ultimately show ?thesis by blast
qed

theorem jobs_taken_in_order_witness:
  "\<exists>pending. submitted (demo_job C_idle) = map snd (taken (demo_job C_idle)) @ pending
     \<and> int (length pending) = len (queue (demo_job C_idle))"
  using jobs_taken_in_order [OF demo_job_reach(1)] by (simp add: demo_job_def)

text \<open>
  C19: the two counters of the pool are exact in every reachable state: \<^verbatim>\<open>num_threads_working\<close> is
  the number of workers between its increment and its decrement, \<^verbatim>\<open>num_threads_alive\<close> the number
  of threads that have announced themselves and not left, and
  0 \<le> working \<le> alive \<le> number of threads. Hence neither counter overflows.
\<close>

theorem pool_counters_exact:
  assumes "pool_reach s"
  shows "num_threads_working s = int (count_threads (nthreads s) (\<lambda>i. busy (wpcs s i)))
    \<and> num_threads_alive s = int (count_threads (nthreads s) (\<lambda>i. alive_pc (wpcs s i)))
    \<and> 0 \<le> num_threads_working s \<and> num_threads_working s \<le> num_threads_alive s
    \<and> num_threads_alive s \<le> int (nthreads s)"
proof -
  have c: "inv_ctl s" by (rule control.inv_reach [OF assms])
  have "busy p \<Longrightarrow> alive_pc p" for p by (cases p) simp_all
  then have "count_threads (nthreads s) (\<lambda>i. busy (wpcs s i)) \<le> count_threads (nthreads s) (\<lambda>i. alive_pc (wpcs s i))"
    unfolding count_threads_def by (intro card_mono) auto
  with c cnt_le [of alive_pc "nthreads s" "wpcs s"] show ?thesis by (simp add: inv_ctl_def cnt_def)
qed

theorem pool_counters_exact_witness:
  "num_threads_alive (demo_job C_wait) = int (count_threads 1 (\<lambda>i. alive_pc (wpcs (demo_job C_wait) i)))"
  using pool_counters_exact [OF demo_job_reach(2)] by (simp add: demo_job_def)

text \<open>
  C8: which accesses to memory of the pool are defined, in every reachable state. The next access of every worker is defined, with one
  exception: after \<^verbatim>\<open>thpool_destroy\<close> has freed the pool, a worker that has decremented \<^verbatim>\<open>num_threads_alive\<close> but not yet unlocked the
  mutex uses the freed object. Until the pool is gone, a job that a worker holds is allocated, neither queued nor held by
  another one, and the allocated jobs are exactly the pending and the held ones; when the last thread
  has left, \<^verbatim>\<open>jobqueue_destroy\<close> succeeds and frees what is left; afterwards nothing is allocated.
\<close>

theorem pool_memory_safe:
  assumes "pool_reach s"
  shows "(\<forall>i < nthreads s. next_access s i =
       (if client s = C_gone \<and> wpcs s i = W_unlock then Inl UseAfterFree else Inr ()))
    \<and> (if client s = C_gone then heap s = Map.empty
       else (\<forall>i < nthreads s. \<forall>a. job_of (wpcs s i) = Some a \<longrightarrow> free_job (heap s) (Some a) = Inr ((heap s)(a := None))
           \<and> (\<forall>j < nthreads s. job_of (wpcs s j) = Some a \<longrightarrow> j = i))
         \<and> (\<exists>xs. queue_of (heap s, queue s) xs \<and> distinct xs
           \<and> dom (heap s) = set xs \<union> {a. \<exists>i < nthreads s. job_of (wpcs s i) = Some a}
           \<and> (\<forall>i < nthreads s. \<forall>a. job_of (wpcs s i) = Some a \<longrightarrow> a \<notin> set xs)))
    \<and> (client s = C_kill \<longrightarrow> num_threads_alive s = 0 \<longrightarrow>
         (\<exists>q. jobqueue_destroy (heap s, queue s) = Inr (Map.empty, q)))"
proof (cases "client s = C_gone")
  case True
  then show ?thesis using access_result [OF assms] pool.inv_reach [OF assms] by (auto simp: inv_pool_def)
next
  case False
  with assms pool.inv_reach obtain xs where r: "inv_mem s xs" by (fastforce simp: inv_pool_def inv_run_def)
  note m = inv_memD [OF r]
  have "free_job (heap s) (Some a) = Inr ((heap s)(a := None))"
    if "i < nthreads s" "job_of (wpcs s i) = Some a" for i a
  proof -
    have "a \<in> dom (heap s)" unfolding m(3) using that by auto
    then show ?thesis by (auto simp: free_job_def)
  qed
  moreover have "distinct xs" using m(1) by (simp add: queue_of_def)
  moreover have "\<exists>q. jobqueue_destroy (heap s, queue s) = Inr (Map.empty, q)" if "num_threads_alive s = 0"
    using inv_mem_destroy [OF r] control.inv_reach [OF assms] that by (simp add: inv_ctl_def cnt_zero_iff)
  ultimately show ?thesis using False access_result [OF assms] m(1,3,4,5) by (simp only: if_False) blast
qed

text \<open>
  C26: \<^verbatim>\<open>thpool_destroy\<close> leaves no job behind: when the pool is gone, every job object that was
  ever submitted has been freed, executed or not, and every worker has left its loop.
\<close>

theorem destroyed_pool_leaks_nothing:
  assumes "pool_reach s" and "client s = C_gone"
  shows "heap s = Map.empty \<and> (\<forall>i < nthreads s. wpcs s i = W_unlock \<or> wpcs s i = W_dead)"
  using pool.inv_reach [OF assms(1)] assms(2) gone_no_worker [OF control.inv_reach [OF assms(1)] assms(2)]
  by (simp add: inv_pool_def)

lemma demo_left: "pool_reach (demo False 0 W_unlock C_kill)"
proof -
  have 1: "client_step (demo True 1 W_loop C_idle) (demo False 1 W_loop C_kill)"
    using client_step.destroy_call [of "demo True 1 W_loop C_idle"] by (simp add: demo_def)
  have 2: "worker_step 0 (demo False 1 W_loop C_kill) (demo False 1 W_exit C_kill)"
    using worker_step.loop [of "demo False 1 W_loop C_kill" 0] by simp
  have 3: "worker_step 0 (demo False 1 W_exit C_kill) (demo False 0 W_unlock C_kill)"
    using worker_step.exit [of "demo False 1 W_exit C_kill" 0] by (simp add: lock_free_def)
  show ?thesis by (rule demo_worker [OF 3 demo_worker [OF 2 demo_client [OF 1 demo_ready]]])
qed

definition demo_gone :: pool where
  "demo_gone = (demo False 0 W_unlock C_gone)
     \<lparr>queue := \<lparr>front = None, rear = None, len = 0, bsem_has_job = None\<rparr>\<rparr>"

lemma demo_gone_reach: "pool_reach demo_gone"
proof -
  let ?s = "demo False 0 W_unlock C_kill"
  have "queue_of (heap ?s, queue ?s) []" by (simp add: queue_of_def)
  from jobqueue_clear_ok [OF this] have "jobqueue_destroy (heap ?s, queue ?s) =
      Inr (Map.empty, \<lparr>front = None, rear = None, len = 0, bsem_has_job = None\<rparr>)"
    by (simp add: jobqueue_destroy_def INT_MAX_def)
  from client_step.destroy_free [OF _ _ this] have "client_step ?s demo_gone"
    by (simp add: demo_gone_def demo_def)
  then show ?thesis using demo_left by (rule demo_client)
qed

theorem pool_memory_safe_witness:
  "next_access demo_gone 0 = Inl UseAfterFree \<and> next_access (demo_job C_wait) 0 = Inr ()"
  using pool_memory_safe [OF demo_gone_reach] pool_memory_safe [OF demo_job_reach(2)]
  by (simp add: demo_gone_def demo_job_def)

theorem destroyed_pool_leaks_nothing_witness:
  "heap demo_gone = Map.empty \<and> (wpcs demo_gone 0 = W_unlock \<or> wpcs demo_gone 0 = W_dead)"
  using destroyed_pool_leaks_nothing [OF demo_gone_reach] by (simp add: demo_gone_def)

section \<open>Behaviour that the callers may not expect\<close>

text \<open>
  C28: \<^verbatim>\<open>thpool_destroy\<close> can free the pool while a worker still uses it: a state is reachable in
  which the pool is gone and a worker has decremented \<^verbatim>\<open>num_threads_alive\<close> but still has to
  unlock the mutex \<^verbatim>\<open>thcount_lock\<close>, which is part of the freed object.
\<close>

theorem destroy_frees_pool_in_use:
  "\<exists>s. pool_reach s \<and> client s = C_gone \<and> (\<exists>i < nthreads s. wpcs s i = W_unlock)"
proof -
  have "client demo_gone = C_gone" "wpcs demo_gone 0 = W_unlock" "nthreads demo_gone = 1"
    by (simp_all add: demo_gone_def)
  with demo_gone_reach show ?thesis by (metis zero_less_one)
qed

lemma woken_absent: "woken n w w' \<Longrightarrow> w j = W_absent \<Longrightarrow> w' j = W_absent"
  by (auto simp: woken_def)

lemma absent_step:
  assumes "pool_step s t" and "wpcs s j = W_absent"
  shows "wpcs t j = W_absent"
  using assms(1)
proof cases
  case (worker i)
  from worker(3) show ?thesis
  proof (cases rule: worker_step.cases)
    case (pull_some a h' q' k w')
    have "((wpcs s)(i := W_run a)) j = W_absent" using pull_some(2) assms(2) by auto
    with pull_some(5) have "w' j = W_absent" using woken_absent by (metis (full_types))
    with pull_some(1) show ?thesis by simp
  qed (use assms(2) in \<open>auto simp: pool_simps\<close>)
next
  case client
  then show ?thesis using assms(2)
    by (cases rule: client_step.cases) (auto simp: wake_all_def intro: woken_absent)
next
  case environment
  then show ?thesis using assms(2) by (cases rule: env_step.cases) (auto simp: pool_simps)
qed

lemma client_init_step: "client_step s t \<Longrightarrow> client s = C_init \<Longrightarrow> num_threads_alive s = int (nthreads s)"
  by (erule client_step.cases) simp_all

lemma init_client:
  assumes "pool_step s t" and "client s = C_init" and "num_threads_alive s \<noteq> int (nthreads s)"
  shows "client t = C_init"
  using assms(1)
proof cases
  case (worker i)
  from worker(3) show ?thesis using assms(2) by (cases rule: worker_step.cases) (auto simp: pool_simps)
next
  case client
  then show ?thesis using client_init_step assms(2,3) by auto
next
  case environment
  then show ?thesis using assms(2) by (cases rule: env_step.cases) (auto simp: pool_simps)
qed

lemma init_stuck:
  assumes "pool_step\<^sup>*\<^sup>* s t" and "pool_init s" and "client s = C_init" and "j < nthreads s" and "wpcs s j = W_absent"
  shows "client t = C_init \<and> j < nthreads t \<and> wpcs t j = W_absent"
  using assms
proof (induction rule: rtranclp_induct)
  case (step u t)
  then have u: "client u = C_init" "j < nthreads u" "wpcs u j = W_absent" by auto
  have "pool_reach u" using step.hyps(1) step.prems(1) by (blast intro: reach_run reach_init)
  then have "num_threads_alive u = cnt alive_pc (nthreads u) (wpcs u)"
    using control.inv_reach by (simp add: inv_ctl_def)
  moreover have "cnt alive_pc (nthreads u) (wpcs u) \<noteq> int (nthreads u)"
    using u(2,3) by (auto simp: cnt_all_iff)
  ultimately show ?case
    using u init_client [OF step.hyps(2)] absent_step [OF step.hyps(2)] step_nthreads [OF step.hyps(2)] by simp
qed simp

text \<open>When every thread exists, they can announce themselves one after the other.\<close>

lemma threads_start:
  assumes "client s = C_init" and "num_threads_alive s = 0" and "held s = (\<lambda>i. False)"
    and "\<forall>i < nthreads s. wpcs s i = W_start" and "m \<le> nthreads s"
  shows "\<exists>t. pool_step\<^sup>*\<^sup>* s t \<and> client t = C_init \<and> nthreads t = nthreads s \<and> num_threads_alive t = int m
     \<and> held t = (\<lambda>i. False) \<and> (\<forall>i < nthreads s. m \<le> i \<longrightarrow> wpcs t i = W_start)"
  using assms(5)
proof (induction m)
  case 0
  with assms show ?case by auto
next
  case (Suc m)
  then obtain t where t: "pool_step\<^sup>*\<^sup>* s t" "client t = C_init" "nthreads t = nthreads s" "num_threads_alive t = int m"
    "held t = (\<lambda>i. False)" "\<forall>i < nthreads s. m \<le> i \<longrightarrow> wpcs t i = W_start" by auto
  let ?u = "(goto t m W_loop)\<lparr>num_threads_alive := num_threads_alive t + 1\<rparr>"
  have "worker_step m t ?u" using Suc.prems t by (intro worker_step.start) (auto simp: lock_free_def)
  then have "pool_step t ?u" using Suc.prems t by (intro pool_step.worker [of m]) auto
  with t have "pool_step\<^sup>*\<^sup>* s ?u" by (meson rtranclp.rtrancl_into_rtrancl)
  with t show ?case by (intro exI [of _ ?u]) (auto simp: pool_simps)
qed

text \<open>
  C27: what \<^verbatim>\<open>thpool_init\<close> does when memory is available for the pool but some thread cannot be created. If
  \<^verbatim>\<open>pthread_create\<close> fails for one, \<^verbatim>\<open>pthread_detach\<close> is called with an identifier that was never set. Otherwise, if a thread could
  not be prepared (\<^verbatim>\<open>thread_init\<close> returned \<open>-1\<close>, which is ignored), the caller spins forever: in every state that the pool can get into it
  is still in \<^verbatim>\<open>thpool_init\<close>. If all threads exist, \<^verbatim>\<open>thpool_init\<close> can return.
\<close>

theorem thpool_init_hangs_without_thread:
  assumes "pool_malloc_ok E" and "sem_malloc_ok E" and "threads_calloc_ok E" and "0 \<le> k"
  shows "if \<exists>i < nat k. thread_init (thread_envs E i) = Inl Uninitialised then thpool_init E k = Inl Uninitialised
    else \<exists>s. thpool_init E k = Inr (Some s)
      \<and> (if \<exists>i < nat k. \<exists>sl b. thread_init (thread_envs E i) = Inr (- 1, sl, b)
         then \<forall>t. pool_step\<^sup>*\<^sup>* s t \<longrightarrow> client t = C_init
         else \<exists>t. pool_step\<^sup>*\<^sup>* s t \<and> client t = C_idle)"
proof -
  let ?E = "thread_envs E"
  have bad: "thread_init e = Inl Uninitialised \<longleftrightarrow> prepared e \<and> \<not> create_ok e"
    and fails: "(\<exists>sl b. thread_init e = Inr (- 1, sl, b)) \<longleftrightarrow> \<not> prepared e" for e
    by (auto simp: thread_init_def prepared_def)
  show ?thesis
  proof (cases "\<exists>i < nat k. prepared (?E i) \<and> \<not> create_ok (?E i)")
    case True
    then have "thpool_init E k = Inl Uninitialised"
      using assms by (simp add: thpool_init_def jobqueue_init_def bsem_init_def create_threads_result)
    with True show ?thesis by (simp add: bad)
  next
    case False
    then obtain s where s: "thpool_init E k = Inr (Some s)"
      using assms by (auto simp: thpool_init_def jobqueue_init_def bsem_init_def create_threads_result)
    note st = thpool_init_state [OF s]
    have "client t = C_init" if "j < nat k" "\<not> prepared (?E j)" "pool_step\<^sup>*\<^sup>* s t" for j t
      using init_stuck [OF that(3), of j] st that(1,2) s by (auto simp: pool_init_def)
    moreover have "\<exists>t. pool_step\<^sup>*\<^sup>* s t \<and> client t = C_idle" if all: "\<forall>i < nat k. prepared (?E i)"
    proof -
      from threads_start [of s "nthreads s"] st all obtain t where
        t: "pool_step\<^sup>*\<^sup>* s t" "client t = C_init" "num_threads_alive t = int (nthreads t)" by auto
      have "pool_step t (t\<lparr>client := C_idle\<rparr>)" by (rule pool_step.client [OF client_step.init_done [OF t(2,3)]])
      with t(1) have "pool_step\<^sup>*\<^sup>* s (t\<lparr>client := C_idle\<rparr>)" by (rule rtranclp.rtrancl_into_rtrancl)
      then show ?thesis by (intro exI [of _ "t\<lparr>client := C_idle\<rparr>"]) simp
    qed
    ultimately show ?thesis using False s by (auto simp: bad fails)
  qed
qed

text \<open>One thread exists, and the memory for the second one is refused.\<close>

definition one_thread_env :: init_env where
  "one_thread_env = demo_env\<lparr>thread_envs := (\<lambda>i. \<lparr>malloc_ok = (i = 0), attr_init_ok = True, stacksize_ok = True, create_ok = True\<rparr>)\<rparr>"

theorem thpool_init_hangs_without_thread_witness:
  "(\<exists>s t. thpool_init one_thread_env 2 = Inr (Some s) \<and> pool_step s t \<and> client t = C_init)
   \<and> thpool_init demo_env 2 = Inl Uninitialised"
proof
  have ok: "pool_malloc_ok one_thread_env" "sem_malloc_ok one_thread_env" "threads_calloc_ok one_thread_env"
    "pool_malloc_ok demo_env" "sem_malloc_ok demo_env" "threads_calloc_ok demo_env"
    by (simp_all add: one_thread_env_def demo_env_def)
  have "thread_init (thread_envs one_thread_env i) \<noteq> Inl Uninitialised" for i
    by (simp add: thread_init_def one_thread_env_def)
  moreover have "thread_init (thread_envs one_thread_env 1) = Inr (- 1, SlotNull, False)"
    by (simp add: thread_init_def one_thread_env_def)
  moreover have "(1 :: nat) < nat 2" by simp
  ultimately obtain s where s: "thpool_init one_thread_env 2 = Inr (Some s)" "\<forall>t. pool_step\<^sup>*\<^sup>* s t \<longrightarrow> client t = C_init"
    using thpool_init_hangs_without_thread [OF ok(1-3), of 2] by (smt (verit) zero_le_numeral)
  note st = thpool_init_state [OF s(1)]
  have "wpcs s 0 = W_start" by (simp add: st(1,2) prepared_def one_thread_env_def)
  moreover have "lock_free s" using st(3) by (simp add: lock_free_def)
  moreover have "0 < nthreads s" "\<not> held s 0" using st(2,5) by simp_all
  ultimately obtain t where t: "pool_step s t" using pool_step.worker worker_step.start by metis
  then have "pool_step\<^sup>*\<^sup>* s t" by (rule r_into_rtranclp)
  with s t show "\<exists>s t. thpool_init one_thread_env 2 = Inr (Some s) \<and> pool_step s t \<and> client t = C_init" by blast
  have "thread_init (thread_envs demo_env 1) = Inl Uninitialised" by (simp add: thread_init_def demo_env_def)
  moreover have "(1 :: nat) < nat 2" by simp
  ultimately show "thpool_init demo_env 2 = Inl Uninitialised"
    using thpool_init_hangs_without_thread [OF ok(4-6), of 2] by (smt (verit) zero_le_numeral)
qed

text \<open>
  A \<^verbatim>\<open>thpool_resume\<close> can be lost. A state is reachable in which the client has paused the
  pool and resumed it, and a worker that receives the signal of the pause only then sets
  \<^verbatim>\<open>threads_on_hold\<close> again and is held, although the last call of the client was the resume.
\<close>

theorem resume_can_be_lost:
  "\<exists>s v i. pool_reach s \<and> client s = C_idle \<and> i < nthreads s
     \<and> (let paused = s\<lparr>sig_pending := (\<lambda>i. sig_pending s i \<or> int i < num_threads_alive s)\<rparr>;
            resumed = paused\<lparr>threads_on_hold := False\<rparr> in
        client_step s paused \<and> client_step paused resumed \<and> env_step resumed v
        \<and> held v i \<and> threads_on_hold v)"
proof -
  let ?s = "demo True 1 W_loop C_idle"
  let ?p = "?s\<lparr>sig_pending := (\<lambda>i. sig_pending ?s i \<or> int i < num_threads_alive ?s)\<rparr>"
  let ?r = "?p\<lparr>threads_on_hold := False\<rparr>"
  let ?v = "?r\<lparr>sig_pending := (sig_pending ?r)(0 := False), held := (held ?r)(0 := True), threads_on_hold := True\<rparr>"
  have "client_step ?s ?p" by (rule client_step.pause) simp
  moreover have "client_step ?p ?r" by (rule client_step.resume) simp
  moreover have "env_step ?r ?v" by (rule env_step.deliver) (simp_all add: demo_def)
  moreover have "held ?v 0" "threads_on_hold ?v" "0 < nthreads ?s" "client ?s = C_idle" by simp_all
  ultimately show ?thesis using demo_ready unfolding Let_def by blast
qed

end
