(* ===== verification/Multi_Producer.thy ===== *)
theory Multi_Producer
  imports C_Stdio Step_Systems "HOL-Library.Multiset"
begin

text \<open>
  \<^verbatim>\<open>Pthread/multiple_producer_consumer.c\<close>: any number of producers and consumers share one
  bounded buffer guarded by three semaphores. The buffer operations are functions, the threads
  and the polling loop of \<^verbatim>\<open>main\<close> a step relation with one rule per semaphore operation and one
  per critical section. Log messages are left out.
\<close>

section \<open>The buffer\<close>

text \<open>
  \<open>data\<close> is the allocated block (\<open>None\<close> for the null pointer), an element is \<open>None\<close> while it is
  uninitialised; \<open>dataptr\<close> is the index the pointer \<^verbatim>\<open>dataptr\<close> refers to. The \<^verbatim>\<open>unsigned int\<close>
  counters and the \<^verbatim>\<open>size_t\<close> size wrap around. The semaphores are their values.
\<close>

record buffer_t =
  num_gen :: nat
  num_con :: nat
  capacity :: nat
  bsize :: nat
  data :: "int option list option"
  dataptr :: int
  mutex :: nat
  empty :: nat
  full :: nat

definition u32 :: "nat \<Rightarrow> nat" where "u32 n = n mod 4294967296"
definition u64 :: "nat \<Rightarrow> nat" where "u64 n = n mod 18446744073709551616"

lemma u32_small [simp]: "n < 4294967296 \<Longrightarrow> u32 n = n"
  by (simp add: u32_def)

lemma u64_small [simp]: "n < 18446744073709551616 \<Longrightarrow> u64 n = n"
  by (simp add: u64_def)

definition sem_wait :: "nat \<Rightarrow> nat option" where
  "sem_wait v = (if v = 0 then None else Some (v - 1))"

definition sem_post :: "nat \<Rightarrow> nat" where
  "sem_post v = v + 1"

definition buffer_create :: "allocator \<Rightarrow> int \<Rightarrow> buffer_t option" where
  "buffer_create A cap =
     (if \<not> alloc_ok A 136 then None
      else if \<not> alloc_ok A (to_size_t (cap * 4)) then None
      else Some \<lparr>num_gen = 0, num_con = 0, capacity = to_size_t cap, bsize = 0,
                 data = Some (replicate (to_size_t (cap * 4) div 4) None), dataptr = 0,
                 mutex = 1, empty = nat cap, full = 0\<rparr>)"

text \<open>The semaphores are destroyed as well: what is left must not be used any more.\<close>

definition buffer_destroy :: "buffer_t \<Rightarrow> buffer_t" where
  "buffer_destroy b = b\<lparr>data := None, dataptr := 0\<rparr>"

text \<open>\<open>r\<close> is the result of \<^verbatim>\<open>rand()\<close>.\<close>

definition produce_item :: "nat \<Rightarrow> buffer_t \<Rightarrow> (int \<times> buffer_t) cres" where
  "produce_item r b =
     (let number = int (r mod 100) in
      cbind (deref (data b)) (\<lambda>d.
      cbind (poke d (dataptr b) [Some number]) (\<lambda>d'.
      Inr (number, b\<lparr>data := Some d', bsize := u64 (bsize b + 1), dataptr := dataptr b + 1,
                     num_gen := u32 (num_gen b + 1)\<rparr>))))"

definition consume_item :: "buffer_t \<Rightarrow> (int \<times> buffer_t) cres" where
  "consume_item b =
     cbind (deref (data b)) (\<lambda>d.
     cbind (peek d (dataptr b - 1) 1) (\<lambda>v.
     case v of [Some number] \<Rightarrow>
         Inr (number, b\<lparr>bsize := u64 (bsize b + 18446744073709551615), dataptr := dataptr b - 1,
                        num_con := u32 (num_con b + 1)\<rparr>)
     | _ \<Rightarrow> Inl Uninitialised))"

section \<open>Threads\<close>

text \<open>
  Where a producer or a consumer is: waiting for its token (a free place, an item), for the
  mutex, in the critical section, before the post of the mutex, before the post of the other
  token, ended. The flag says whether the thread is about to leave its loop.
\<close>

datatype tpc = T_token | T_mutex | T_crit | T_unlock bool | T_post bool | T_exit

text \<open>Where \<^verbatim>\<open>main\<close> is in its polling loop.\<close>

datatype mpc = M_lock | M_check | M_unlock bool | M_destroy | M_end

record sys =
  max_generate :: int
  nprod :: nat
  ncons :: nat
  buf :: buffer_t
  ppc :: "nat \<Rightarrow> tpc"
  cpc :: "nat \<Rightarrow> tpc"
  mainpc :: mpc
  produced :: "int list"
  consumed :: "int list"

definition limit :: "sys \<Rightarrow> nat" where
  "limit s = nat (max_generate s mod 4294967296)"

definition goP :: "sys \<Rightarrow> nat \<Rightarrow> tpc \<Rightarrow> buffer_t \<Rightarrow> sys" where
  "goP s i p b = s\<lparr>ppc := (ppc s)(i := p), buf := b\<rparr>"

definition goC :: "sys \<Rightarrow> nat \<Rightarrow> tpc \<Rightarrow> buffer_t \<Rightarrow> sys" where
  "goC s i p b = s\<lparr>cpc := (cpc s)(i := p), buf := b\<rparr>"

text \<open>\<^verbatim>\<open>do_produce\<close>.\<close>

inductive producer_step :: "nat \<Rightarrow> sys \<Rightarrow> sys \<Rightarrow> bool" for i where
  p_token: "ppc s i = T_token \<Longrightarrow> sem_wait (empty (buf s)) = Some v \<Longrightarrow>
    producer_step i s (goP s i T_mutex ((buf s)\<lparr>empty := v\<rparr>))"
| p_mutex: "ppc s i = T_mutex \<Longrightarrow> sem_wait (mutex (buf s)) = Some v \<Longrightarrow>
    producer_step i s (goP s i T_crit ((buf s)\<lparr>mutex := v\<rparr>))"
| p_limit: "ppc s i = T_crit \<Longrightarrow> limit s = num_gen (buf s) \<Longrightarrow>
    producer_step i s (goP s i (T_unlock True) (buf s))"
| p_produce: "ppc s i = T_crit \<Longrightarrow> limit s \<noteq> num_gen (buf s) \<Longrightarrow> bsize (buf s) < capacity (buf s) \<Longrightarrow>
    produce_item r (buf s) = Inr (n, b) \<Longrightarrow>
    producer_step i s ((goP s i (T_unlock False) b)\<lparr>produced := produced s @ [n]\<rparr>)"
| p_full: "ppc s i = T_crit \<Longrightarrow> limit s \<noteq> num_gen (buf s) \<Longrightarrow> \<not> bsize (buf s) < capacity (buf s) \<Longrightarrow>
    producer_step i s (goP s i (T_unlock False) (buf s))"
| p_unlock: "ppc s i = T_unlock e \<Longrightarrow>
    producer_step i s (goP s i (T_post e) ((buf s)\<lparr>mutex := sem_post (mutex (buf s))\<rparr>))"
| p_post: "ppc s i = T_post e \<Longrightarrow>
    producer_step i s (goP s i (if e then T_exit else T_token) ((buf s)\<lparr>full := sem_post (full (buf s))\<rparr>))"

text \<open>\<^verbatim>\<open>do_consume\<close>.\<close>

inductive consumer_step :: "nat \<Rightarrow> sys \<Rightarrow> sys \<Rightarrow> bool" for i where
  c_token: "cpc s i = T_token \<Longrightarrow> sem_wait (full (buf s)) = Some v \<Longrightarrow>
    consumer_step i s (goC s i T_mutex ((buf s)\<lparr>full := v\<rparr>))"
| c_mutex: "cpc s i = T_mutex \<Longrightarrow> sem_wait (mutex (buf s)) = Some v \<Longrightarrow>
    consumer_step i s (goC s i T_crit ((buf s)\<lparr>mutex := v\<rparr>))"
| c_limit: "cpc s i = T_crit \<Longrightarrow> num_con (buf s) = limit s \<Longrightarrow>
    consumer_step i s (goC s i (T_unlock True) (buf s))"
| c_consume: "cpc s i = T_crit \<Longrightarrow> num_con (buf s) \<noteq> limit s \<Longrightarrow> bsize (buf s) > 0 \<Longrightarrow>
    consume_item (buf s) = Inr (n, b) \<Longrightarrow>
    consumer_step i s ((goC s i (T_unlock False) b)\<lparr>consumed := consumed s @ [n]\<rparr>)"
| c_empty: "cpc s i = T_crit \<Longrightarrow> num_con (buf s) \<noteq> limit s \<Longrightarrow> \<not> bsize (buf s) > 0 \<Longrightarrow>
    consumer_step i s (goC s i (T_unlock False) (buf s))"
| c_unlock: "cpc s i = T_unlock e \<Longrightarrow>
    consumer_step i s (goC s i (T_post e) ((buf s)\<lparr>mutex := sem_post (mutex (buf s))\<rparr>))"
| c_post: "cpc s i = T_post e \<Longrightarrow>
    consumer_step i s (goC s i (if e then T_exit else T_token) ((buf s)\<lparr>empty := sem_post (empty (buf s))\<rparr>))"

text \<open>The loop of \<^verbatim>\<open>main\<close> and its end.\<close>

inductive main_step :: "sys \<Rightarrow> sys \<Rightarrow> bool" where
  m_lock: "mainpc s = M_lock \<Longrightarrow> sem_wait (mutex (buf s)) = Some v \<Longrightarrow>
    main_step s (s\<lparr>mainpc := M_check, buf := (buf s)\<lparr>mutex := v\<rparr>\<rparr>)"
| m_check: "mainpc s = M_check \<Longrightarrow>
    main_step s (s\<lparr>mainpc := M_unlock (num_con (buf s) = limit s \<and> num_gen (buf s) = limit s)\<rparr>)"
| m_unlock: "mainpc s = M_unlock e \<Longrightarrow>
    main_step s (s\<lparr>mainpc := (if e then M_destroy else M_lock),
                  buf := (buf s)\<lparr>mutex := sem_post (mutex (buf s))\<rparr>\<rparr>)"
| m_destroy: "mainpc s = M_destroy \<Longrightarrow>
    main_step s (s\<lparr>mainpc := M_end, buf := buffer_destroy (buf s)\<rparr>)"

text \<open>No thread moves after the buffer has been destroyed: the process ends with \<^verbatim>\<open>main\<close>.\<close>

inductive sys_step :: "sys \<Rightarrow> sys \<Rightarrow> bool" where
  producer: "mainpc s \<noteq> M_end \<Longrightarrow> i < nprod s \<Longrightarrow> producer_step i s t \<Longrightarrow> sys_step s t"
| consumer: "mainpc s \<noteq> M_end \<Longrightarrow> i < ncons s \<Longrightarrow> consumer_step i s t \<Longrightarrow> sys_step s t"
| main: "main_step s t \<Longrightarrow> sys_step s t"

section \<open>Starting\<close>

text \<open>The answers of the system to \<^verbatim>\<open>threads_create\<close>.\<close>

record create_env =
  calloc_ok :: bool
  handle_ok :: "nat \<Rightarrow> bool"
  create_ok :: "nat \<Rightarrow> bool"
  detach_ok :: "nat \<Rightarrow> bool"

text \<open>The loop of \<^verbatim>\<open>threads_create\<close>: whether it completes, and how many threads run then.\<close>

fun create_loop :: "create_env \<Rightarrow> nat \<Rightarrow> nat \<Rightarrow> bool \<times> nat" where
  "create_loop E i 0 = (True, i)"
| "create_loop E i (Suc k) =
     (if \<not> handle_ok E i then (False, i)
      else if \<not> create_ok E i then (False, i)
      else if \<not> detach_ok E i then (False, Suc i)
      else create_loop E (Suc i) k)"

definition threads_create :: "create_env \<Rightarrow> int \<Rightarrow> bool \<times> nat" where
  "threads_create E num_pthread =
     (if \<not> calloc_ok E then (False, 0) else create_loop E 0 (nat num_pthread))"

record main_env =
  fopen_ok :: bool
  alloc :: allocator
  prod_env :: create_env
  cons_env :: create_env

text \<open>
  How \<^verbatim>\<open>main\<close> gets to its polling loop: it has returned with a status (and that many threads are
  running on a destroyed buffer), or it is in the loop.
\<close>

datatype outcome = Returned int nat | Polling sys

definition mpc_main :: "main_env \<Rightarrow> string list \<Rightarrow> outcome cres" where
  "mpc_main E argv =
     (if length argv \<noteq> 6 then Inr (Returned 1 0)
      else
        cbind (atoi (argv ! 2)) (\<lambda>num_producer.
        cbind (atoi (argv ! 3)) (\<lambda>num_consumer.
        cbind (atoi (argv ! 4)) (\<lambda>c.
        let capacity = to_size_t c in
        cbind (atoi (argv ! 5)) (\<lambda>max_gen.
        if \<not> fopen_ok E then Inr (Returned 1 0)
        else if num_consumer \<le> 0 \<or> num_producer \<le> 0 \<or> max_gen < 0 then Inr (Returned 1 0)
        else (case buffer_create (alloc E) (to_int capacity) of
            None \<Rightarrow> Inr (Returned 1 0)
          | Some b \<Rightarrow>
              (let (okp, np) = threads_create (prod_env E) num_producer in
               if \<not> okp then Inr (Returned 1 np)
               else
                 (let (okc, nc) = threads_create (cons_env E) num_consumer in
                  if \<not> okc then Inr (Returned 1 (np + nc))
                  else Inr (Polling \<lparr>max_generate = max_gen, nprod = np, ncons = nc, buf = b,
                         ppc = (\<lambda>i. T_token), cpc = (\<lambda>i. T_token), mainpc = M_lock,
                         produced = [], consumed = []\<rparr>)))))))))"

definition sys_init :: "sys \<Rightarrow> bool" where
  "sys_init s \<longleftrightarrow> (\<exists>E argv. mpc_main E argv = Inr (Polling s))"

abbreviation sys_reach :: "sys \<Rightarrow> bool" where
  "sys_reach \<equiv> reach sys_init sys_step"

section \<open>Invariant\<close>

fun locked :: "tpc \<Rightarrow> bool" where
  "locked T_crit = True" | "locked (T_unlock e) = True" | "locked _ = False"

fun pre :: "tpc \<Rightarrow> bool" where
  "pre T_mutex = True" | "pre T_crit = True" | "pre _ = False"

fun post :: "tpc \<Rightarrow> bool" where
  "post (T_unlock e) = True" | "post (T_post e) = True" | "post _ = False"

fun leaving :: "tpc \<Rightarrow> bool" where
  "leaving (T_unlock e) = e" | "leaving (T_post e) = e" | "leaving T_exit = True" | "leaving _ = False"

fun main_locked :: "mpc \<Rightarrow> bool" where
  "main_locked M_check = True" | "main_locked (M_unlock e) = True" | "main_locked _ = False"

fun main_done :: "mpc \<Rightarrow> bool" where
  "main_done (M_unlock e) = e" | "main_done M_destroy = True" | "main_done M_end = True" | "main_done _ = False"

text \<open>
  The mutex has one owner. The places of the buffer are accounted for by the two token
  semaphores and the threads that hold a token. The items in the buffer are covered by tokens,
  exactly as long as the limit has not been reached, which no thread leaves before.
\<close>

definition inv_sync :: "sys \<Rightarrow> bool" where
  "inv_sync s \<longleftrightarrow>
     int (mutex (buf s)) + cnt locked (nprod s) (ppc s) + cnt locked (ncons s) (cpc s)
       + of_bool (main_locked (mainpc s)) = 1
   \<and> int (empty (buf s)) + int (full (buf s)) + cnt pre (nprod s) (ppc s) + cnt post (nprod s) (ppc s)
       + cnt pre (ncons s) (cpc s) + cnt post (ncons s) (cpc s) = int (capacity (buf s))
   \<and> int (bsize (buf s)) \<le> int (full (buf s)) + cnt pre (ncons s) (cpc s) + cnt post (nprod s) (ppc s)
   \<and> (num_gen (buf s) < limit s \<longrightarrow>
        int (bsize (buf s)) = int (full (buf s)) + cnt pre (ncons s) (cpc s) + cnt post (nprod s) (ppc s))
   \<and> num_gen (buf s) \<le> limit s \<and> bsize (buf s) + num_con (buf s) = num_gen (buf s)
   \<and> bsize (buf s) \<le> capacity (buf s) \<and> limit s \<le> 2147483647 \<and> capacity (buf s) \<le> 2147483647
   \<and> (num_gen (buf s) < limit s \<longrightarrow> cnt leaving (nprod s) (ppc s) = 0)
   \<and> (num_con (buf s) < limit s \<longrightarrow> cnt leaving (ncons s) (cpc s) = 0)
   \<and> (main_done (mainpc s) \<longrightarrow> num_con (buf s) = limit s)"

named_theorems sys_simps \<open>effect of the steps on the fields and the counts\<close>

declare cnt_upd [sys_simps]
declare total_upd [sys_simps]

lemma go_simps [sys_simps]:
  "ppc (goP s i p b) = (ppc s)(i := p)" "cpc (goP s i p b) = cpc s" "buf (goP s i p b) = b"
  "nprod (goP s i p b) = nprod s" "ncons (goP s i p b) = ncons s" "mainpc (goP s i p b) = mainpc s"
  "max_generate (goP s i p b) = max_generate s" "produced (goP s i p b) = produced s"
  "consumed (goP s i p b) = consumed s" "limit (goP s i p b) = limit s"
  "cpc (goC s i p b) = (cpc s)(i := p)" "ppc (goC s i p b) = ppc s" "buf (goC s i p b) = b"
  "nprod (goC s i p b) = nprod s" "ncons (goC s i p b) = ncons s" "mainpc (goC s i p b) = mainpc s"
  "max_generate (goC s i p b) = max_generate s" "produced (goC s i p b) = produced s"
  "consumed (goC s i p b) = consumed s" "limit (goC s i p b) = limit s"
  by (simp_all add: goP_def goC_def limit_def)

lemma limit_simps [sys_simps]:
  "limit (s\<lparr>buf := b\<rparr>) = limit s" "limit (s\<lparr>mainpc := m\<rparr>) = limit s"
  "limit (s\<lparr>mainpc := m, buf := b\<rparr>) = limit s"
  "limit (s\<lparr>produced := xs\<rparr>) = limit s" "limit (s\<lparr>consumed := xs\<rparr>) = limit s"
  by (simp_all add: limit_def)

lemma sem_simps [sys_simps]:
  "sem_wait v = Some v' \<longleftrightarrow> v = Suc v'" "sem_wait v = None \<longleftrightarrow> v = 0" "sem_post v = Suc v"
  by (auto simp: sem_wait_def sem_post_def)

text \<open>What the two operations on the data do.\<close>

lemma produce_item_result:
  assumes "produce_item r b = Inr (n, b')" and "bsize b < 2147483648" and "num_gen b < 2147483648"
  shows "bsize b' = Suc (bsize b)" "num_gen b' = Suc (num_gen b)" "num_con b' = num_con b"
    "capacity b' = capacity b" "mutex b' = mutex b" "empty b' = empty b" "full b' = full b"
    "dataptr b' = dataptr b + 1"
    "\<exists>d d'. data b = Some d \<and> data b' = Some d' \<and> poke d (dataptr b) [Some n] = Inr d'"
  using assms by (auto simp: produce_item_def Let_def cbind_eq_Inr_iff deref_def split: option.splits)

lemma consume_item_result:
  assumes "consume_item b = Inr (n, b')" and "bsize b > 0" and "bsize b < 2147483648" and "num_con b < 2147483648"
  shows "Suc (bsize b') = bsize b" "num_con b' = Suc (num_con b)" "num_gen b' = num_gen b"
    "capacity b' = capacity b" "mutex b' = mutex b" "empty b' = empty b" "full b' = full b"
    "dataptr b' = dataptr b - 1" "data b' = data b"
    "\<exists>d. data b = Some d \<and> peek d (dataptr b - 1) 1 = Inr [Some n]"
proof -
  from assms(1) obtain d v where d: "data b = Some d" "peek d (dataptr b - 1) 1 = Inr v"
    and v: "(case v of [Some number] \<Rightarrow>
         Inr (number, b\<lparr>bsize := u64 (bsize b + 18446744073709551615), dataptr := dataptr b - 1,
                        num_con := u32 (num_con b + 1)\<rparr>)
     | _ \<Rightarrow> Inl Uninitialised) = Inr (n, b')"
    by (cases "data b") (auto simp: consume_item_def cbind_eq_Inr_iff)
  have n: "v = [Some n]" and b': "b' = b\<lparr>bsize := u64 (bsize b + 18446744073709551615),
      dataptr := dataptr b - 1, num_con := u32 (num_con b + 1)\<rparr>"
    using v by (auto split: list.splits option.splits)
  have u: "u64 (bsize b + 18446744073709551615) = bsize b - 1"
    using assms(2,3) by (auto simp: u64_def gr0_conv_Suc)
  show "Suc (bsize b') = bsize b" "num_con b' = Suc (num_con b)" "num_gen b' = num_gen b"
    "capacity b' = capacity b" "mutex b' = mutex b" "empty b' = empty b" "full b' = full b"
    "dataptr b' = dataptr b - 1" "data b' = data b"
    using assms(2-4) u unfolding b' by simp_all
  show "\<exists>d. data b = Some d \<and> peek d (dataptr b - 1) 1 = Inr [Some n]" using d n by simp
qed

lemma inv_sync_room:
  assumes "inv_sync s" and "i < nprod s" and "ppc s i = T_crit" and "limit s \<noteq> num_gen (buf s)"
  shows "bsize (buf s) < capacity (buf s)" "num_gen (buf s) < limit s"
proof -
  show g: "num_gen (buf s) < limit s" using assms(1,4) by (auto simp: inv_sync_def)
  have "0 < cnt pre (nprod s) (ppc s)" using assms(2,3) cnt_pos [of i "nprod s" pre "ppc s"] by simp
  moreover have "0 \<le> cnt post (ncons s) (cpc s)" by (rule cnt_nonneg)
  ultimately show "bsize (buf s) < capacity (buf s)" using assms(1) g by (auto simp: inv_sync_def)
qed

lemma inv_sync_item:
  assumes "inv_sync s" and "i < ncons s" and "cpc s i = T_crit" and "num_con (buf s) \<noteq> limit s"
  shows "0 < bsize (buf s)" "num_con (buf s) < limit s"
proof -
  show c: "num_con (buf s) < limit s" using assms(1,4) by (auto simp: inv_sync_def)
  have "0 < cnt pre (ncons s) (cpc s)" using assms(2,3) cnt_pos [of i "ncons s" pre "cpc s"] by simp
  moreover have "0 \<le> cnt post (nprod s) (ppc s)" by (rule cnt_nonneg)
  ultimately show "0 < bsize (buf s)" using assms(1) c
    by (cases "num_gen (buf s) < limit s") (auto simp: inv_sync_def)
qed

lemma inv_sync_producer:
  assumes "producer_step i s t" and "i < nprod s" and "inv_sync s"
  shows "inv_sync t"
  using assms(1)
proof (cases rule: producer_step.cases)
  case (p_produce r n b)
  have "bsize (buf s) < 2147483648" "num_gen (buf s) < 2147483648"
    using assms(3) by (auto simp: inv_sync_def)
  note r = produce_item_result [OF p_produce(5) this]
  from p_produce(1-4) assms(2,3) r(1-7) inv_sync_room [OF assms(3,2) p_produce(2,3)] show ?thesis
    unfolding inv_sync_def by (auto simp: sys_simps simp del: fun_upd_apply)
next
  case p_full
  with inv_sync_room [OF assms(3,2)] show ?thesis by simp
qed (use assms(2,3) in \<open>auto simp: inv_sync_def sys_simps simp del: fun_upd_apply split: if_splits\<close>)

lemma inv_sync_consumer:
  assumes "consumer_step i s t" and "i < ncons s" and "inv_sync s"
  shows "inv_sync t"
  using assms(1)
proof (cases rule: consumer_step.cases)
  case (c_consume n b)
  have "bsize (buf s) < 2147483648" "num_con (buf s) < 2147483648"
    using assms(3) by (auto simp: inv_sync_def)
  note r = consume_item_result [OF c_consume(5,4) this]
  from c_consume(1-4) assms(2,3) r(1-7) inv_sync_item [OF assms(3,2) c_consume(2,3)] show ?thesis
    unfolding inv_sync_def by (auto simp: sys_simps simp del: fun_upd_apply)
next
  case c_limit
  have "0 < cnt pre (ncons s) (cpc s)" "0 \<le> cnt post (nprod s) (ppc s)"
    using assms(2) c_limit(2) cnt_pos [of i "ncons s" pre "cpc s"] cnt_nonneg by simp_all
  moreover have "bsize (buf s) = 0" "num_gen (buf s) = limit s"
    using assms(3) c_limit(3) by (simp_all add: inv_sync_def)
  ultimately show ?thesis
    using c_limit assms(2,3) by (simp add: inv_sync_def sys_simps del: fun_upd_apply)
next
  case c_empty
  with inv_sync_item [OF assms(3,2)] show ?thesis by simp
qed (use assms(2,3) in \<open>auto simp: inv_sync_def sys_simps simp del: fun_upd_apply split: if_splits\<close>)

lemma inv_sync_main:
  assumes "main_step s t" and "inv_sync s"
  shows "inv_sync t"
  using assms by (cases rule: main_step.cases) (auto simp: inv_sync_def sys_simps buffer_destroy_def)

text \<open>
  The block of the buffer: its first \<^verbatim>\<open>size\<close> elements are the items produced and not yet
  consumed, \<^verbatim>\<open>dataptr\<close> points behind them.
\<close>

definition inv_data :: "sys \<Rightarrow> int list \<Rightarrow> bool" where
  "inv_data s xs \<longleftrightarrow>
     (\<exists>ys. data (buf s) = Some (map Some xs @ ys) \<and> length xs + length ys = capacity (buf s))
   \<and> dataptr (buf s) = int (length xs) \<and> bsize (buf s) = length xs
   \<and> mset (produced s) = mset (consumed s) + mset xs
   \<and> length (produced s) = num_gen (buf s) \<and> length (consumed s) = num_con (buf s)"

lemma inv_data_frame:
  assumes "inv_data s xs" and "data (buf t) = data (buf s)" "dataptr (buf t) = dataptr (buf s)"
    "bsize (buf t) = bsize (buf s)" "capacity (buf t) = capacity (buf s)" "num_gen (buf t) = num_gen (buf s)"
    "num_con (buf t) = num_con (buf s)" "produced t = produced s" "consumed t = consumed s"
  shows "inv_data t xs"
  using assms by (simp add: inv_data_def)

lemma produce_item_data:
  assumes "inv_data s xs" and "bsize (buf s) < capacity (buf s)" and "capacity (buf s) \<le> 2147483647"
    and "num_gen (buf s) < 2147483648"
  shows "\<exists>b. produce_item r (buf s) = Inr (int (r mod 100), b)
      \<and> (\<forall>t. buf t = b \<longrightarrow> produced t = produced s @ [int (r mod 100)] \<longrightarrow> consumed t = consumed s
             \<longrightarrow> inv_data t (xs @ [int (r mod 100)]))"
proof -
  from assms(1) obtain ys where d: "data (buf s) = Some (map Some xs @ ys)"
    "length xs + length ys = capacity (buf s)" "dataptr (buf s) = int (length xs)"
    "bsize (buf s) = length xs" by (auto simp: inv_data_def)
  with assms(2) obtain y zs where ys: "ys = y # zs" by (cases ys) auto
  let ?n = "int (r mod 100)"
  have "poke (map Some xs @ ys) (dataptr (buf s)) [Some ?n] = Inr (map Some (xs @ [?n]) @ zs)"
    using d(3) ys by (simp add: poke_def)
  then have "produce_item r (buf s) = Inr (?n, (buf s)\<lparr>data := Some (map Some (xs @ [?n]) @ zs),
      bsize := Suc (length xs), dataptr := int (length xs) + 1, num_gen := Suc (num_gen (buf s))\<rparr>)"
    using d assms(2-4) by (simp add: produce_item_def Let_def)
  moreover have "inv_data t (xs @ [?n])" if "buf t = (buf s)\<lparr>data := Some (map Some (xs @ [?n]) @ zs),
      bsize := Suc (length xs), dataptr := int (length xs) + 1, num_gen := Suc (num_gen (buf s))\<rparr>"
    "produced t = produced s @ [?n]" "consumed t = consumed s" for t
    using that assms(1) d(2) ys by (auto simp: inv_data_def)
  ultimately show ?thesis by blast
qed

lemma consume_item_data:
  assumes "inv_data s xs" and "0 < bsize (buf s)" and "capacity (buf s) \<le> 2147483647"
    and "num_con (buf s) < 2147483648"
  shows "\<exists>b. consume_item (buf s) = Inr (last xs, b)
      \<and> (\<forall>t. buf t = b \<longrightarrow> consumed t = consumed s @ [last xs] \<longrightarrow> produced t = produced s
             \<longrightarrow> inv_data t (butlast xs))"
proof -
  from assms(1) obtain ys where d: "data (buf s) = Some (map Some xs @ ys)"
    "length xs + length ys = capacity (buf s)" "dataptr (buf s) = int (length xs)"
    "bsize (buf s) = length xs" by (auto simp: inv_data_def)
  with assms(2) obtain zs z where xs: "xs = zs @ [z]" by (cases xs rule: rev_cases) auto
  have "peek (map Some xs @ ys) (dataptr (buf s) - 1) 1 = Inr [Some z]"
    using d(3) xs by (simp add: peek_def)
  moreover have "u64 (bsize (buf s) + 18446744073709551615) = length zs"
    using d(2,4) xs assms(3) by (simp add: u64_def)
  ultimately have "consume_item (buf s) = Inr (z, (buf s)\<lparr>bsize := length zs, dataptr := int (length zs),
      num_con := Suc (num_con (buf s))\<rparr>)"
    using d xs assms(4) by (simp add: consume_item_def)
  moreover have "inv_data t zs" if "buf t = (buf s)\<lparr>bsize := length zs, dataptr := int (length zs),
      num_con := Suc (num_con (buf s))\<rparr>" "consumed t = consumed s @ [z]" "produced t = produced s" for t
  proof -
    have "data (buf t) = Some (map Some zs @ Some z # ys)" using that(1) d(1) xs by simp
    then show ?thesis using that assms(1) d(2) xs by (auto simp: inv_data_def)
  qed
  ultimately show ?thesis using xs by auto
qed

definition inv_sys :: "sys \<Rightarrow> bool" where
  "inv_sys s \<longleftrightarrow> inv_sync s \<and> 0 < nprod s \<and> 0 < ncons s
     \<and> (if mainpc s = M_end
        then mset (produced s) = mset (consumed s) \<and> length (produced s) = limit s
        else \<exists>xs. inv_data s xs)"

lemma inv_sys_bounds:
  assumes "inv_sync s"
  shows "capacity (buf s) \<le> 2147483647" "num_gen (buf s) < 2147483648" "num_con (buf s) < 2147483648"
  using assms by (auto simp: inv_sync_def)

lemma inv_sys_producer:
  assumes "producer_step i s t" and "i < nprod s" and "inv_sys s" and "mainpc s \<noteq> M_end"
  shows "inv_sys t"
proof -
  have sync: "inv_sync s" using assms(3) by (simp add: inv_sys_def)
  from assms(3,4) obtain xs where d: "inv_data s xs" by (auto simp: inv_sys_def)
  have "\<exists>ys. inv_data t ys" using assms(1)
  proof (cases rule: producer_step.cases)
    case (p_produce r n b)
    with produce_item_data [OF d p_produce(4), of r] inv_sys_bounds [OF sync]
    have "inv_data t (xs @ [n])" by (auto simp: sys_simps)
    then show ?thesis by blast
  qed (auto intro!: exI [of _ xs] inv_data_frame [OF d] simp: sys_simps)
  moreover have "nprod t = nprod s \<and> ncons t = ncons s \<and> mainpc t = mainpc s" using assms(1)
    by (cases rule: producer_step.cases) (simp_all add: sys_simps)
  ultimately show ?thesis using inv_sync_producer [OF assms(1,2) sync] assms(3,4) by (simp add: inv_sys_def)
qed

lemma inv_sys_consumer:
  assumes "consumer_step i s t" and "i < ncons s" and "inv_sys s" and "mainpc s \<noteq> M_end"
  shows "inv_sys t"
proof -
  have sync: "inv_sync s" using assms(3) by (simp add: inv_sys_def)
  from assms(3,4) obtain xs where d: "inv_data s xs" by (auto simp: inv_sys_def)
  have "\<exists>ys. inv_data t ys" using assms(1)
  proof (cases rule: consumer_step.cases)
    case (c_consume n b)
    with consume_item_data [OF d c_consume(4)] inv_sys_bounds [OF sync]
    have "inv_data t (butlast xs)" by (auto simp: sys_simps)
    then show ?thesis by blast
  qed (auto intro!: exI [of _ xs] inv_data_frame [OF d] simp: sys_simps)
  moreover have "nprod t = nprod s \<and> ncons t = ncons s \<and> mainpc t = mainpc s" using assms(1)
    by (cases rule: consumer_step.cases) (simp_all add: sys_simps)
  ultimately show ?thesis using inv_sync_consumer [OF assms(1,2) sync] assms(3,4) by (simp add: inv_sys_def)
qed

text \<open>All items have been consumed once \<^verbatim>\<open>main\<close> has seen both counters at the limit.\<close>

lemma all_consumed:
  assumes "inv_sync s" and "inv_data s xs" and "num_con (buf s) = limit s"
  shows "mset (produced s) = mset (consumed s) \<and> length (produced s) = limit s"
proof -
  have "bsize (buf s) = 0" "num_gen (buf s) = limit s" using assms(1,3) by (auto simp: inv_sync_def)
  with assms(2) show ?thesis by (simp add: inv_data_def)
qed

lemma inv_sys_main:
  assumes "main_step s t" and "inv_sys s"
  shows "inv_sys t"
proof -
  have sync: "inv_sync s" using assms(2) by (simp add: inv_sys_def)
  have "mainpc s \<noteq> M_end" using assms(1) by (auto elim: main_step.cases)
  with assms(2) obtain xs where d: "inv_data s xs" by (auto simp: inv_sys_def)
  from assms(1) have "if mainpc t = M_end then mset (produced t) = mset (consumed t) \<and> length (produced t) = limit t
     else \<exists>xs. inv_data t xs"
  proof (cases rule: main_step.cases)
    case m_destroy
    have "num_con (buf s) = limit s" using sync m_destroy(2) by (simp add: inv_sync_def)
    from all_consumed [OF sync d this] m_destroy(1) show ?thesis by (simp add: sys_simps)
  qed (auto intro!: exI [of _ xs] inv_data_frame [OF d])
  moreover have "nprod t = nprod s \<and> ncons t = ncons s" using assms(1)
    by (cases rule: main_step.cases) simp_all
  ultimately show ?thesis using inv_sync_main [OF assms(1) sync] assms(2) by (simp add: inv_sys_def)
qed

lemma create_loop_all: "create_loop E i k = (True, n) \<Longrightarrow> n = i + k"
  by (induction E i k rule: create_loop.induct) (auto split: if_splits)

lemma to_int_to_size_t:
  assumes "in_int x"
  shows "to_int (to_size_t x) = x"
proof -
  have m: "int (to_size_t x) mod 4294967296 = x mod 4294967296"
    by (simp add: to_size_t_def mod_mod_cancel)
  show ?thesis
  proof (cases "0 \<le> x")
    case True
    with assms m show ?thesis by (simp add: to_int_def int_range_defs)
  next
    case False
    with assms have "(x + 4294967296) mod 4294967296 = x + 4294967296"
      unfolding int_range_defs by (intro mod_pos_pos_trivial) auto
    with False assms m show ?thesis by (simp add: to_int_def int_range_defs Let_def)
  qed
qed

text \<open>A buffer is only created with a capacity that is not negative.\<close>

lemma buffer_create_result:
  assumes "buffer_create A cap = Some b" and "in_int cap"
  shows "0 \<le> cap" and "b = \<lparr>num_gen = 0, num_con = 0, capacity = nat cap, bsize = 0,
     data = Some (replicate (nat cap) None), dataptr = 0, mutex = 1, empty = nat cap, full = 0\<rparr>"
proof -
  have "to_size_t (cap * 4) \<le> 9223372036854775807"
    using assms(1) by (auto simp: buffer_create_def alloc_ok_def PTRDIFF_MAX_def split: if_splits)
  moreover have "to_size_t (cap * 4) = nat (cap * 4 + 18446744073709551616)" if "cap < 0"
  proof -
    have "(cap * 4 + 18446744073709551616) mod 18446744073709551616 = cap * 4 + 18446744073709551616"
      using that assms(2) by (intro mod_pos_pos_trivial) (auto simp: int_range_defs)
    then show ?thesis by (simp add: to_size_t_def)
  qed
  ultimately show c: "0 \<le> cap" using assms(2) by (cases "cap < 0") (auto simp: int_range_defs)
  have "to_size_t (cap * 4) div 4 = nat cap"
    using c assms(2) by (simp add: to_size_t_def int_range_defs nat_mult_distrib)
  with assms c show "b = \<lparr>num_gen = 0, num_con = 0, capacity = nat cap, bsize = 0,
     data = Some (replicate (nat cap) None), dataptr = 0, mutex = 1, empty = nat cap, full = 0\<rparr>"
    by (auto simp: buffer_create_def split: if_splits)
qed

text \<open>Every state in which the polling loop starts is determined by four numbers.\<close>

lemma sys_init_state:
  assumes "sys_init s"
  shows "\<exists>c. 0 \<le> c \<and> c \<le> 2147483647 \<and> 0 \<le> max_generate s \<and> max_generate s \<le> 2147483647
    \<and> 0 < nprod s \<and> 0 < ncons s
    \<and> buf s = \<lparr>num_gen = 0, num_con = 0, capacity = nat c, bsize = 0,
         data = Some (replicate (nat c) None), dataptr = 0, mutex = 1, empty = nat c, full = 0\<rparr>
    \<and> ppc s = (\<lambda>i. T_token) \<and> cpc s = (\<lambda>i. T_token) \<and> mainpc s = M_lock \<and> produced s = [] \<and> consumed s = []"
proof -
  from assms obtain E argv where m: "mpc_main E argv = Inr (Polling s)" by (auto simp: sys_init_def)
  then obtain np nc c M where a: "atoi (argv ! 2) = Inr np" "atoi (argv ! 3) = Inr nc" "atoi (argv ! 4) = Inr c"
    "atoi (argv ! 5) = Inr M" by (auto simp: mpc_main_def Let_def cbind_eq_Inr_iff split: if_splits)
  with m have pos: "0 < np" "0 < nc" "0 \<le> M" by (auto simp: mpc_main_def Let_def split: if_splits)
  have c: "in_int c" "in_int M" using a atoi_in_int by blast+
  from m a obtain b p k where b: "buffer_create (alloc E) c = Some b" "threads_create (prod_env E) np = (True, p)"
    "threads_create (cons_env E) nc = (True, k)"
    and s: "s = \<lparr>max_generate = M, nprod = p, ncons = k, buf = b, ppc = (\<lambda>i. T_token), cpc = (\<lambda>i. T_token),
      mainpc = M_lock, produced = [], consumed = []\<rparr>"
    by (auto simp: mpc_main_def Let_def to_int_to_size_t [OF c(1)] split: if_splits option.splits prod.splits)
  have "p = nat np" "k = nat nc"
    using b(2,3) create_loop_all by (fastforce simp: threads_create_def split: if_splits)+
  with pos s buffer_create_result [OF b(1) c(1)] c show ?thesis
    by (intro exI [of _ c]) (simp add: int_range_defs)
qed

lemma cnt_none: "(\<And>i. \<not> P (w i)) \<Longrightarrow> cnt P n w = 0"
  by (simp add: cnt_zero_iff)

lemma inv_sys_init:
  assumes "sys_init s"
  shows "inv_sys s"
proof -
  from sys_init_state [OF assms] obtain c where c: "0 \<le> c" "c \<le> 2147483647" "0 \<le> max_generate s"
    "max_generate s \<le> 2147483647" "0 < nprod s" "0 < ncons s"
    and f: "buf s = \<lparr>num_gen = 0, num_con = 0, capacity = nat c, bsize = 0,
         data = Some (replicate (nat c) None), dataptr = 0, mutex = 1, empty = nat c, full = 0\<rparr>"
      "ppc s = (\<lambda>i. T_token)" "cpc s = (\<lambda>i. T_token)" "mainpc s = M_lock" "produced s = []" "consumed s = []"
    by blast
  have "limit s = nat (max_generate s)" using c by (simp add: limit_def)
  then have "inv_sync s" using c f by (simp add: inv_sync_def cnt_none nat_le_iff)
  moreover have "inv_data s []" using f by (simp add: inv_data_def)
  ultimately show ?thesis using c(5,6) f(4) by (auto simp: inv_sys_def)
qed

interpretation buffer: invariant_system sys_init sys_step inv_sys
proof
  show "inv_sys t" if "inv_sys s" "sys_step s t" for s t
    using that(2,1) by cases (blast intro: inv_sys_producer inv_sys_consumer inv_sys_main)+
qed (rule inv_sys_init)

section \<open>Why the work gets done\<close>

fun tweight :: "tpc \<Rightarrow> int" where
  "tweight T_token = 6" | "tweight T_mutex = 5" | "tweight T_crit = 4"
| "tweight (T_unlock e) = (if e then 3 else 9)" | "tweight (T_post e) = (if e then 2 else 8)"
| "tweight T_exit = 0"

lemma tweight_nonneg: "0 \<le> tweight p"
  by (cases p) simp_all

definition work_left :: "sys \<Rightarrow> int" where
  "work_left s = total tweight (nprod s) (ppc s) + total tweight (ncons s) (cpc s)
     + 10 * (int (limit s) - int (num_gen (buf s))) + 10 * (int (limit s) - int (num_con (buf s)))"

text \<open>The steps of the threads while \<^verbatim>\<open>main\<close> is not polling and items remain to be consumed.\<close>

definition thread_step :: "sys \<Rightarrow> sys \<Rightarrow> bool" where
  "thread_step s t \<longleftrightarrow> mainpc s = M_lock \<and> num_con (buf s) \<noteq> limit s
     \<and> ((\<exists>i < nprod s. producer_step i s t) \<or> (\<exists>i < ncons s. consumer_step i s t))"

lemma work_left_producer:
  assumes "producer_step i s t" and "i < nprod s" and "inv_sync s"
  shows "work_left t < work_left s"
  using assms(1)
proof (cases rule: producer_step.cases)
  case (p_produce r n b)
  have "bsize (buf s) < 2147483648" "num_gen (buf s) < 2147483648"
    using assms(3) by (auto simp: inv_sync_def)
  from p_produce(1-4) assms(2) produce_item_result [OF p_produce(5) this] show ?thesis
    by (simp add: work_left_def sys_simps del: fun_upd_apply)
next
  case p_full
  with inv_sync_room [OF assms(3,2)] show ?thesis by simp
qed (use assms(2) in \<open>auto simp: work_left_def sys_simps simp del: fun_upd_apply split: if_splits\<close>)

lemma work_left_consumer:
  assumes "consumer_step i s t" and "i < ncons s" and "inv_sync s"
  shows "work_left t < work_left s"
  using assms(1)
proof (cases rule: consumer_step.cases)
  case (c_consume n b)
  have "bsize (buf s) < 2147483648" "num_con (buf s) < 2147483648"
    using assms(3) by (auto simp: inv_sync_def)
  from c_consume(1-4) assms(2) consume_item_result [OF c_consume(5,4) this] show ?thesis
    by (simp add: work_left_def sys_simps del: fun_upd_apply)
next
  case c_empty
  with inv_sync_item [OF assms(3,2)] show ?thesis by simp
qed (use assms(2) in \<open>auto simp: work_left_def sys_simps simp del: fun_upd_apply split: if_splits\<close>)

lemma work_left_pos:
  assumes "inv_sync s" and "num_con (buf s) \<noteq> limit s"
  shows "0 < work_left s"
  using assms total_nonneg [of tweight "nprod s" "ppc s"] total_nonneg [of tweight "ncons s" "cpc s"] tweight_nonneg
  by (auto simp: work_left_def inv_sync_def)

definition work_inv :: "sys \<Rightarrow> bool" where
  "work_inv s \<longleftrightarrow> inv_sys s \<and> mainpc s = M_lock \<and> 0 < capacity (buf s)"

lemma producer_keeps: "producer_step i s t \<Longrightarrow>
    capacity (buf t) = capacity (buf s) \<and> mainpc t = mainpc s \<and> limit t = limit s \<and> nprod t = nprod s"
  by (erule producer_step.cases)
    (auto simp: sys_simps produce_item_def cbind_eq_Inr_iff Let_def)

lemma consume_keeps_capacity: "consume_item b = Inr (n, b') \<Longrightarrow> capacity b' = capacity b \<and> num_gen b' = num_gen b"
  unfolding consume_item_def cbind_eq_Inr_iff by (elim exE conjE) (auto split: list.splits option.splits)

lemma consumer_keeps: "consumer_step i s t \<Longrightarrow>
    capacity (buf t) = capacity (buf s) \<and> num_gen (buf t) = num_gen (buf s) \<and> mainpc t = mainpc s
    \<and> limit t = limit s \<and> nprod t = nprod s"
  by (erule consumer_step.cases) (auto simp: sys_simps dest: consume_keeps_capacity)

lemma main_keeps: "main_step s t \<Longrightarrow> capacity (buf t) = capacity (buf s) \<and> num_gen (buf t) = num_gen (buf s)
    \<and> limit t = limit s \<and> nprod t = nprod s"
  by (erule main_step.cases) (auto simp: sys_simps buffer_destroy_def)

lemma work_inv_step: "work_inv s \<Longrightarrow> thread_step s t \<Longrightarrow> work_inv t"
  unfolding work_inv_def thread_step_def
  using inv_sys_producer inv_sys_consumer producer_keeps consumer_keeps by (metis mpc.distinct(7))

lemma work_left_decreases: "work_inv s \<Longrightarrow> thread_step s t \<Longrightarrow> nat (work_left t) < nat (work_left s)"
  using work_left_producer work_left_consumer work_left_pos
  by (fastforce simp: work_inv_def thread_step_def inv_sys_def)

text \<open>A thread past its token can move, unless it waits for the mutex and another thread has it.\<close>

lemma producer_moves:
  assumes "inv_sync s" and "inv_data s xs" and "i < nprod s" and "ppc s i \<noteq> T_exit"
    and "ppc s i = T_token \<Longrightarrow> 0 < empty (buf s)" and "ppc s i = T_mutex \<Longrightarrow> 0 < mutex (buf s)"
  shows "\<exists>t. producer_step i s t"
proof (cases "ppc s i")
  case T_token
  with assms(5) obtain v where "sem_wait (empty (buf s)) = Some v" by (auto simp: sem_wait_def)
  with T_token show ?thesis by (blast intro: p_token)
next
  case T_mutex
  with assms(6) obtain v where "sem_wait (mutex (buf s)) = Some v" by (auto simp: sem_wait_def)
  with T_mutex show ?thesis by (blast intro: p_mutex)
next
  case T_crit
  show ?thesis
  proof (cases "limit s = num_gen (buf s)")
    case True
    with T_crit show ?thesis by (blast intro: p_limit)
  next
    case False
    note room = inv_sync_room(1) [OF assms(1,3) T_crit False]
    from produce_item_data [OF assms(2) room, of 0] inv_sys_bounds [OF assms(1)]
    obtain b where "produce_item 0 (buf s) = Inr (int (0 mod 100), b)" by blast
    with p_produce [OF T_crit False room] show ?thesis by blast
  qed
qed (use assms(4) in \<open>auto intro: p_unlock p_post\<close>)

lemma consumer_moves:
  assumes "inv_sync s" and "inv_data s xs" and "i < ncons s" and "cpc s i \<noteq> T_exit"
    and "cpc s i = T_token \<Longrightarrow> 0 < full (buf s)" and "cpc s i = T_mutex \<Longrightarrow> 0 < mutex (buf s)"
  shows "\<exists>t. consumer_step i s t"
proof (cases "cpc s i")
  case T_token
  with assms(5) obtain v where "sem_wait (full (buf s)) = Some v" by (auto simp: sem_wait_def)
  with T_token show ?thesis by (blast intro: c_token)
next
  case T_mutex
  with assms(6) obtain v where "sem_wait (mutex (buf s)) = Some v" by (auto simp: sem_wait_def)
  with T_mutex show ?thesis by (blast intro: c_mutex)
next
  case T_crit
  show ?thesis
  proof (cases "num_con (buf s) = limit s")
    case True
    with T_crit show ?thesis by (blast intro: c_limit)
  next
    case False
    note item = inv_sync_item(1) [OF assms(1,3) T_crit False]
    from consume_item_data [OF assms(2) item] inv_sys_bounds [OF assms(1)]
    obtain b where "consume_item (buf s) = Inr (last xs, b)" by blast
    with c_consume [OF T_crit False item] show ?thesis by blast
  qed
qed (use assms(4) in \<open>auto intro: c_unlock c_post\<close>)

lemma work_progress:
  assumes "work_inv s" and "num_con (buf s) \<noteq> limit s"
  shows "\<exists>t. thread_step s t"
proof (rule ccontr)
  assume none: "\<not> ?thesis"
  from assms(1) obtain xs where inv: "inv_sync s" "inv_data s xs" "0 < nprod s" "0 < ncons s"
    "mainpc s = M_lock" "0 < capacity (buf s)" by (auto simp: work_inv_def inv_sys_def)
  have p: "ppc s i = T_exit \<or> ppc s i = T_token \<and> empty (buf s) = 0 \<or> ppc s i = T_mutex \<and> mutex (buf s) = 0"
    if "i < nprod s" for i
    using none producer_moves [OF inv(1,2) that] that inv(5) assms(2)
    by (cases "ppc s i") (auto simp: thread_step_def)
  have c: "cpc s i = T_exit \<or> cpc s i = T_token \<and> full (buf s) = 0 \<or> cpc s i = T_mutex \<and> mutex (buf s) = 0"
    if "i < ncons s" for i
    using none consumer_moves [OF inv(1,2) that] that inv(5) assms(2)
    by (cases "cpc s i") (auto simp: thread_step_def)
  have "cnt locked (nprod s) (ppc s) = 0" "cnt locked (ncons s) (cpc s) = 0"
    using p c by (force simp: cnt_zero_iff)+
  then have "mutex (buf s) \<noteq> 0" using inv(1,5) by (simp add: inv_sync_def)
  then have p: "\<And>i. i < nprod s \<Longrightarrow> ppc s i = T_exit \<or> ppc s i = T_token \<and> empty (buf s) = 0"
    and c: "\<And>i. i < ncons s \<Longrightarrow> cpc s i = T_exit \<or> cpc s i = T_token \<and> full (buf s) = 0"
    using p c by auto
  then have z: "cnt pre (nprod s) (ppc s) = 0" "cnt post (nprod s) (ppc s) = 0"
    "cnt pre (ncons s) (cpc s) = 0" "cnt post (ncons s) (cpc s) = 0"
    by (force simp: cnt_zero_iff)+
  have "num_con (buf s) < limit s" using inv(1) assms(2) by (auto simp: inv_sync_def)
  then have "\<not> leaving (cpc s 0)" using inv(1,4) by (auto simp: inv_sync_def cnt_zero_iff)
  then have full: "full (buf s) = 0" using c [OF inv(4)] by auto
  then have "num_gen (buf s) < limit s" using inv(1) z \<open>num_con (buf s) < limit s\<close> by (auto simp: inv_sync_def)
  then have "\<not> leaving (ppc s 0)" using inv(1,3) by (auto simp: inv_sync_def cnt_zero_iff)
  then have "empty (buf s) = 0" using p [OF inv(3)] by auto
  with full z inv(1,6) show False by (simp add: inv_sync_def)
qed

interpretation work: terminating_system work_inv thread_step work_inv "\<lambda>s. num_con (buf s) = limit s" "\<lambda>s. nat (work_left s)"
  by unfold_locales (auto intro: work_inv_step work_progress work_left_decreases simp del: zless_nat_conj nat_less_eq_zless)

lemma limit_max: "0 \<le> max_generate s \<Longrightarrow> max_generate s \<le> 2147483647 \<Longrightarrow> int (limit s) = max_generate s"
  by (simp add: limit_def)

definition max_ok :: "sys \<Rightarrow> bool" where
  "max_ok s \<longleftrightarrow> 0 \<le> max_generate s \<and> max_generate s \<le> 2147483647"

lemma max_step: "sys_step s t \<Longrightarrow> max_generate t = max_generate s"
  by (erule sys_step.cases; erule producer_step.cases consumer_step.cases main_step.cases)
    (simp_all add: goP_def goC_def)

interpretation limits: invariant_system sys_init sys_step max_ok
proof
  show "max_ok s" if "sys_init s" for s using sys_init_state [OF that] by (auto simp: max_ok_def)
qed (simp add: max_ok_def max_step)

lemma thread_sys_step: "thread_step s t \<Longrightarrow> sys_step s t"
  by (auto simp: thread_step_def intro: sys_step.intros)

lemma thread_run_sys: "thread_step\<^sup>*\<^sup>* s t \<Longrightarrow> sys_step\<^sup>*\<^sup>* s t"
  by (rule rtranclp_mono [THEN predicate2D]) (auto intro: thread_sys_step)

section \<open>Properties\<close>

text \<open>
  C5: the work gets done. For a capacity of at least 1, from any reachable state in which \<^verbatim>\<open>main\<close>
  is not polling, the producers and consumers can only make a bounded number of steps before
  \<^verbatim>\<open>num_con\<close> reaches \<^verbatim>\<open>max_generate\<close>, under every schedule; before that some thread can always move
  (no deadlock on the three semaphores); and in the end \<^verbatim>\<open>max_generate\<close> items have been
  consumed, exactly the ones produced.
\<close>

theorem producers_consumers_finish:
  assumes "sys_reach s" and "mainpc s = M_lock" and "0 < capacity (buf s)"
  shows "(\<exists>k. \<forall>m t. (thread_step ^^ m) s t \<longrightarrow> m \<le> k)
    \<and> (\<forall>t. thread_step\<^sup>*\<^sup>* s t \<longrightarrow> (\<exists>u. thread_step t u) \<or>
         (int (num_con (buf t)) = max_generate t \<and> int (length (consumed t)) = max_generate t
          \<and> mset (produced t) = mset (consumed t)))"
proof -
  have inv: "work_inv s" using assms buffer.inv_reach by (simp add: work_inv_def)
  have "m \<le> nat (work_left s)" if "(thread_step ^^ m) s t" for m t
    using work.run_bounded [OF that inv] by simp
  moreover have "int (num_con (buf t)) = max_generate t \<and> int (length (consumed t)) = max_generate t
      \<and> mset (produced t) = mset (consumed t)"
    if "thread_step\<^sup>*\<^sup>* s t" "\<nexists>u. thread_step t u" for t
  proof -
    have t: "work_inv t" by (rule work.inv_run [OF that(1) inv])
    then obtain xs where d: "inv_sync t" "inv_data t xs" by (auto simp: work_inv_def inv_sys_def)
    have done_: "num_con (buf t) = limit t" using work.progress [OF t] that(2) by blast
    have "max_ok t" using limits.inv_reach reach_run [OF thread_run_sys [OF that(1)] assms(1)] by blast
    then have "int (limit t) = max_generate t" by (simp add: max_ok_def limit_max)
    with all_consumed [OF d done_] done_ d(2) show ?thesis
      by (metis inv_data_def)
  qed
  ultimately show ?thesis by blast
qed

text \<open>
  C6: the buffer is used safely. Whenever a thread is in its critical section below the limit,
  there is room for the producer's item and an item for the consumer: the two branches for a full
  and for an empty buffer are never taken, the access through \<^verbatim>\<open>dataptr\<close> stays inside the
  block, the consumer never reads an uninitialised element, and the counters do not wrap.
\<close>

theorem buffer_accesses_safe:
  assumes "sys_reach s" and "mainpc s \<noteq> M_end"
  shows "(\<forall>i < nprod s. ppc s i = T_crit \<longrightarrow> num_gen (buf s) \<noteq> limit s \<longrightarrow>
           bsize (buf s) < capacity (buf s) \<and> (\<forall>r. \<exists>b. produce_item r (buf s) = Inr (int (r mod 100), b)
              \<and> num_gen b = num_gen (buf s) + 1 \<and> bsize b = bsize (buf s) + 1))
    \<and> (\<forall>i < ncons s. cpc s i = T_crit \<longrightarrow> num_con (buf s) \<noteq> limit s \<longrightarrow>
           0 < bsize (buf s) \<and> (\<exists>n b. consume_item (buf s) = Inr (n, b)
              \<and> num_con b = num_con (buf s) + 1 \<and> bsize b = bsize (buf s) - 1))"
proof -
  from assms buffer.inv_reach obtain xs where inv: "inv_sync s" "inv_data s xs"
    by (fastforce simp: inv_sys_def)
  note b = inv_sys_bounds [OF inv(1)]
  have "bsize (buf s) < capacity (buf s) \<and> (\<forall>r. \<exists>b. produce_item r (buf s) = Inr (int (r mod 100), b)
              \<and> num_gen b = num_gen (buf s) + 1 \<and> bsize b = bsize (buf s) + 1)"
    if "i < nprod s" "ppc s i = T_crit" "num_gen (buf s) \<noteq> limit s" for i
  proof -
    have room: "bsize (buf s) < capacity (buf s)" using inv_sync_room [OF inv(1) that(1,2)] that(3) by simp
    have "\<exists>b. produce_item r (buf s) = Inr (int (r mod 100), b)
              \<and> num_gen b = num_gen (buf s) + 1 \<and> bsize b = bsize (buf s) + 1" for r
    proof -
      from produce_item_data [OF inv(2) room b(1,2), of r] obtain b' where
        b': "produce_item r (buf s) = Inr (int (r mod 100), b')" by blast
      from produce_item_result [OF b'] room b show ?thesis by (auto intro!: exI [of _ b'] b')
    qed
    with room show ?thesis by blast
  qed
  moreover have "0 < bsize (buf s) \<and> (\<exists>n b. consume_item (buf s) = Inr (n, b)
              \<and> num_con b = num_con (buf s) + 1 \<and> bsize b = bsize (buf s) - 1)"
    if "i < ncons s" "cpc s i = T_crit" "num_con (buf s) \<noteq> limit s" for i
  proof -
    have item: "0 < bsize (buf s)" using inv_sync_item [OF inv(1) that(1,2)] that(3) by simp
    from consume_item_data [OF inv(2) item b(1,3)] obtain b' where
      b': "consume_item (buf s) = Inr (last xs, b')" by blast
    have "bsize (buf s) < 2147483648" using inv(1) by (auto simp: inv_sync_def)
    from consume_item_result [OF b' item this b(3)] item b' show ?thesis by auto
  qed
  ultimately show ?thesis by blast
qed

text \<open>
  C29: when \<^verbatim>\<open>main\<close> leaves its polling loop and has destroyed the buffer, exactly \<^verbatim>\<open>max_generate\<close>
  items have been produced and each of them has been consumed exactly once.
\<close>

theorem main_ends_after_last_item:
  assumes "sys_reach s" and "mainpc s = M_end"
  shows "mset (produced s) = mset (consumed s) \<and> int (length (produced s)) = max_generate s"
  using buffer.inv_reach [OF assms(1)] limits.inv_reach [OF assms(1)] assms(2)
  by (simp add: inv_sys_def max_ok_def limit_max)

text \<open>
  With no room in the buffer, every thread waits for its first token forever, and only \<^verbatim>\<open>main\<close> moves.
\<close>

definition idle_inv :: "sys \<Rightarrow> bool" where
  "idle_inv s \<longleftrightarrow> ppc s = (\<lambda>i. T_token) \<and> cpc s = (\<lambda>i. T_token)
     \<and> (mainpc s \<noteq> M_end \<longrightarrow> empty (buf s) = 0 \<and> full (buf s) = 0 \<and> num_gen (buf s) = 0 \<and> num_con (buf s) = 0)
     \<and> (case mainpc s of M_lock \<Rightarrow> mutex (buf s) = 1 | M_check \<Rightarrow> True
        | M_unlock e \<Rightarrow> mutex (buf s) = 0 \<and> e = (limit s = 0) | M_destroy \<Rightarrow> limit s = 0 | M_end \<Rightarrow> limit s = 0)
     \<and> (mainpc s = M_check \<longrightarrow> mutex (buf s) = 0)"

fun main_rank :: "mpc \<Rightarrow> nat" where
  "main_rank M_lock = 4" | "main_rank M_check = 3" | "main_rank (M_unlock e) = 2" | "main_rank M_destroy = 1"
| "main_rank M_end = 0"

lemma idle_init: "sys_init s \<Longrightarrow> capacity (buf s) = 0 \<Longrightarrow> idle_inv s"
  using sys_init_state by (fastforce simp: idle_inv_def)

lemma idle_only_main: "idle_inv s \<Longrightarrow> sys_step s t \<Longrightarrow> main_step s t"
  by (auto simp: idle_inv_def sem_wait_def elim!: sys_step.cases elim: producer_step.cases consumer_step.cases)

lemma idle_step:
  assumes "idle_inv s" and "sys_step s t"
  shows "idle_inv t" and "limit t = limit s" and "limit s = 0 \<Longrightarrow> Suc (main_rank (mainpc t)) = main_rank (mainpc s)"
  using idle_only_main [OF assms] assms(1)
  by (auto simp: idle_inv_def limit_def sem_wait_def sem_post_def elim!: main_step.cases split: if_splits)

lemma idle_moves:
  assumes "idle_inv s" and "mainpc s \<noteq> M_end"
  shows "\<exists>t. sys_step s t"
proof (cases "mainpc s")
  case M_lock
  with assms have "sem_wait (mutex (buf s)) = Some 0" by (simp add: idle_inv_def sem_wait_def)
  with M_lock show ?thesis by (blast intro: sys_step.main m_lock)
qed (use assms(2) in \<open>blast intro: sys_step.main m_check m_unlock m_destroy\<close>)+

lemma idle_run:
  assumes "(sys_step ^^ n) s t" and "idle_inv s"
  shows "idle_inv t \<and> limit t = limit s \<and> (limit s = 0 \<longrightarrow> main_rank (mainpc t) + n = main_rank (mainpc s))"
  using assms
proof (induction n arbitrary: t)
  case (Suc n)
  then obtain u where u: "(sys_step ^^ n) s u" "sys_step u t" by auto
  with Suc have "idle_inv u" "limit u = limit s" "limit s = 0 \<longrightarrow> main_rank (mainpc u) + n = main_rank (mainpc s)" by blast+
  with idle_step [OF this(1) u(2)] show ?case by auto
qed simp

text \<open>
  C30: a capacity of 0, which \<^verbatim>\<open>main\<close> accepts. Without items to produce the program ends after exactly
  four steps of \<^verbatim>\<open>main\<close>. With at least one, it runs forever: in every state that it reaches
  nothing has been produced, every producer and consumer still waits for its first token, \<^verbatim>\<open>main\<close>
  has not seen the end, and there is a next step, which is a step of \<^verbatim>\<open>main\<close>.
\<close>

theorem zero_capacity_never_ends:
  assumes "sys_init s" and "capacity (buf s) = 0"
  shows "if max_generate s = 0
    then \<forall>n t. (sys_step ^^ n) s t \<longrightarrow> n \<le> 4 \<and> (mainpc t = M_end \<longleftrightarrow> n = 4) \<and> (n < 4 \<longrightarrow> (\<exists>u. sys_step t u))
    else \<forall>t. sys_step\<^sup>*\<^sup>* s t \<longrightarrow> num_gen (buf t) = 0 \<and> \<not> main_done (mainpc t)
           \<and> ppc t = (\<lambda>i. T_token) \<and> cpc t = (\<lambda>i. T_token)
           \<and> (\<exists>u. sys_step t u) \<and> (\<forall>u. sys_step t u \<longrightarrow> main_step t u)"
proof -
  have i: "idle_inv s" by (rule idle_init [OF assms])
  have m: "mainpc s = M_lock" "max_generate s = 0 \<longleftrightarrow> limit s = 0"
    using sys_init_state [OF assms(1)] by (auto simp: limit_def)
  show ?thesis
  proof (cases "max_generate s = 0")
    case True
    have "n \<le> 4 \<and> (mainpc t = M_end \<longleftrightarrow> n = 4) \<and> (n < 4 \<longrightarrow> (\<exists>u. sys_step t u))" if "(sys_step ^^ n) s t" for n t
    proof -
      have t: "idle_inv t" "main_rank (mainpc t) + n = 4" using idle_run [OF that i] m True by simp_all
      moreover have "mainpc t = M_end \<longleftrightarrow> main_rank (mainpc t) = 0" by (cases "mainpc t") simp_all
      ultimately show ?thesis using idle_moves [OF t(1)] by auto
    qed
    with True show ?thesis by simp
  next
    case False
    have "num_gen (buf t) = 0 \<and> \<not> main_done (mainpc t) \<and> ppc t = (\<lambda>i. T_token) \<and> cpc t = (\<lambda>i. T_token)
        \<and> (\<exists>u. sys_step t u) \<and> (\<forall>u. sys_step t u \<longrightarrow> main_step t u)" if "sys_step\<^sup>*\<^sup>* s t" for t
    proof -
      from that obtain n where "(sys_step ^^ n) s t" by (metis rtranclp_imp_relpowp)
      from idle_run [OF this i] m False have t: "idle_inv t" "limit t \<noteq> 0" by simp_all
      then have d: "\<not> main_done (mainpc t)" "mainpc t \<noteq> M_end"
        by (cases "mainpc t"; simp add: idle_inv_def)+
      with t show ?thesis using idle_moves [OF t(1)] idle_only_main [OF t(1)] by (simp add: idle_inv_def)
    qed
    with False show ?thesis by simp
  qed
qed

section \<open>Runs\<close>

definition all_ok :: main_env where
  "all_ok = (let E = \<lparr>calloc_ok = True, handle_ok = (\<lambda>i. True), create_ok = (\<lambda>i. True), detach_ok = (\<lambda>i. True)\<rparr>
     in \<lparr>fopen_ok = True, alloc = generous, prod_env = E, cons_env = E\<rparr>)"

definition start :: "nat \<Rightarrow> int \<Rightarrow> mpc \<Rightarrow> nat \<Rightarrow> sys" where
  "start c M m v = \<lparr>max_generate = M, nprod = 1, ncons = 1,
     buf = \<lparr>num_gen = 0, num_con = 0, capacity = c, bsize = 0, data = Some (replicate c None), dataptr = 0,
            mutex = v, empty = c, full = 0\<rparr>,
     ppc = (\<lambda>i. T_token), cpc = (\<lambda>i. T_token), mainpc = m, produced = [], consumed = []\<rparr>"

lemma start_init:
  assumes "c \<in> {0, 1}" and "M \<in> {0, 1}"
  shows "sys_init (start c M M_lock 1)"
proof -
  have a: "atoi ''0'' = Inr 0" "atoi ''1'' = Inr 1" by code_simp+
  let ?d = "\<lambda>n. if n = 0 then ''0'' else ''1''"
  have "mpc_main all_ok [''main'', ''log'', ''1'', ''1'', ?d c, ?d M] = Inr (Polling (start c M M_lock 1))"
    using assms
    by (auto simp: mpc_main_def a all_ok_def Let_def buffer_create_def threads_create_def start_def
        to_size_t_def alloc_ok_def PTRDIFF_MAX_def)
  then show ?thesis by (auto simp: sys_init_def)
qed

lemma start_reach: "c \<in> {0, 1} \<Longrightarrow> M \<in> {0, 1} \<Longrightarrow> sys_reach (start c M M_lock 1)"
  by (rule reach_init) (rule start_init)

lemma start_fields: "mainpc (start c M M_lock 1) \<noteq> M_end" "0 < nprod (start c M M_lock 1)"
  by (simp_all add: start_def)

theorem producers_consumers_finish_witness:
  "\<exists>t. thread_step\<^sup>*\<^sup>* (start 1 1 M_lock 1) t \<and> num_con (buf t) = limit t \<and> mset (produced t) = mset (consumed t)"
proof -
  let ?s = "start 1 1 M_lock 1"
  have r: "sys_reach ?s" by (rule start_reach) simp_all
  have m: "mainpc ?s = M_lock" "0 < capacity (buf ?s)" by (simp_all add: start_def)
  have "work_inv ?s" using buffer.inv_reach [OF r] m by (simp add: work_inv_def)
  from work.reaches_final [OF this] obtain t where t: "thread_step\<^sup>*\<^sup>* ?s t" "num_con (buf t) = limit t" by blast
  then have "\<nexists>u. thread_step t u" by (simp add: thread_step_def)
  with producers_consumers_finish [OF r m] t show ?thesis by blast
qed

lemma crit_reach: "\<exists>s. sys_reach s \<and> mainpc s \<noteq> M_end \<and> 0 < nprod s \<and> ppc s 0 = T_crit \<and> num_gen (buf s) \<noteq> limit s"
proof -
  define s where "s = start 1 1 M_lock 1"
  define t where "t = goP s 0 T_mutex ((buf s)\<lparr>empty := 0\<rparr>)"
  define u where "u = goP t 0 T_crit ((buf t)\<lparr>mutex := 0\<rparr>)"
  have s: "sys_reach s" "mainpc s \<noteq> M_end" "0 < nprod s"
    unfolding s_def using start_reach [of 1 1] start_fields by simp_all
  have "producer_step 0 s t" unfolding t_def by (rule p_token) (simp_all add: s_def start_def sem_wait_def)
  with s have t: "sys_reach t" by (blast intro: reach_step sys_step.producer)
  have tf: "mainpc t \<noteq> M_end" "0 < nprod t" using s by (simp_all add: t_def sys_simps)
  have "ppc t 0 = T_mutex" "mutex (buf t) = 1" by (simp_all add: t_def s_def start_def sys_simps)
  then have "producer_step 0 t u" unfolding u_def by (intro p_mutex) (simp_all add: sem_wait_def)
  with t tf have u: "sys_reach u" by (blast intro: reach_step sys_step.producer)
  have "num_gen (buf u) = 0" "limit u = 1"
    by (simp_all add: u_def t_def s_def start_def sys_simps) (simp add: limit_def)
  then show ?thesis using u tf by (intro exI [of _ u]) (simp add: u_def sys_simps)
qed

theorem buffer_accesses_safe_witness:
  "\<exists>s b. sys_reach s \<and> ppc s 0 = T_crit \<and> bsize (buf s) < capacity (buf s) \<and> produce_item 7 (buf s) = Inr (7, b)"
proof -
  from crit_reach obtain s where s: "sys_reach s" "mainpc s \<noteq> M_end" "0 < nprod s" "ppc s 0 = T_crit"
    "num_gen (buf s) \<noteq> limit s" by blast
  from conjunct1 [OF buffer_accesses_safe [OF s(1,2)]] s(3-5) have "bsize (buf s) < capacity (buf s)"
    "\<exists>b. produce_item 7 (buf s) = Inr (int (7 mod 100), b)" by blast+
  then show ?thesis using s(1,4) by auto
qed

lemma start_end: "\<exists>s. sys_reach s \<and> mainpc s = M_end"
proof -
  let ?s = "start 1 0 M_lock 1"
  let ?e = "(start 1 0 M_destroy 1)\<lparr>mainpc := M_end, buf := buffer_destroy (buf (start 1 0 M_destroy 1))\<rparr>"
  have "main_step ?s (start 1 0 M_check 0)"
    using m_lock [of ?s 0] by (simp add: start_def sem_wait_def)
  moreover have "main_step (start 1 0 M_check 0) (start 1 0 (M_unlock True) 0)"
    using m_check [of "start 1 0 M_check 0"] by (simp add: start_def limit_def)
  moreover have "main_step (start 1 0 (M_unlock True) 0) (start 1 0 M_destroy 1)"
    using m_unlock [of "start 1 0 (M_unlock True) 0" True] by (simp add: start_def sem_post_def)
  moreover have "main_step (start 1 0 M_destroy 1) ?e"
    by (rule m_destroy) (simp add: start_def)
  moreover have "sys_reach ?s" by (rule start_reach) simp_all
  ultimately have "sys_reach ?e"
    by (meson reach_step sys_step.main)
  moreover have "mainpc ?e = M_end" by simp
  ultimately show ?thesis by blast
qed

theorem main_ends_after_last_item_witness:
  "\<exists>s. sys_reach s \<and> mainpc s = M_end \<and> mset (produced s) = mset (consumed s)"
  using start_end main_ends_after_last_item by blast

theorem zero_capacity_never_ends_witness:
  "\<exists>t u. sys_step (start 0 1 M_lock 1) t \<and> sys_step t u \<and> \<not> main_done (mainpc u)
     \<and> (\<forall>n v. (sys_step ^^ n) (start 0 0 M_lock 1) v \<longrightarrow> n \<le> 4)"
proof -
  have g: "capacity (buf (start 0 M M_lock 1)) = 0" "max_generate (start 0 M M_lock 1) = M" for M
    by (simp_all add: start_def)
  have one: "(\<exists>u. sys_step t u) \<and> \<not> main_done (mainpc t)" if "sys_step\<^sup>*\<^sup>* (start 0 1 M_lock 1) t" for t
    using zero_capacity_never_ends [OF start_init [of 0 1] g(1), unfolded g(2)] that by simp
  have none: "\<forall>n v. (sys_step ^^ n) (start 0 0 M_lock 1) v \<longrightarrow> n \<le> 4"
    using zero_capacity_never_ends [OF start_init [of 0 0] g(1), unfolded g(2)] by simp
  from one [OF rtranclp.rtrancl_refl] obtain t where t: "sys_step (start 0 1 M_lock 1) t" by blast
  then have "sys_step\<^sup>*\<^sup>* (start 0 1 M_lock 1) t" by blast
  from one [OF this] obtain u where u: "sys_step t u" by blast
  from t u have "sys_step\<^sup>*\<^sup>* (start 0 1 M_lock 1) u" by (meson rtranclp.rtrancl_into_rtrancl rtranclp.rtrancl_refl)
  from one [OF this] have "\<not> main_done (mainpc u)" by blast
  with t u none show ?thesis by blast
qed

end
