(* ===== verification/Producer_Consumer.thy ===== *)
theory Producer_Consumer
  imports Logger Step_Systems
begin

text \<open>
  \<^verbatim>\<open>Pthread/producer_consumer.c\<close>: one producer and one consumer share a stack of numbers guarded
  by a semaphore. All shared accesses of a thread lie between \<^verbatim>\<open>sem_wait\<close> and \<^verbatim>\<open>sem_post\<close>, except
  the reads of variables that no other thread writes; one round of a thread is therefore one
  step. The results of \<^verbatim>\<open>rand\<close> and of \<^verbatim>\<open>getopt_long\<close> are inputs.
\<close>

section \<open>Command line\<close>

record settings =
  log_file :: "string option"
  log_level :: int
  buffer_capacity :: nat

definition default_settings :: settings where
  "default_settings = \<lparr>log_file = None, log_level = LOG_LEVEL_INFO, buffer_capacity = 100\<rparr>"

text \<open>
  One result of \<^verbatim>\<open>getopt_long\<close>: the option and \<^verbatim>\<open>optarg\<close>. The case \<^verbatim>\<open>'s'\<close> falls through to the
  case \<^verbatim>\<open>'L'\<close>; \<^verbatim>\<open>strdup\<close> and \<^verbatim>\<open>atoi\<close> of a null pointer are undefined.
\<close>

definition parse_option :: "char \<times> string option \<Rightarrow> settings \<Rightarrow> settings cres" where
  "parse_option p S =
     (let (opt, optarg) = p in
      if opt = CHR ''s'' then
        cbind (deref optarg) (\<lambda>a. cbind (atoi a) (\<lambda>n.
          Inr (S\<lparr>buffer_capacity := to_size_t n, log_file := Some a\<rparr>)))
      else if opt = CHR ''L'' then cbind (deref optarg) (\<lambda>a. Inr (S\<lparr>log_file := Some a\<rparr>))
      else if opt = CHR ''l'' then
        (case optarg of Some a \<Rightarrow> cbind (atoi a) (\<lambda>n. Inr (S\<lparr>log_level := n\<rparr>))
         | None \<Rightarrow> Inr (S\<lparr>log_level := LOG_LEVEL_INFO\<rparr>))
      else Inl (ExitProcess 1))"

fun parse_commands :: "(char \<times> string option) list \<Rightarrow> settings \<Rightarrow> settings cres" where
  "parse_commands [] S = Inr S"
| "parse_commands (p # ps) S = cbind (parse_option p S) (parse_commands ps)"

section \<open>The shared state\<close>

record buf_t =
  capacity :: nat
  bsize :: nat
  data :: "int option list option"

record state =
  buf :: buf_t
  num_gen :: int
  num_has_gen :: int
  num_has_read :: int
  total_gen_num :: int
  producer_done :: bool
  consumer_done :: bool

definition num_gen_per_loop :: nat where "num_gen_per_loop = 5"

section \<open>The producer\<close>

text \<open>The loop over \<open>i\<close>; \<open>rs\<close> are the results of \<^verbatim>\<open>rand\<close>, one for each number.\<close>

fun fill :: "nat list \<Rightarrow> buf_t \<Rightarrow> buf_t cres" where
  "fill [] b = Inr b"
| "fill (r # rs) b =
     (let idx = to_int (bsize b); content = int (r mod 10) in
      cbind (deref (data b)) (\<lambda>d.
      cbind (poke d idx [Some (content mod 10)]) (\<lambda>d'.
      fill rs (b\<lparr>data := Some d', bsize := (bsize b + 1) mod 18446744073709551616\<rparr>))))"

text \<open>
  One round under the semaphore; \<open>r\<close> decides how many numbers to generate. The comparison in
  \<^verbatim>\<open>MIN\<close> is between an \<^verbatim>\<open>int\<close> that is not negative and a \<^verbatim>\<open>size_t\<close>; \<open>rs\<close> supplies as many
  random numbers as the round takes.
\<close>

definition room :: "buf_t \<Rightarrow> nat" where
  "room b = to_size_t (int (capacity b) - int (bsize b))"

definition MIN_macro :: "nat \<Rightarrow> nat \<Rightarrow> nat" where
  "MIN_macro x y = (if x > y then y else x)"

definition num_to_gen :: "nat \<Rightarrow> buf_t \<Rightarrow> nat" where
  "num_to_gen r b = MIN_macro (r mod num_gen_per_loop) (room b)"

definition producer_round :: "nat \<Rightarrow> nat list \<Rightarrow> state \<Rightarrow> state cres" where
  "producer_round r rs s =
     (let b = buf s in
      if room b > 0 then
        (let n = num_to_gen r b in
         if n = 0 then Inr s
         else cbind (fill (take n rs) b) (\<lambda>b'.
              cbind (c_int (total_gen_num s - int n)) (\<lambda>t.
              cbind (c_int (num_has_gen s + int n)) (\<lambda>g.
              Inr (s\<lparr>buf := b', total_gen_num := t, num_has_gen := g\<rparr>)))))
      else Inr s)"

section \<open>The consumer\<close>

text \<open>The number on top is read for the log message.\<close>

definition consumer_round :: "state \<Rightarrow> state cres" where
  "consumer_round s =
     (let b = buf s in
      if bsize b > 0 then
        cbind (deref (data b)) (\<lambda>d.
        cbind (peek d (int (bsize b) - 1) 1) (\<lambda>v.
        case v of [Some x] \<Rightarrow>
            cbind (c_int (num_has_read s + 1)) (\<lambda>n.
            Inr (s\<lparr>buf := b\<lparr>bsize := bsize b - 1\<rparr>, num_has_read := n\<rparr>))
        | _ \<Rightarrow> Inl Uninitialised))
      else Inr s)"

section \<open>The two threads\<close>

inductive pc_step :: "state \<Rightarrow> state \<Rightarrow> bool" where
  produce: "\<not> producer_done s \<Longrightarrow> total_gen_num s > 0 \<Longrightarrow> length rs = num_to_gen r (buf s) \<Longrightarrow>
    producer_round r rs s = Inr t \<Longrightarrow> pc_step s t"
| producer_exit: "\<not> producer_done s \<Longrightarrow> \<not> total_gen_num s > 0 \<Longrightarrow> pc_step s (s\<lparr>producer_done := True\<rparr>)"
| consume: "\<not> consumer_done s \<Longrightarrow> num_has_read s \<noteq> num_gen s \<Longrightarrow> consumer_round s = Inr t \<Longrightarrow> pc_step s t"
| consumer_exit: "\<not> consumer_done s \<Longrightarrow> num_has_read s = num_gen s \<Longrightarrow> pc_step s (s\<lparr>consumer_done := True\<rparr>)"

text \<open>
  \<^verbatim>\<open>main\<close> up to the creation of the threads: the structure and the array are allocated (the
  results are not checked), and the structure is initialised. The second result of a
  \<^verbatim>\<open>pthread_create\<close> that fails ends the process with status 1.
\<close>

definition pc_main :: "allocator \<Rightarrow> bool \<Rightarrow> bool \<Rightarrow> (char \<times> string option) list \<Rightarrow> state cres" where
  "pc_main A create1 create2 opts =
     cbind (parse_commands opts default_settings) (\<lambda>S.
     if \<not> alloc_ok A 24 then Inl NullDeref
     else
       (let n = to_size_t (4 * int (buffer_capacity S)) in
        if \<not> create1 \<or> \<not> create2 then Inl (ExitProcess 1)
        else Inr \<lparr>buf = \<lparr>capacity = buffer_capacity S, bsize = 0,
                         data = (if alloc_ok A n then Some (replicate (n div 4) None) else None)\<rparr>,
                  num_gen = 800, num_has_gen = 0, num_has_read = 0, total_gen_num = 800,
                  producer_done = False, consumer_done = False\<rparr>))"

section \<open>Invariant\<close>

text \<open>The states that the threads start from when the array has been allocated.\<close>

definition pc_init :: "state \<Rightarrow> bool" where
  "pc_init s \<longleftrightarrow> (\<exists>A opts. pc_main A True True opts = Inr s) \<and> data (buf s) \<noteq> None"

abbreviation pc_reach :: "state \<Rightarrow> bool" where
  "pc_reach \<equiv> reach pc_init pc_step"

definition stack :: "buf_t \<Rightarrow> int list \<Rightarrow> bool" where
  "stack b xs \<longleftrightarrow> (\<exists>ys. data b = Some (map Some xs @ ys) \<and> length xs + length ys = capacity b)
     \<and> bsize b = length xs \<and> capacity b \<le> 2147483647"

definition pc_inv :: "state \<Rightarrow> bool" where
  "pc_inv s \<longleftrightarrow> (\<exists>xs. stack (buf s) xs) \<and> num_gen s = 800
     \<and> 0 \<le> num_has_read s \<and> num_has_read s \<le> num_gen s
     \<and> num_has_gen s = num_has_read s + int (bsize (buf s)) \<and> total_gen_num s = num_gen s - num_has_gen s
     \<and> num_has_gen s \<le> num_gen s + 3
     \<and> (producer_done s \<longrightarrow> total_gen_num s \<le> 0) \<and> (consumer_done s \<longrightarrow> num_has_read s = num_gen s)"

lemma fill_stack:
  assumes "stack b xs" and "length xs + length rs \<le> capacity b"
  shows "\<exists>b'. fill rs b = Inr b' \<and> stack b' (xs @ map (\<lambda>r. int (r mod 10)) rs)"
  using assms
proof (induction rs arbitrary: b xs)
  case Nil
  then show ?case by simp
next
  case (Cons r rs)
  from Cons.prems obtain ys where d: "data b = Some (map Some xs @ ys)" "length xs + length ys = capacity b"
    "bsize b = length xs" "capacity b \<le> 2147483647" by (auto simp: stack_def)
  with Cons.prems(2) obtain y zs where ys: "ys = y # zs" by (cases ys) auto
  let ?x = "int (r mod 10)"
  let ?b = "b\<lparr>data := Some (map Some (xs @ [?x]) @ zs), bsize := length xs + 1\<rparr>"
  have i: "to_int (bsize b) = int (length xs)" "(bsize b + 1) mod 18446744073709551616 = length xs + 1"
    using d ys by simp_all
  have "poke (map Some xs @ ys) (to_int (bsize b)) [Some ?x] = Inr (map Some (xs @ [?x]) @ zs)"
    using i(1) ys by (simp add: poke_def)
  then have "fill (r # rs) b = fill rs ?b" using d(1) i(2) by (simp add: Let_def)
  moreover have "stack ?b (xs @ [?x])" using d ys by (auto simp: stack_def)
  moreover have "length (xs @ [?x]) + length rs \<le> capacity ?b" using Cons.prems(2) by simp
  ultimately show ?case using Cons.IH [of ?b "xs @ [?x]"] by auto
qed

lemma room_stack: "stack b xs \<Longrightarrow> room b = capacity b - length xs"
  by (auto simp: stack_def room_def to_size_t_def int_ops)

lemma num_to_gen_bound: "num_to_gen r b \<le> room b \<and> num_to_gen r b \<le> 4"
proof -
  have "r mod 5 < 5" by simp
  then show ?thesis by (auto simp: num_to_gen_def MIN_macro_def num_gen_per_loop_def)
qed

lemma fill_frame: "fill rs b = Inr b' \<Longrightarrow> capacity b' = capacity b"
  by (induction rs arbitrary: b) (auto simp: Let_def cbind_eq_Inr_iff)

lemma producer_round_ok:
  assumes "pc_inv s" and "total_gen_num s > 0" and "length rs = num_to_gen r (buf s)"
  shows "\<exists>t. producer_round r rs s = Inr t \<and> pc_inv (t\<lparr>producer_done := False\<rparr>)
     \<and> num_has_gen t = num_has_gen s + int (length rs) \<and> producer_done t = producer_done s"
proof -
  let ?n = "num_to_gen r (buf s)"
  from assms(1) obtain xs where st: "stack (buf s) xs" by (auto simp: pc_inv_def)
  have inv: "num_gen s = 800" "0 \<le> num_has_read s" "num_has_read s \<le> 800"
    "num_has_gen s = num_has_read s + int (bsize (buf s))" "total_gen_num s = 800 - num_has_gen s"
    using assms(1) by (simp_all add: pc_inv_def)
  note n = num_to_gen_bound [of r "buf s"]
  have same: "pc_inv (s\<lparr>producer_done := False\<rparr>)" using assms(1) by (simp add: pc_inv_def)
  show ?thesis
  proof (cases "?n = 0")
    case True
    then have "producer_round r rs s = Inr s" by (simp add: producer_round_def Let_def)
    with same True assms(3) show ?thesis by simp
  next
    case False
    from st have "bsize (buf s) = length xs" "length xs \<le> capacity (buf s)" by (auto simp: stack_def)
    then have "length xs + length rs \<le> capacity (buf s)"
      using n room_stack [OF st] assms(3) by arith
    from fill_stack [OF st this] obtain b where b: "fill rs (buf s) = Inr b"
      "stack b (xs @ map (\<lambda>r. int (r mod 10)) rs)" by blast
    have size: "bsize b = bsize (buf s) + ?n" using b(2) st assms(3) by (simp add: stack_def)
    let ?t = "s\<lparr>buf := b, total_gen_num := total_gen_num s - int ?n, num_has_gen := num_has_gen s + int ?n\<rparr>"
    have "producer_round r rs s = Inr ?t"
      using False n b(1) assms(2,3) inv by (simp add: producer_round_def Let_def int_range_defs)
    moreover have "pc_inv (?t\<lparr>producer_done := False\<rparr>)"
      using assms(1,2) b(2) size n inv by (auto simp: pc_inv_def)
    ultimately show ?thesis using assms(3) by simp
  qed
qed

lemma consumer_round_ok:
  assumes "pc_inv s" and "\<not> consumer_done s" and "num_has_read s \<noteq> num_gen s"
  shows "\<exists>t. consumer_round s = Inr t \<and> pc_inv t"
proof -
  from assms(1) obtain xs where st: "stack (buf s) xs" by (auto simp: pc_inv_def)
  then obtain ys where d: "data (buf s) = Some (map Some xs @ ys)" "length xs + length ys = capacity (buf s)"
    "bsize (buf s) = length xs" "capacity (buf s) \<le> 2147483647" by (auto simp: stack_def)
  show ?thesis
  proof (cases xs rule: rev_cases)
    case Nil
    with d(3) assms(1) show ?thesis by (simp add: consumer_round_def)
  next
    case (snoc zs z)
    let ?b = "(buf s)\<lparr>bsize := length zs\<rparr>"
    let ?t = "s\<lparr>buf := ?b, num_has_read := num_has_read s + 1\<rparr>"
    have "peek (map Some xs @ ys) (int (bsize (buf s)) - 1) 1 = Inr [Some z]"
      using d(3) snoc by (simp add: peek_def)
    moreover have "num_has_read s \<ge> 0" "num_has_read s < 800"
      using assms(1,3) by (auto simp: pc_inv_def)
    ultimately have "consumer_round s = Inr ?t"
      using d snoc by (simp add: consumer_round_def Let_def int_range_defs)
    moreover have "stack ?b zs" using d snoc by (auto simp: stack_def intro: exI [of _ "Some z # ys"])
    then have "pc_inv ?t" using assms d(3) snoc by (auto simp: pc_inv_def)
    ultimately show ?thesis by blast
  qed
qed

lemma pc_inv_step:
  assumes "pc_inv s" and "pc_step s t"
  shows "pc_inv t"
  using assms(2)
proof cases
  case (produce rs r)
  from producer_round_ok [OF assms(1) produce(2,3)] produce(1,4)
  have "pc_inv (t\<lparr>producer_done := False\<rparr>)" "\<not> producer_done t" by auto
  moreover from this(2) have "t\<lparr>producer_done := False\<rparr> = t" by simp
  ultimately show ?thesis by simp
next
  case consume
  from consumer_round_ok [OF assms(1) consume(1,2)] consume(3) show ?thesis by auto
qed (use assms(1) in \<open>auto simp: pc_inv_def\<close>)

lemma parse_option_capacity:
  "parse_option p S = Inr S' \<Longrightarrow> buffer_capacity S = to_size_t c \<Longrightarrow> in_int c
    \<Longrightarrow> \<exists>c'. in_int c' \<and> buffer_capacity S' = to_size_t c'"
  by (auto simp: parse_option_def Let_def cbind_eq_Inr_iff dest: atoi_in_int split: if_splits prod.splits option.splits)

lemma parse_commands_capacity:
  "parse_commands ps S = Inr S' \<Longrightarrow> \<exists>c. in_int c \<and> buffer_capacity S = to_size_t c
    \<Longrightarrow> \<exists>c. in_int c \<and> buffer_capacity S' = to_size_t c"
proof (induction ps arbitrary: S)
  case (Cons p ps)
  then obtain S1 where "parse_option p S = Inr S1" "parse_commands ps S1 = Inr S'"
    by (auto simp: cbind_eq_Inr_iff)
  with Cons parse_option_capacity [of p S S1] show ?case by blast
qed simp

text \<open>The array can only be allocated for a size that is not negative.\<close>

lemma granted_capacity:
  assumes "in_int c" and "to_size_t (4 * int (to_size_t c)) \<le> PTRDIFF_MAX"
  shows "0 \<le> c" and "to_size_t (4 * int (to_size_t c)) div 4 = to_size_t c" and "to_size_t c \<le> 2147483647"
proof -
  show c: "0 \<le> c"
  proof (rule ccontr)
    assume "\<not> 0 \<le> c"
    then have neg: "c < 0" "- 2147483648 \<le> c" using assms(1) by (auto simp: int_range_defs)
    have "c mod 18446744073709551616 = c + 18446744073709551616"
      using neg mod_pos_pos_trivial [of "c + 18446744073709551616" 18446744073709551616] by simp
    then have "4 * int (to_size_t c) = 4 * c + 4 * 18446744073709551616" using neg by (simp add: to_size_t_def)
    then have "(4 * int (to_size_t c)) mod 18446744073709551616 = 4 * c + 18446744073709551616"
      using neg mod_pos_pos_trivial [of "4 * c + 18446744073709551616" 18446744073709551616]
        mod_mult_self1 [of "4 * c + 18446744073709551616" 3 18446744073709551616]
      by (simp add: add.commute)
    with assms(2) neg show False by (simp add: to_size_t_def PTRDIFF_MAX_def)
  qed
  with assms(1) show "to_size_t (4 * int (to_size_t c)) div 4 = to_size_t c" "to_size_t c \<le> 2147483647"
    by (simp_all add: to_size_t_def int_range_defs nat_mult_distrib nat_le_iff)
qed

lemma pc_inv_init:
  assumes "pc_init s"
  shows "pc_inv s"
proof -
  from assms obtain A opts S where m: "parse_commands opts default_settings = Inr S"
    and s: "pc_main A True True opts = Inr s" "data (buf s) \<noteq> None"
    by (auto simp: pc_init_def pc_main_def cbind_eq_Inr_iff)
  have "buffer_capacity default_settings = to_size_t 100" "in_int 100"
    by (simp_all add: default_settings_def int_range_defs)
  with parse_commands_capacity [OF m] obtain c where c: "in_int c" "buffer_capacity S = to_size_t c" by blast
  have ok: "to_size_t (4 * int (to_size_t c)) \<le> PTRDIFF_MAX"
    using s m c(2) by (auto simp: pc_main_def Let_def alloc_ok_def split: if_splits)
  have e: "buf s = \<lparr>capacity = to_size_t c, bsize = 0, data = Some (replicate (to_size_t c) None)\<rparr>"
    and f: "num_gen s = 800" "num_has_gen s = 0" "num_has_read s = 0" "total_gen_num s = 800"
      "\<not> producer_done s" "\<not> consumer_done s"
    using s m granted_capacity(2) [OF c(1) ok] c(2) by (auto simp: pc_main_def Let_def split: if_splits)
  have "stack (buf s) []" unfolding e stack_def using granted_capacity(3) [OF c(1) ok] by simp
  with e f show ?thesis by (auto simp: pc_inv_def)
qed

interpretation single: invariant_system pc_init pc_step pc_inv
  by unfold_locales (fact pc_inv_init, fact pc_inv_step)

section \<open>Properties\<close>

text \<open>
  C11: the shared array is used safely and the counters are consistent. In every reachable state,
  whatever numbers \<^verbatim>\<open>rand\<close> returns, the next round of either thread is defined (no access outside
  the array, no uninitialised element, no overflow); the array holds exactly the numbers
  generated and not yet read; at most 803 numbers are generated; and when both threads have
  ended, exactly 800 have been read and at most three are left in the array.
\<close>

theorem producer_consumer_safe:
  assumes "pc_reach s"
  shows "(\<forall>r rs. total_gen_num s > 0 \<longrightarrow> length rs = num_to_gen r (buf s) \<longrightarrow> (\<exists>t. producer_round r rs s = Inr t))
    \<and> (num_has_read s \<noteq> 800 \<longrightarrow> (\<exists>t. consumer_round s = Inr t))
    \<and> bsize (buf s) \<le> capacity (buf s) \<and> int (bsize (buf s)) = num_has_gen s - num_has_read s
    \<and> 0 \<le> num_has_read s \<and> num_has_read s \<le> 800 \<and> num_has_gen s \<le> 803
    \<and> (producer_done s \<longrightarrow> consumer_done s \<longrightarrow> num_has_read s = 800 \<and> bsize (buf s) \<le> 3)"
proof -
  have inv: "pc_inv s" by (rule single.inv_reach [OF assms])
  have "\<exists>t. producer_round r rs s = Inr t" if "total_gen_num s > 0" "length rs = num_to_gen r (buf s)" for r rs
    using producer_round_ok [OF inv that] by blast
  moreover have "\<exists>t. consumer_round s = Inr t" if "num_has_read s \<noteq> 800"
  proof -
    have "\<not> consumer_done s" "num_has_read s \<noteq> num_gen s" using inv that by (auto simp: pc_inv_def)
    then show ?thesis using consumer_round_ok [OF inv] by blast
  qed
  moreover have "bsize (buf s) \<le> capacity (buf s)" using inv by (auto simp: pc_inv_def stack_def)
  ultimately show ?thesis using inv by (auto simp: pc_inv_def)
qed

lemma pc_start: "\<exists>s. pc_init s \<and> capacity (buf s) = 100 \<and> total_gen_num s = 800 \<and> num_has_read s = 0"
proof -
  let ?s = "\<lparr>buf = \<lparr>capacity = 100, bsize = 0, data = Some (replicate 100 None)\<rparr>, num_gen = 800,
     num_has_gen = 0, num_has_read = 0, total_gen_num = 800, producer_done = False, consumer_done = False\<rparr>"
  have "pc_main generous True True [] = Inr ?s"
    by (simp add: pc_main_def default_settings_def to_size_t_def Let_def)
  then have "pc_init ?s" by (auto simp: pc_init_def)
  then show ?thesis by (intro exI [of _ ?s]) simp
qed

theorem producer_consumer_safe_witness:
  "\<exists>s t. pc_reach s \<and> producer_round 0 [] s = Inr t \<and> bsize (buf s) \<le> capacity (buf s)"
proof -
  from pc_start obtain s where s: "pc_init s" "total_gen_num s = 800" by blast
  have r: "pc_reach s" using s(1) by (rule reach_init)
  have "length [] = num_to_gen 0 (buf s)" by (simp add: num_to_gen_def MIN_macro_def)
  with producer_consumer_safe [OF r] s(2) have "\<exists>t. producer_round 0 [] s = Inr t" "bsize (buf s) \<le> capacity (buf s)"
    by auto
  with r show ?thesis by blast
qed

definition last_arg :: "string \<Rightarrow> (char \<times> string option) list \<Rightarrow> string option \<Rightarrow> string option" where
  "last_arg cs ps r = fold (\<lambda>p r. if fst p \<in> set cs then snd p else r) ps r"

definition capacity_given :: "string option \<Rightarrow> nat \<Rightarrow> bool" where
  "capacity_given r c \<longleftrightarrow>
     (case r of None \<Rightarrow> c = 100 | Some a \<Rightarrow> \<exists>n. atoi a = Inr n \<and> c = to_size_t n)"

lemma parse_option_effect:
  assumes "parse_option p S = Inr S'"
  shows "log_file S' = (if fst p \<in> set ''sL'' then snd p else log_file S)" and "fst p \<in> set ''sLl''"
    and "capacity_given r (buffer_capacity S) \<Longrightarrow>
         capacity_given (if fst p \<in> set ''s'' then snd p else r) (buffer_capacity S')"
  using assms
  by (auto simp: parse_option_def Let_def cbind_eq_Inr_iff deref_def capacity_given_def
      split: if_splits prod.splits option.splits)

lemma parse_commands_effect:
  assumes "parse_commands ps S = Inr S'" and "capacity_given r (buffer_capacity S)"
  shows "log_file S' = last_arg ''sL'' ps (log_file S) \<and> capacity_given (last_arg ''s'' ps r) (buffer_capacity S')
    \<and> list_all (\<lambda>p. fst p \<in> set ''sLl'') ps"
  using assms
proof (induction ps arbitrary: S r)
  case Nil
  then show ?case by (simp add: last_arg_def)
next
  case (Cons p ps)
  then obtain S1 where S1: "parse_option p S = Inr S1" "parse_commands ps S1 = Inr S'"
    by (auto simp: cbind_eq_Inr_iff)
  note e = parse_option_effect [OF S1(1)]
  from Cons.IH [OF S1(2) e(3) [OF Cons.prems(2)]] e(1,2) show ?case by (simp add: last_arg_def)
qed

text \<open>
  The option \<^verbatim>\<open>--size\<close> also sets the log file: its case falls through. After any command line
  that is accepted, the log file is the argument of the last \<^verbatim>\<open>--size\<close> or \<^verbatim>\<open>--log-file\<close>, and the
  capacity that of the last \<^verbatim>\<open>--size\<close>. (\<^verbatim>\<open>--display\<close> and \<^verbatim>\<open>--help\<close> end the process with status 1.)
\<close>

theorem size_option_sets_log_file:
  assumes "parse_commands ps default_settings = Inr S"
  shows "log_file S = last_arg ''sL'' ps None \<and> capacity_given (last_arg ''s'' ps None) (buffer_capacity S)
    \<and> list_all (\<lambda>p. fst p \<in> set ''sLl'') ps"
  using parse_commands_effect [OF assms, of None] by (simp add: default_settings_def capacity_given_def)

theorem size_option_sets_log_file_witness:
  "\<exists>S. parse_commands [(CHR ''L'', Some ''run.log''), (CHR ''s'', Some ''20'')] default_settings = Inr S
     \<and> log_file S = Some ''20''"
proof -
  have a: "atoi ''20'' = Inr 20" by code_simp
  obtain S where S: "parse_commands [(CHR ''L'', Some ''run.log''), (CHR ''s'', Some ''20'')] default_settings = Inr S"
    by (simp add: parse_option_def a)
  with size_option_sets_log_file [OF S] show ?thesis by (simp add: last_arg_def)
qed

end
