(* ===== verification/Producer_Liveness.thy ===== *)
theory Producer_Liveness
  imports Producer_Consumer
begin

text \<open>
  The threads of \<^verbatim>\<open>Pthread/producer_consumer.c\<close> wait actively: a producer without room (or whose random
  number is 0) and a consumer without numbers go round their loops and change nothing. These
  idle rounds can be repeated as often as the scheduler likes. The other rounds are counted
  here: there are at most 1605 of them, and one is possible until both threads have ended, if the
  array has at least one element. With none, all rounds are idle.
\<close>

section \<open>Rounds that are not idle\<close>

definition pc_work :: "state \<Rightarrow> state \<Rightarrow> bool" where
  "pc_work s t \<longleftrightarrow> pc_step s t \<and> t \<noteq> s"

definition pc_done :: "state \<Rightarrow> bool" where
  "pc_done s \<longleftrightarrow> producer_done s \<and> consumer_done s"

definition pc_room_init :: "state \<Rightarrow> bool" where
  "pc_room_init s \<longleftrightarrow> pc_init s \<and> 1 \<le> capacity (buf s)"

definition pc_room_inv :: "state \<Rightarrow> bool" where
  "pc_room_inv s \<longleftrightarrow> pc_inv s \<and> 1 \<le> capacity (buf s)"

text \<open>Numbers that can still be generated, numbers that are still to be read, threads that still run.\<close>

definition pc_rest :: "state \<Rightarrow> nat" where
  "pc_rest s = nat (total_gen_num s + 3) + nat (800 - num_has_read s)
     + of_bool (\<not> producer_done s) + of_bool (\<not> consumer_done s)"

lemma work_run: "pc_step\<^sup>*\<^sup>* s t \<longleftrightarrow> pc_work\<^sup>*\<^sup>* s t"
proof
  show "pc_step\<^sup>*\<^sup>* s t \<Longrightarrow> pc_work\<^sup>*\<^sup>* s t"
  proof (induction rule: rtranclp_induct)
    case (step t u)
    then show ?case by (cases "u = t") (auto simp: pc_work_def intro: rtranclp.rtrancl_into_rtrancl)
  qed simp
  have "pc_work \<le> pc_step" by (auto simp: pc_work_def)
  then show "pc_work\<^sup>*\<^sup>* s t \<Longrightarrow> pc_step\<^sup>*\<^sup>* s t" using rtranclp_mono by blast
qed

section \<open>Single rounds\<close>

lemma producer_round_effect:
  assumes "producer_round r rs s = Inr t" and "t \<noteq> s"
  shows "total_gen_num t < total_gen_num s" and "num_has_read t = num_has_read s"
    and "producer_done t = producer_done s" and "consumer_done t = consumer_done s"
  using assms by (auto simp: producer_round_def Let_def cbind_eq_Inr_iff c_int_def split: if_splits)

lemma producer_round_capacity:
  "producer_round r rs s = Inr t \<Longrightarrow> capacity (buf t) = capacity (buf s)"
  by (auto simp: producer_round_def Let_def cbind_eq_Inr_iff dest: fill_frame split: if_splits)

lemma consumer_round_cases:
  assumes "consumer_round s = Inr t"
  shows "(if bsize (buf s) = 0 then t = s
    else t = s\<lparr>buf := (buf s)\<lparr>bsize := bsize (buf s) - 1\<rparr>, num_has_read := num_has_read s + 1\<rparr>)"
proof (cases "bsize (buf s) = 0")
  case False
  with assms obtain v :: "int option list" where
    v: "(case v of [Some x] \<Rightarrow> cbind (c_int (num_has_read s + 1)) (\<lambda>n.
           Inr (s\<lparr>buf := (buf s)\<lparr>bsize := bsize (buf s) - 1\<rparr>, num_has_read := n\<rparr>))
         | _ \<Rightarrow> Inl Uninitialised) = Inr t"
    by (auto simp: consumer_round_def Let_def cbind_eq_Inr_iff)
  then obtain x where "v = [Some x]" by (auto split: list.splits option.splits)
  with v False show ?thesis by (auto simp: cbind_eq_Inr_iff c_int_def split: if_splits)
qed (use assms in \<open>simp add: consumer_round_def\<close>)

lemma consumer_round_effect:
  assumes "consumer_round s = Inr t"
  shows "t \<noteq> s \<Longrightarrow> num_has_read t = num_has_read s + 1" and "total_gen_num t = total_gen_num s"
    and "producer_done t = producer_done s" and "consumer_done t = consumer_done s"
    and "capacity (buf t) = capacity (buf s)" and "0 < bsize (buf s) \<Longrightarrow> t \<noteq> s"
proof -
  note cases = consumer_round_cases [OF assms]
  show "t \<noteq> s \<Longrightarrow> num_has_read t = num_has_read s + 1" "total_gen_num t = total_gen_num s"
    "producer_done t = producer_done s" "consumer_done t = consumer_done s" "capacity (buf t) = capacity (buf s)"
    using cases by (auto split: if_splits)
  assume "0 < bsize (buf s)"
  with cases have "num_has_read t = num_has_read s + 1" by simp
  then show "t \<noteq> s" by auto
qed

lemma pc_step_capacity: "pc_step s t \<Longrightarrow> capacity (buf t) = capacity (buf s)"
  by (induction rule: pc_step.induct) (auto dest: producer_round_capacity consumer_round_effect(5))

section \<open>Termination\<close>

lemma pc_room_inv_work: "pc_room_inv s \<Longrightarrow> pc_work s t \<Longrightarrow> pc_room_inv t"
  using pc_step_capacity [of s t] pc_inv_step [of s t] by (simp add: pc_room_inv_def pc_work_def)

lemma pc_work_decreases:
  assumes "pc_room_inv s" and "pc_work s t"
  shows "pc_rest t < pc_rest s"
proof -
  have inv: "pc_inv t" using pc_room_inv_work [OF assms] by (simp add: pc_room_inv_def)
  have ne: "t \<noteq> s" using assms(2) by (simp add: pc_work_def)
  have low: "- 3 \<le> total_gen_num t" "num_has_read t \<le> 800"
    using inv by (auto simp: pc_inv_def)
  from assms(2) have "pc_step s t" by (simp add: pc_work_def)
  then show ?thesis
  proof cases
    case (produce rs r)
    from producer_round_effect [OF produce(4) ne] low(1) show ?thesis by (simp add: pc_rest_def)
  next
    case consume
    from consumer_round_effect(1) [OF consume(3) ne] consumer_round_effect(2-4) [OF consume(3)] low(2)
    show ?thesis by (simp add: pc_rest_def)
  qed (simp_all add: pc_rest_def)
qed

lemma producer_can_work:
  assumes "pc_room_inv s" and "\<not> producer_done s" and "0 < total_gen_num s" and "bsize (buf s) = 0"
  shows "\<exists>t. pc_work s t"
proof -
  from assms(1) obtain xs where st: "stack (buf s) xs" and cap: "1 \<le> capacity (buf s)"
    by (auto simp: pc_room_inv_def pc_inv_def)
  have "room (buf s) = capacity (buf s)" using room_stack [OF st] st assms(4) by (auto simp: stack_def)
  then have n: "num_to_gen 1 (buf s) = 1" using cap by (simp add: num_to_gen_def MIN_macro_def num_gen_per_loop_def)
  have "pc_inv s" using assms(1) by (simp add: pc_room_inv_def)
  from producer_round_ok [OF this assms(3), of "[0]" 1] n obtain t where
    t: "producer_round 1 [0] s = Inr t" "num_has_gen t = num_has_gen s + 1" by auto
  have "pc_step s t" using pc_step.produce [OF assms(2,3) _ t(1)] n by simp
  moreover have "t \<noteq> s" using t(2) by auto
  ultimately show ?thesis by (auto simp: pc_work_def)
qed

lemma pc_can_work:
  assumes "pc_room_inv s" and "\<not> pc_done s"
  shows "\<exists>t. pc_work s t"
proof -
  have inv: "pc_inv s" using assms(1) by (simp add: pc_room_inv_def)
  then have f: "num_gen s = 800" "num_has_read s \<le> 800" "total_gen_num s = 800 - num_has_gen s"
    "num_has_gen s = num_has_read s + int (bsize (buf s))"
    "producer_done s \<Longrightarrow> total_gen_num s \<le> 0" "consumer_done s \<Longrightarrow> num_has_read s = 800"
    by (auto simp: pc_inv_def)
  consider (exit1) "\<not> producer_done s" "total_gen_num s \<le> 0" | (exit2) "\<not> consumer_done s" "num_has_read s = 800"
    | (read) "\<not> consumer_done s" "num_has_read s \<noteq> 800" "0 < bsize (buf s)"
    | (gen) "\<not> producer_done s" "0 < total_gen_num s" "bsize (buf s) = 0"
    using f assms(2) by (cases "bsize (buf s) = 0") (force simp: pc_done_def)+
  then show ?thesis
  proof cases
    case exit1
    then have "pc_step s (s\<lparr>producer_done := True\<rparr>)" by (intro pc_step.producer_exit) auto
    moreover have "s\<lparr>producer_done := True\<rparr> \<noteq> s" using exit1(1) by (metis state.select_convs(6) state.update_convs(6) state.surjective)
    ultimately show ?thesis by (auto simp: pc_work_def)
  next
    case exit2
    then have "pc_step s (s\<lparr>consumer_done := True\<rparr>)" using f(1) by (intro pc_step.consumer_exit) auto
    moreover have "s\<lparr>consumer_done := True\<rparr> \<noteq> s" using exit2(1) by (metis state.select_convs(7) state.update_convs(7) state.surjective)
    ultimately show ?thesis by (auto simp: pc_work_def)
  next
    case read
    with f(1) have ne: "num_has_read s \<noteq> num_gen s" by simp
    from consumer_round_ok [OF inv read(1) ne] obtain t where t: "consumer_round s = Inr t" by blast
    from pc_step.consume [OF read(1) ne t] consumer_round_effect(6) [OF t read(3)] show ?thesis
      by (auto simp: pc_work_def)
  next
    case gen
    from producer_can_work [OF assms(1) gen] show ?thesis .
  qed
qed

interpretation rounds: terminating_system pc_room_init pc_work pc_room_inv pc_done pc_rest
proof
  show "pc_room_init s \<Longrightarrow> pc_room_inv s" for s by (simp add: pc_room_init_def pc_room_inv_def pc_inv_init)
qed (fact pc_room_inv_work, fact pc_can_work, fact pc_work_decreases)

section \<open>An array without elements\<close>

lemma no_room_step:
  assumes "pc_inv s" and "capacity (buf s) = 0" and "pc_step s t" and "num_has_read s = 0"
  shows "t = s"
proof -
  from assms(1) obtain xs where st: "stack (buf s) xs" by (auto simp: pc_inv_def)
  then have b: "room (buf s) = 0" "bsize (buf s) = 0"
    using room_stack [OF st] assms(2) by (auto simp: stack_def)
  then have n: "0 < total_gen_num s" "num_gen s = 800" using assms(1,4) by (simp_all add: pc_inv_def)
  from assms(3) show ?thesis
  proof cases
    case (produce rs r)
    then show ?thesis using b(1) by (simp add: producer_round_def)
  next
    case consume
    then show ?thesis using consumer_round_cases [of s t] b(2) by simp
  qed (use n assms(4) in simp_all)
qed

section \<open>Property\<close>

lemma pc_init_values:
  assumes "pc_init s"
  shows "total_gen_num s = 800" and "num_has_read s = 0" and "\<not> producer_done s" and "\<not> consumer_done s"
  using assms by (auto simp: pc_init_def pc_main_def Let_def cbind_eq_Inr_iff split: if_splits)

lemma no_room_run:
  assumes "pc_init s" and "capacity (buf s) = 0" and "pc_step\<^sup>*\<^sup>* s t"
  shows "t = s"
  using assms(3)
proof (induction rule: rtranclp_induct)
  case (step t u)
  with no_room_step [OF pc_inv_init [OF assms(1)] assms(2) _ pc_init_values(2) [OF assms(1)]] show ?case by simp
qed simp

text \<open>
  C12: how the two threads end. If the array has at least one element, then under every schedule at
  most 1605 rounds change the state, and in every state that can be reached one more such round is
  possible until both threads have ended: only a scheduler that repeats idle rounds forever prevents
  the end. With \<^verbatim>\<open>--size 0\<close> no round ever changes anything, and neither thread ends.
\<close>

theorem producer_consumer_ends:
  assumes "pc_init s"
  shows "(1 \<le> capacity (buf s) \<longrightarrow> (\<forall>n t. (pc_work ^^ n) s t \<longrightarrow> n \<le> 1605)
      \<and> (\<forall>t. pc_step\<^sup>*\<^sup>* s t \<longrightarrow> pc_done t \<or> (\<exists>u. pc_work t u)))
    \<and> (capacity (buf s) = 0 \<longrightarrow> (\<forall>t. pc_step\<^sup>*\<^sup>* s t \<longrightarrow> t = s \<and> \<not> producer_done t \<and> \<not> consumer_done t))"
proof (intro conjI impI allI)
  assume cap: "1 \<le> capacity (buf s)"
  with assms have inv: "pc_room_inv s" by (simp add: pc_room_inv_def pc_inv_init)
  have "pc_rest s = 1605" using pc_init_values [OF assms] by (simp add: pc_rest_def)
  then show "n \<le> 1605" if "(pc_work ^^ n) s t" for n t using rounds.run_bounded [OF that inv] by simp
  fix t
  assume "pc_step\<^sup>*\<^sup>* s t"
  then have "pc_room_inv t" using rounds.inv_run inv by (simp add: work_run)
  then show "pc_done t \<or> (\<exists>u. pc_work t u)" using rounds.progress by blast
next
  fix t
  assume "capacity (buf s) = 0" and "pc_step\<^sup>*\<^sup>* s t"
  from no_room_run [OF assms this] show "t = s" .
  with pc_init_values [OF assms] show "\<not> producer_done t" "\<not> consumer_done t" by simp_all
qed

theorem producer_consumer_ends_witness:
  "\<exists>s u. pc_init s \<and> capacity (buf s) = 100 \<and> pc_work s u"
proof -
  from pc_start obtain s where s: "pc_init s" "capacity (buf s) = 100" by blast
  with producer_consumer_ends [OF s(1)] pc_init_values [OF s(1)] have "\<exists>u. pc_work s u"
    by (auto simp: pc_done_def)
  with s show ?thesis by blast
qed

end
