(* ===== verification/Condition_Variables.thy ===== *)
theory Condition_Variables
  imports C_Prelude Step_Systems
begin

text \<open>
  \<^verbatim>\<open>Miscs/condition_variables.c\<close>: two threads increment a counter up to \<^verbatim>\<open>COUNT_DONE\<close>; the first
  one sleeps on a condition variable while the counter is between the two halt values. The
  conditions read the counter without the mutex that protects its increments, so each read is
  a step of its own. A thread woken up starts over at the lock.
\<close>

definition COUNT_DONE :: int where "COUNT_DONE = 10"
definition COUNT_HALT1 :: int where "COUNT_HALT1 = 3"
definition COUNT_HALT2 :: int where "COUNT_HALT2 = 6"

text \<open>
  \<^verbatim>\<open>func1\<close>: about to lock \<^verbatim>\<open>condition_mutex\<close>; with the mutex, about to read the counter for the
  first and for the second comparison; asleep; about to increment; about to test for the end.
\<close>

datatype pc1 = F_lock | F_ge | F_le | F_sleep | F_inc | F_chk | F_done

text \<open>\<^verbatim>\<open>func2\<close> in the same way.\<close>

datatype pc2 = G_lock | G_lt | G_gt | G_inc | G_chk | G_done

text \<open>\<open>printed\<close>: the values printed, each with the number of the function.\<close>

record cv =
  count :: int
  pc1 :: pc1
  pc2 :: pc2
  printed :: "(nat \<times> int) list"

text \<open>\<open>None\<close>: a thread could not be created and \<^verbatim>\<open>main\<close> has returned.\<close>

definition cv_main :: "bool \<Rightarrow> bool \<Rightarrow> cv option" where
  "cv_main create1 create2 =
     (if \<not> create1 then None else if \<not> create2 then None
      else Some \<lparr>count = 0, pc1 = F_lock, pc2 = G_lock, printed = []\<rparr>)"

definition cond_mutex_free :: "cv \<Rightarrow> bool" where
  "cond_mutex_free s \<longleftrightarrow> pc1 s \<noteq> F_ge \<and> pc1 s \<noteq> F_le \<and> pc2 s \<noteq> G_lt \<and> pc2 s \<noteq> G_gt"

inductive func1_step :: "cv \<Rightarrow> cv \<Rightarrow> bool" where
  f_lock: "pc1 s = F_lock \<Longrightarrow> cond_mutex_free s \<Longrightarrow> func1_step s (s\<lparr>pc1 := F_ge\<rparr>)"
| f_ge: "pc1 s = F_ge \<Longrightarrow> func1_step s (s\<lparr>pc1 := (if count s \<ge> COUNT_HALT1 then F_le else F_inc)\<rparr>)"
| f_le: "pc1 s = F_le \<Longrightarrow> func1_step s (s\<lparr>pc1 := (if count s \<le> COUNT_HALT2 then F_sleep else F_inc)\<rparr>)"
| f_inc: "pc1 s = F_inc \<Longrightarrow> c_int (count s + 1) = Inr c \<Longrightarrow>
    func1_step s (s\<lparr>count := c, printed := printed s @ [(1, c)], pc1 := F_chk\<rparr>)"
| f_chk: "pc1 s = F_chk \<Longrightarrow> func1_step s (s\<lparr>pc1 := (if count s \<ge> COUNT_DONE then F_done else F_lock)\<rparr>)"

text \<open>\<^verbatim>\<open>pthread_cond_signal\<close>.\<close>

definition wake1 :: "pc1 \<Rightarrow> pc1" where
  "wake1 p = (if p = F_sleep then F_lock else p)"

inductive func2_step :: "cv \<Rightarrow> cv \<Rightarrow> bool" where
  g_lock: "pc2 s = G_lock \<Longrightarrow> cond_mutex_free s \<Longrightarrow> func2_step s (s\<lparr>pc2 := G_lt\<rparr>)"
| g_lt: "pc2 s = G_lt \<Longrightarrow> func2_step s
    (if count s < COUNT_HALT1 then s\<lparr>pc2 := G_inc, pc1 := wake1 (pc1 s)\<rparr> else s\<lparr>pc2 := G_gt\<rparr>)"
| g_gt: "pc2 s = G_gt \<Longrightarrow> func2_step s
    (if count s > COUNT_HALT2 then s\<lparr>pc2 := G_inc, pc1 := wake1 (pc1 s)\<rparr> else s\<lparr>pc2 := G_inc\<rparr>)"
| g_inc: "pc2 s = G_inc \<Longrightarrow> c_int (count s + 1) = Inr c \<Longrightarrow>
    func2_step s (s\<lparr>count := c, printed := printed s @ [(2, c)], pc2 := G_chk\<rparr>)"
| g_chk: "pc2 s = G_chk \<Longrightarrow> func2_step s (s\<lparr>pc2 := (if count s \<ge> COUNT_DONE then G_done else G_lock)\<rparr>)"

definition cv_step :: "cv \<Rightarrow> cv \<Rightarrow> bool" where
  "cv_step s t \<longleftrightarrow> func1_step s t \<or> func2_step s t"

text \<open>With spurious wake-ups of the sleeping thread.\<close>

definition cv_any :: "cv \<Rightarrow> cv \<Rightarrow> bool" where
  "cv_any s t \<longleftrightarrow> cv_step s t \<or> (pc1 s = F_sleep \<and> t = s\<lparr>pc1 := F_lock\<rparr>)"

definition cv_init :: "cv \<Rightarrow> bool" where
  "cv_init s \<longleftrightarrow> cv_main True True = Some s"

lemmas cv_consts = COUNT_DONE_def COUNT_HALT1_def COUNT_HALT2_def

section \<open>Invariant\<close>

definition past1 :: "pc1 \<Rightarrow> int" where "past1 p = (if p = F_chk \<or> p = F_done then 1 else 0)"
definition past2 :: "pc2 \<Rightarrow> int" where "past2 p = (if p = G_chk \<or> p = G_done then 1 else 0)"

text \<open>
  A thread past its increment accounts for one more than 9. While the first thread sleeps, the
  second has not yet tested the counter since it passed the upper halt value.
\<close>

definition cv_inv :: "cv \<Rightarrow> bool" where
  "cv_inv s \<longleftrightarrow> 0 \<le> count s \<and> count s \<le> 9 + past1 (pc1 s) + past2 (pc2 s)
     \<and> (pc1 s = F_done \<longrightarrow> 10 \<le> count s) \<and> (pc2 s = G_done \<longrightarrow> 10 \<le> count s)
     \<and> (pc1 s = F_sleep \<longrightarrow> count s \<le> 6 \<or> count s = 7 \<and> pc2 s \<in> {G_chk, G_lock, G_lt, G_gt})
     \<and> map snd (printed s) = [1..count s]"

lemma upto_snoc: "0 \<le> c \<Longrightarrow> [1..c + 1] = [1..c] @ [c + 1]" for c :: int
  by (simp add: upto_rec2)

lemma cv_inv_func1: "func1_step s t \<Longrightarrow> cv_inv s \<Longrightarrow> cv_inv t"
  by (erule func1_step.cases)
    (auto simp: cv_inv_def past1_def past2_def cv_consts c_int_eq_Inr_iff upto_snoc split: if_splits)

lemma cv_inv_func2: "func2_step s t \<Longrightarrow> cv_inv s \<Longrightarrow> cv_inv t"
  by (erule func2_step.cases)
    (auto simp: cv_inv_def past1_def past2_def cv_consts c_int_eq_Inr_iff upto_snoc wake1_def split: if_splits)

interpretation cv: invariant_system cv_init cv_any cv_inv
proof
  show "cv_inv s" if "cv_init s" for s
    using that by (auto simp: cv_init_def cv_main_def cv_inv_def past1_def past2_def)
  show "cv_inv t" if "cv_inv s" "cv_any s t" for s t
    using that cv_inv_func1 cv_inv_func2 by (auto simp: cv_any_def cv_step_def) (auto simp: cv_inv_def past1_def)
qed

section \<open>Termination\<close>

fun w1 :: "pc1 \<Rightarrow> nat" where
  "w1 F_chk = 6" | "w1 F_lock = 5" | "w1 F_ge = 4" | "w1 F_le = 3" | "w1 F_sleep = 2" | "w1 F_inc = 1" | "w1 F_done = 0"

fun w2 :: "pc2 \<Rightarrow> nat" where
  "w2 G_chk = 8" | "w2 G_lock = 7" | "w2 G_lt = 6" | "w2 G_gt = 5" | "w2 G_inc = 1" | "w2 G_done = 0"

definition cv_measure :: "cv \<Rightarrow> nat" where
  "cv_measure s = 10 * nat (11 - count s) + w1 (pc1 s) + w2 (pc2 s)"

lemma cv_room: "cv_inv s \<Longrightarrow> pc1 s = F_inc \<or> pc2 s = G_inc \<Longrightarrow> count s \<le> 10"
  by (auto simp: cv_inv_def past1_def past2_def split: if_splits)

lemma inc_measure: "c \<le> 10 \<Longrightarrow> nat (11 - c) = Suc (nat (11 - (c + 1)))" for c :: int
  by simp

lemma cv_measure_func1: "func1_step s t \<Longrightarrow> cv_inv s \<Longrightarrow> cv_measure t < cv_measure s"
  using cv_room [of s] inc_measure [of "count s"]
  by (erule_tac func1_step.cases) (auto simp: cv_measure_def c_int_eq_Inr_iff)

lemma w1_wake: "w1 (wake1 p) \<le> w1 p + 3"
  by (cases p) (simp_all add: wake1_def)

lemma cv_measure_func2: "func2_step s t \<Longrightarrow> cv_inv s \<Longrightarrow> cv_measure t < cv_measure s"
  using cv_room [of s] inc_measure [of "count s"] w1_wake [of "pc1 s"]
  by (erule_tac func2_step.cases) (auto simp: cv_measure_def c_int_eq_Inr_iff)

definition both_done :: "cv \<Rightarrow> bool" where
  "both_done s \<longleftrightarrow> pc1 s = F_done \<and> pc2 s = G_done"

lemma inc_ok: "cv_inv s \<Longrightarrow> c_int (count s + 1) = Inr (count s + 1)"
  by (auto simp: cv_inv_def past1_def past2_def c_int_eq_Inr_iff int_range_defs split: if_splits)

lemma func2_moves:
  assumes "cv_inv s" and "pc2 s \<noteq> G_done" and "pc2 s = G_lock \<longrightarrow> cond_mutex_free s"
  shows "\<exists>t. func2_step s t"
  using assms inc_ok [OF assms(1)] by (cases "pc2 s") (blast intro: func2_step.intros)+

lemma func1_moves:
  assumes "cv_inv s" and "pc1 s \<noteq> F_done" and "pc1 s \<noteq> F_sleep" and "pc1 s = F_lock \<longrightarrow> cond_mutex_free s"
  shows "\<exists>t. func1_step s t"
  using assms inc_ok [OF assms(1)] by (cases "pc1 s") (blast intro: func1_step.intros)+

lemma cv_progress:
  assumes "cv_inv s" and "\<not> both_done s"
  shows "\<exists>t. cv_step s t"
proof (cases "pc2 s = G_done \<or> pc2 s = G_lock \<and> \<not> cond_mutex_free s")
  case False
  then show ?thesis using func2_moves [OF assms(1)] by (auto simp: cv_step_def)
next
  case True
  then have "pc1 s \<noteq> F_done" "pc1 s \<noteq> F_sleep" "pc1 s = F_lock \<longrightarrow> cond_mutex_free s"
    using assms by (auto simp: both_done_def cv_inv_def cond_mutex_free_def)
  then show ?thesis using func1_moves [OF assms(1)] by (auto simp: cv_step_def)
qed

interpretation counting: terminating_system cv_init cv_step cv_inv both_done cv_measure
proof
  show "cv_inv s" if "cv_init s" for s using that by (rule cv.inv_init)
  show "cv_inv t" if "cv_inv s" "cv_step s t" for s t
    using that cv_inv_func1 cv_inv_func2 by (auto simp: cv_step_def)
  show "cv_measure t < cv_measure s" if "cv_inv s" "cv_step s t" for s t
    using that cv_measure_func1 cv_measure_func2 by (auto simp: cv_step_def)
qed (rule cv_progress)

section \<open>Properties\<close>

text \<open>
  C9: the two threads end under every schedule: at most 122 steps are possible (not counting
  spurious wake-ups), the sleeping thread is always woken up again, and when no step is possible
  both functions have returned, the counter is 10 or 11, and the values 1, 2, 3, ... up to
  the counter have been printed in this order, each once.
\<close>

theorem condition_variables_end:
  assumes "cv_main True True = Some s"
  shows "(\<forall>n t. (cv_step ^^ n) s t \<longrightarrow> n \<le> 122)
    \<and> (\<forall>t. cv_step\<^sup>*\<^sup>* s t \<longrightarrow> (\<exists>u. cv_step t u) \<or>
         (pc1 t = F_done \<and> pc2 t = G_done \<and> count t \<in> {10, 11} \<and> map snd (printed t) = [1..count t]))"
proof -
  have inv: "cv_inv s" using assms by (intro cv.inv_init) (simp add: cv_init_def)
  have "cv_measure s = 122" using assms by (auto simp: cv_main_def cv_measure_def)
  then have "n \<le> 122" if "(cv_step ^^ n) s t" for n t using counting.run_bounded [OF that inv] by simp
  moreover have "pc1 t = F_done \<and> pc2 t = G_done \<and> count t \<in> {10, 11} \<and> map snd (printed t) = [1..count t]"
    if "cv_step\<^sup>*\<^sup>* s t" "\<nexists>u. cv_step t u" for t
  proof -
    have t: "cv_inv t" by (rule counting.inv_run [OF that(1) inv])
    then have "both_done t" using cv_progress that(2) by blast
    with t show ?thesis by (auto simp: both_done_def cv_inv_def past1_def past2_def)
  qed
  ultimately show ?thesis by blast
qed

theorem condition_variables_end_witness:
  "\<exists>s t. cv_main True True = Some s \<and> cv_step\<^sup>*\<^sup>* s t \<and> count t \<in> {10, 11} \<and> map snd (printed t) = [1..count t]"
proof -
  obtain s where s: "cv_main True True = Some s" by (simp add: cv_main_def)
  then have "cv_inv s" by (intro cv.inv_init) (simp add: cv_init_def)
  from counting.reaches_final [OF this] obtain t where t: "cv_step\<^sup>*\<^sup>* s t" "both_done t" by blast
  then have "\<nexists>u. cv_step t u"
    by (auto simp: both_done_def cv_step_def elim: func1_step.cases func2_step.cases)
  with condition_variables_end [OF s] t(1) s show ?thesis by blast
qed

end
