(* ===== verification/Posix_Files.thy ===== *)
theory Posix_Files
  imports C_Stdio
begin

text \<open>
  The programs of \<^verbatim>\<open>POSIX_File/\<close> and \<^verbatim>\<open>Linux/File/src/lseek.c\<close> over a model of the POSIX file
  calls they use: a directory of files with the owner's permissions, open file descriptions
  with their offset, and the table of descriptors.
\<close>

section \<open>Files and descriptors\<close>

text \<open>A regular file has a content and says whether its owner may read and write it.\<close>

datatype inode = Dir | Reg (content: string) (may_read: bool) (may_write: bool)

datatype access = O_RDONLY | O_WRONLY | O_RDWR

record ofd =
  fname :: string
  offset :: nat
  acc :: access

record fsys =
  files :: "string \<rightharpoonup> inode"
  ofds :: "ofd list"
  fds :: "nat \<rightharpoonup> nat"

record oflags =
  o_access :: access
  o_creat :: bool
  o_excl :: bool

definition reads :: "access \<Rightarrow> bool" where "reads a \<longleftrightarrow> a \<noteq> O_WRONLY"
definition writes :: "access \<Rightarrow> bool" where "writes a \<longleftrightarrow> a \<noteq> O_RDONLY"

text \<open>The lowest free descriptor that is at least \<open>m\<close>; a process has 1024.\<close>

definition lowest_fd :: "fsys \<Rightarrow> nat \<Rightarrow> nat option" where
  "lowest_fd s m = List.find (\<lambda>n. fds s n = None) [m..<1024]"

definition new_fd :: "fsys \<Rightarrow> string \<Rightarrow> access \<Rightarrow> int \<times> fsys" where
  "new_fd s name a =
     (case lowest_fd s 0 of None \<Rightarrow> (- 1, s)
      | Some n \<Rightarrow> (int n, s\<lparr>ofds := ofds s @ [\<lparr>fname = name, offset = 0, acc = a\<rparr>],
                           fds := (fds s)(n \<mapsto> length (ofds s))\<rparr>))"

text \<open>\<open>perm\<close>: the owner's permissions of a file that is created.\<close>

definition open_file :: "fsys \<Rightarrow> string \<Rightarrow> oflags \<Rightarrow> bool \<times> bool \<Rightarrow> int \<times> fsys" where
  "open_file s name fl perm =
     (if lowest_fd s 0 = None then (- 1, s)
      else case files s name of
        None \<Rightarrow> if o_creat fl
                then new_fd (s\<lparr>files := (files s)(name \<mapsto> Reg [] (fst perm) (snd perm))\<rparr>) name (o_access fl)
                else (- 1, s)
      | Some Dir \<Rightarrow> if o_creat fl \<or> writes (o_access fl) then (- 1, s) else new_fd s name (o_access fl)
      | Some (Reg c r w) \<Rightarrow>
          if o_creat fl \<and> o_excl fl then (- 1, s)
          else if (reads (o_access fl) \<and> \<not> r) \<or> (writes (o_access fl) \<and> \<not> w) then (- 1, s)
          else new_fd s name (o_access fl))"

text \<open>\<^verbatim>\<open>creat\<close> truncates a file that exists.\<close>

definition creat_file :: "fsys \<Rightarrow> string \<Rightarrow> bool \<times> bool \<Rightarrow> int \<times> fsys" where
  "creat_file s name perm =
     (if lowest_fd s 0 = None then (- 1, s)
      else case files s name of
        None \<Rightarrow> new_fd (s\<lparr>files := (files s)(name \<mapsto> Reg [] (fst perm) (snd perm))\<rparr>) name O_WRONLY
      | Some Dir \<Rightarrow> (- 1, s)
      | Some (Reg c r w) \<Rightarrow> if \<not> w then (- 1, s)
          else new_fd (s\<lparr>files := (files s)(name \<mapsto> Reg [] r w)\<rparr>) name O_WRONLY)"

definition fd_of :: "fsys \<Rightarrow> int \<Rightarrow> nat option" where
  "fd_of s fd = (if fd < 0 then None else fds s (nat fd))"

definition read_fd :: "fsys \<Rightarrow> int \<Rightarrow> nat \<Rightarrow> int \<times> string \<times> fsys" where
  "read_fd s fd n =
     (case fd_of s fd of None \<Rightarrow> (- 1, [], s)
      | Some k \<Rightarrow> (let d = ofds s ! k in
          case files s (fname d) of
            Some (Reg c r w) \<Rightarrow>
              if \<not> reads (acc d) then (- 1, [], s)
              else (let bs = take n (drop (offset d) c) in
                    (int (length bs), bs, s\<lparr>ofds := (ofds s)[k := d\<lparr>offset := offset d + length bs\<rparr>]\<rparr>))
          | _ \<Rightarrow> (- 1, [], s)))"

definition write_fd :: "fsys \<Rightarrow> int \<Rightarrow> string \<Rightarrow> int \<times> fsys" where
  "write_fd s fd bs =
     (case fd_of s fd of None \<Rightarrow> (- 1, s)
      | Some k \<Rightarrow> (let d = ofds s ! k in
          case files s (fname d) of
            Some (Reg c r w) \<Rightarrow>
              if \<not> writes (acc d) then (- 1, s)
              else (int (length bs),
                    s\<lparr>files := (files s)(fname d \<mapsto> Reg (take (offset d) (c @ replicate (offset d - length c) NUL)
                                   @ bs @ drop (offset d + length bs) c) r w),
                      ofds := (ofds s)[k := d\<lparr>offset := offset d + length bs\<rparr>]\<rparr>)
          | _ \<Rightarrow> (- 1, s)))"

definition close_fd :: "fsys \<Rightarrow> int \<Rightarrow> fsys" where
  "close_fd s fd = (if fd_of s fd = None then s else s\<lparr>fds := (fds s)(nat fd := None)\<rparr>)"

text \<open>\<^verbatim>\<open>F_DUPFD\<close>: the new descriptor shares the open file description, and with it the offset.\<close>

definition dup_fd :: "fsys \<Rightarrow> int \<Rightarrow> nat \<Rightarrow> int \<times> fsys" where
  "dup_fd s fd m =
     (case (fd_of s fd, lowest_fd s m) of
        (Some k, Some n) \<Rightarrow> (int n, s\<lparr>fds := (fds s)(n \<mapsto> k)\<rparr>)
      | _ \<Rightarrow> (- 1, s))"

text \<open>
  \<^verbatim>\<open>lseek\<close> with \<^verbatim>\<open>SEEK_CUR\<close> and \<^verbatim>\<open>SEEK_DATA\<close>, for files without holes: data are at every
  offset before the end.
\<close>

datatype whence = SEEK_CUR | SEEK_DATA

definition lseek :: "fsys \<Rightarrow> int \<Rightarrow> int \<Rightarrow> whence \<Rightarrow> int \<times> fsys" where
  "lseek s fd off wh =
     (case fd_of s fd of None \<Rightarrow> (- 1, s)
      | Some k \<Rightarrow> (let d = ofds s ! k;
                      size = (case files s (fname d) of Some (Reg c r w) \<Rightarrow> int (length c) | _ \<Rightarrow> 0);
                      new = (case wh of SEEK_CUR \<Rightarrow> int (offset d) + off
                             | SEEK_DATA \<Rightarrow> if off < size then off else - 1) in
          if new < 0 then (- 1, s)
          else (new, s\<lparr>ofds := (ofds s)[k := d\<lparr>offset := nat new\<rparr>]\<rparr>)))"

section \<open>posix\_cp\_example.c\<close>

text \<open>
  The copy loop. When \<^verbatim>\<open>read\<close> has failed, \<^verbatim>\<open>write\<close> is called with the count \<^verbatim>\<open>(size_t) -1\<close>, which
  is refused and writes nothing.
\<close>

partial_function (option) copy_loop :: "fsys \<Rightarrow> int \<Rightarrow> int \<Rightarrow> fsys cres option" where
  "copy_loop s fd_src fd_des =
     (let (num, buf, s) = read_fd s fd_src 128;
          s = (if num < 0 then s else snd (write_fd s fd_des buf)) in
      if num = 128 then copy_loop s fd_src fd_des else Some (Inr s))"

text \<open>The status of the process and the files it leaves.\<close>

definition cp_main :: "fsys \<Rightarrow> string list \<Rightarrow> (int \<times> fsys) cres" where
  "cp_main s argv =
     (if length argv \<noteq> 3 then Inr (1, s)
      else
        (let (fd_src, s) = open_file s (argv ! 1) \<lparr>o_access = O_RDONLY, o_creat = False, o_excl = False\<rparr> (False, False) in
         if fd_src = - 1 then Inr (1, s)
         else
           (let (fd_des, s) = open_file s (argv ! 2) \<lparr>o_access = O_WRONLY, o_creat = True, o_excl = True\<rparr> (True, True) in
            cbind (run_loop (copy_loop s fd_src fd_des)) (\<lambda>s.
            Inr (0, close_fd (close_fd s fd_src) fd_des)))))"

section \<open>posix\_open\_example.c\<close>

text \<open>
  The condition of the second test is \<^verbatim>\<open>(fd_open_create = open(...), 0644) == -1\<close>: the result is
  stored, and \<^verbatim>\<open>0644\<close> is compared with \<open>-1\<close>. No mode is passed to that \<^verbatim>\<open>open\<close>: \<open>g\<close> is what it
  finds instead. The descriptors printed are part of the result.
\<close>

definition open_main :: "fsys \<Rightarrow> bool \<times> bool \<Rightarrow> int \<times> int list \<times> fsys" where
  "open_main s g =
     (let (fd_open, s) = open_file s ''lorem.txt'' \<lparr>o_access = O_RDONLY, o_creat = False, o_excl = False\<rparr> (False, False) in
      if fd_open = - 1 then (1, [], s)
      else
        (let (fd_open_create, s) = open_file s ''./tmp1'' \<lparr>o_access = O_RDONLY, o_creat = True, o_excl = True\<rparr> g in
         if (420 :: int) = - 1 then (1, [fd_open], s)
         else
           (let (fd_create, s) = creat_file s ''./tmp2'' (True, True) in
            if fd_create = - 1 then (1, [fd_open, fd_open_create], s)
            else (0, [fd_open, fd_open_create, fd_create],
                  close_fd (close_fd (close_fd s fd_open) fd_create) fd_open_create))))"

section \<open>create\_no\_writefile.c\<close>

definition test_message :: string where
  "test_message = ''test message!'' @ [CHR 0x0A, NUL]"

definition no_write_main :: "fsys \<Rightarrow> string \<Rightarrow> int \<times> fsys" where
  "no_write_main s arg =
     (let (fd, s) = open_file s arg \<lparr>o_access = O_WRONLY, o_creat = True, o_excl = False\<rparr> (False, False);
          s = snd (write_fd s fd test_message) in
      (0, close_fd s fd))"

section \<open>fcntl\_dup\_fd.c\<close>

text \<open>The third argument of \<^verbatim>\<open>fcntl\<close> is missing: \<open>g\<close> is what the call finds instead.\<close>

definition hello_world :: string where
  "hello_world = ''hello world!'' @ [CHR 0x0A]"

definition dup_main :: "fsys \<Rightarrow> nat \<Rightarrow> int \<times> fsys" where
  "dup_main s g =
     (let (fd_creat, s) = creat_file s ''tmp3'' (True, True) in
      if fd_creat = - 1 then (1, s)
      else
        (let s = close_fd s fd_creat;
             (fd_open, s) = open_file s ''tmp3'' \<lparr>o_access = O_WRONLY, o_creat = True, o_excl = False\<rparr> (True, True) in
         if fd_open = - 1 then (1, s)
         else
           (let (fd_dup, s) = dup_fd s fd_open g;
                s = snd (write_fd s fd_open hello_world);
                s = snd (write_fd s fd_dup hello_world) in
            (0, close_fd (close_fd s fd_open) fd_dup))))"

section \<open>lseek.c\<close>

text \<open>The results of the seven \<^verbatim>\<open>lseek\<close> and of the \<^verbatim>\<open>read\<close>, as they are printed.\<close>

fun lseeks :: "fsys \<Rightarrow> int \<Rightarrow> (int \<times> whence) list \<Rightarrow> int list \<times> fsys" where
  "lseeks s fd [] = ([], s)"
| "lseeks s fd ((off, wh) # ops) =
     (let (r, s) = lseek s fd off wh; (rs, s) = lseeks s fd ops in (r # rs, s))"

definition lseek_main :: "fsys \<Rightarrow> string list \<Rightarrow> int \<times> int list" where
  "lseek_main s argv =
     (if length argv < 2 then (1, [])
      else
        (let (fd, s) = open_file s (argv ! 1) \<lparr>o_access = O_RDONLY, o_creat = False, o_excl = False\<rparr> (False, False) in
         if fd < 0 then (1, [])
         else
           (let (rs, s) = lseeks s fd [(10, SEEK_CUR), (10, SEEK_CUR), (10, SEEK_CUR), (- 50, SEEK_CUR),
                                      (1000000, SEEK_DATA), (100, SEEK_DATA), (0, SEEK_DATA)];
                (nr, buf, s) = read_fd s fd 20 in
            (0, rs @ [nr]))))"

section \<open>fcntl\_example.c\<close>

text \<open>
  What is printed for the status flags \<open>val\<close> of a descriptor (Linux: \<^verbatim>\<open>O_ACCMODE\<close> is 3,
  \<^verbatim>\<open>O_APPEND\<close> is \<open>0x400\<close>, \<^verbatim>\<open>O_NONBLOCK\<close> is \<open>0x800\<close>); \<open>val < 0\<close> is a failure of \<^verbatim>\<open>fcntl\<close>.
\<close>

definition fcntl_flags :: "int \<Rightarrow> string" where
  "fcntl_flags val =
     (let accmode = val mod 4 in
      (if accmode = 0 then ''read only'' @ [CHR 0x0A]
       else if accmode = 1 then ''write only'' @ [CHR 0x0A]
       else if accmode = 2 then ''read write'' @ [CHR 0x0A]
       else ''unknown mode'' @ [CHR 0x0A])
      @ (if val div 1024 mod 2 = 1 then '', append'' else [])
      @ (if val div 2048 mod 2 = 1 then '', nonblocking'' else []))"

definition fcntl_main :: "(int \<Rightarrow> int) \<Rightarrow> string list \<Rightarrow> (int \<times> string) cres" where
  "fcntl_main getfl argv =
     (if length argv \<noteq> 2 then Inr (1, ''the argc must be equal to 2'')
      else cbind (atoi (argv ! 1)) (\<lambda>fd.
        let val = getfl fd in
        if val < 0 then Inr (1, []) else Inr (0, fcntl_flags val)))"

section \<open>Descriptors\<close>

lemma lowest_fd_free: "lowest_fd s m = Some n \<Longrightarrow> fds s n = None \<and> m \<le> n \<and> n < 1024"
  by (auto simp: lowest_fd_def find_Some_iff)

lemma lowest_fd_None: "lowest_fd s m = None \<longleftrightarrow> (\<forall>n. m \<le> n \<longrightarrow> n < 1024 \<longrightarrow> fds s n \<noteq> None)"
  by (auto simp: lowest_fd_def find_None_iff)

text \<open>Every descriptor refers to an open file description.\<close>

definition fs_wf :: "fsys \<Rightarrow> bool" where
  "fs_wf s \<longleftrightarrow> (\<forall>n k. fds s n = Some k \<longrightarrow> k < length (ofds s))"

definition two_free :: "fsys \<Rightarrow> bool" where
  "two_free s \<longleftrightarrow> (\<exists>m n. m \<noteq> n \<and> m < 1024 \<and> n < 1024 \<and> fds s m = None \<and> fds s n = None)"

lemma two_free_first: "two_free s \<Longrightarrow> \<exists>n. lowest_fd s 0 = Some n"
  using lowest_fd_None [of s 0] by (auto simp: two_free_def)

lemma two_free_second:
  assumes "two_free s" and "fds t = (fds s)(a \<mapsto> k)"
  shows "\<exists>n. lowest_fd t 0 = Some n"
proof -
  from assms(1) obtain m n where mn: "m \<noteq> n" "m < 1024" "n < 1024" "fds s m = None" "fds s n = None"
    by (auto simp: two_free_def)
  then have "\<exists>j < 1024. fds t j = None" unfolding assms(2) by (metis fun_upd_other)
  then show ?thesis using lowest_fd_None [of t 0] by auto
qed

text \<open>The descriptor \<open>fd\<close> refers to the file \<open>name\<close> at offset \<open>off\<close>.\<close>

definition at :: "fsys \<Rightarrow> int \<Rightarrow> nat \<Rightarrow> string \<Rightarrow> nat \<Rightarrow> access \<Rightarrow> bool" where
  "at s fd k name off a \<longleftrightarrow> fd_of s fd = Some k \<and> k < length (ofds s)
     \<and> ofds s ! k = \<lparr>fname = name, offset = off, acc = a\<rparr>"

lemma new_fd_at:
  assumes "lowest_fd s 0 = Some n"
  shows "new_fd s name a = (int n, s\<lparr>ofds := ofds s @ [\<lparr>fname = name, offset = 0, acc = a\<rparr>],
           fds := (fds s)(n \<mapsto> length (ofds s))\<rparr>)"
    and "at (snd (new_fd s name a)) (int n) (length (ofds s)) name 0 a"
  using assms by (simp_all add: new_fd_def at_def fd_of_def)

lemma read_at:
  assumes "at s fd k name off a" and "files s name = Some (Reg c r w)" and "reads a"
  shows "read_fd s fd n = (int (length (take n (drop off c))), take n (drop off c),
     s\<lparr>ofds := (ofds s)[k := \<lparr>fname = name, offset = off + length (take n (drop off c)), acc = a\<rparr>]\<rparr>)"
  using assms by (simp add: read_fd_def at_def Let_def)

lemma write_at:
  assumes "at s fd k name off a" and "files s name = Some (Reg c r w)" and "writes a" and "length c = off"
  shows "write_fd s fd bs = (int (length bs), s\<lparr>files := (files s)(name \<mapsto> Reg (c @ bs) r w),
      ofds := (ofds s)[k := \<lparr>fname = name, offset = off + length bs, acc = a\<rparr>]\<rparr>)"
  using assms by (simp add: write_fd_def at_def Let_def)

lemma at_other:
  assumes "at s fd k name off a" and "fds t = fds s" and "ofds t = (ofds s)[j := d]" and "j \<noteq> k"
  shows "at t fd k name off a"
  using assms by (auto simp: at_def fd_of_def)

lemma at_same:
  assumes "at s fd k name off a" and "fds t = fds s" and "ofds t = (ofds s)[k := \<lparr>fname = name, offset = off', acc = a\<rparr>]"
  shows "at t fd k name off' a"
  using assms by (auto simp: at_def fd_of_def)

section \<open>The copy loop\<close>

lemma copy_loop_copies:
  assumes "at s a ka src off O_RDONLY" and "files s src = Some (Reg c r w)"
    and "at s b kb des off O_WRONLY" and "files s des = Some (Reg (take off c) r' w')"
    and "ka \<noteq> kb" and "src \<noteq> des" and "off \<le> length c"
  shows "\<exists>t. copy_loop s a b = Some (Inr t) \<and> files t = (files s)(des \<mapsto> Reg c r' w') \<and> fds t = fds s"
  using assms
proof (induction "length c - off" arbitrary: s off rule: less_induct)
  case less
  define bs where "bs = take 128 (drop off c)"
  define s1 where "s1 = s\<lparr>ofds := (ofds s)[ka := \<lparr>fname = src, offset = off + length bs, acc = O_RDONLY\<rparr>]\<rparr>"
  define s2 where "s2 = s1\<lparr>files := (files s1)(des \<mapsto> Reg (take off c @ bs) r' w'),
      ofds := (ofds s1)[kb := \<lparr>fname = des, offset = off + length bs, acc = O_WRONLY\<rparr>]\<rparr>"
  have rd: "read_fd s a 128 = (int (length bs), bs, s1)"
    unfolding s1_def bs_def by (rule read_at [OF less.prems(1,2)]) (simp add: reads_def)
  have at1: "at s1 a ka src (off + length bs) O_RDONLY" "at s1 b kb des off O_WRONLY"
    using less.prems(1,3,5) by (auto simp: s1_def intro: at_same at_other)
  have "files s1 des = Some (Reg (take off c) r' w')" using less.prems(4) by (simp add: s1_def)
  then have wr: "write_fd s1 b bs = (int (length bs), s2)"
    unfolding s2_def using less.prems(7) by (intro write_at [OF at1(2)]) (simp_all add: writes_def)
  have at2: "at s2 a ka src (off + length bs) O_RDONLY" "at s2 b kb des (off + length bs) O_WRONLY"
    using at1 less.prems(5) by (auto simp: s2_def intro: at_same at_other)
  have step: "copy_loop s a b = (if length bs = 128 then copy_loop s2 a b else Some (Inr s2))"
    by (subst copy_loop.simps) (simp add: rd wr)
  have app: "take off c @ bs = take (off + length bs) c"
    unfolding bs_def by (cases "128 \<le> length c - off") (simp_all add: take_add min_def)
  have f2: "files s2 src = Some (Reg c r w)" "files s2 des = Some (Reg (take (off + length bs) c) r' w')"
    "(files s2)(des \<mapsto> Reg c r' w') = (files s)(des \<mapsto> Reg c r' w')" "fds s2 = fds s"
    using less.prems(2,6) app by (auto simp: s2_def s1_def)
  show ?case
  proof (cases "length bs = 128")
    case True
    then have "off + length bs \<le> length c" "length c - (off + length bs) < length c - off"
      by (auto simp: bs_def)
    with less.hyps [OF _ at2(1) f2(1) at2(2) f2(2) less.prems(5,6)] True step f2(3,4) show ?thesis by simp
  next
    case False
    then have "take (off + length bs) c = c" using less.prems(7) by (auto simp: bs_def)
    with False step f2 show ?thesis by (auto simp: s2_def s1_def app)
  qed
qed

lemma copy_loop_nowhere:
  assumes "at s a ka src off O_RDONLY" and "files s src = Some (Reg c r w)" and "off \<le> length c"
  shows "\<exists>t. copy_loop s a (- 1) = Some (Inr t) \<and> files t = files s \<and> fds t = fds s"
  using assms
proof (induction "length c - off" arbitrary: s off rule: less_induct)
  case less
  define bs where "bs = take 128 (drop off c)"
  define s1 where "s1 = s\<lparr>ofds := (ofds s)[ka := \<lparr>fname = src, offset = off + length bs, acc = O_RDONLY\<rparr>]\<rparr>"
  have rd: "read_fd s a 128 = (int (length bs), bs, s1)"
    unfolding s1_def bs_def by (rule read_at [OF less.prems(1,2)]) (simp add: reads_def)
  have at1: "at s1 a ka src (off + length bs) O_RDONLY"
    using less.prems(1) by (auto simp: s1_def intro: at_same)
  have wr: "write_fd s1 (- 1) bs = (- 1, s1)" by (simp add: write_fd_def fd_of_def)
  have step: "copy_loop s a (- 1) = (if length bs = 128 then copy_loop s1 a (- 1) else Some (Inr s1))"
    by (subst copy_loop.simps) (simp add: rd wr)
  have f1: "files s1 = files s" "fds s1 = fds s" by (simp_all add: s1_def)
  show ?case
  proof (cases "length bs = 128")
    case True
    then have "off + length bs \<le> length c" "length c - (off + length bs) < length c - off"
      by (auto simp: bs_def)
    with less.hyps [OF _ at1] less.prems(2) True step f1 show ?thesis by simp
  next
    case False
    with step f1 show ?thesis by simp
  qed
qed

section \<open>Properties\<close>

lemma open_read:
  assumes "lowest_fd s 0 = Some n" and "files s name = Some (Reg c True w)"
  shows "open_file s name \<lparr>o_access = O_RDONLY, o_creat = False, o_excl = False\<rparr> g = new_fd s name O_RDONLY"
  using assms by (simp add: open_file_def writes_def)

lemma open_excl:
  assumes "lowest_fd s 0 = Some n"
  shows "open_file s name \<lparr>o_access = a, o_creat = True, o_excl = True\<rparr> g =
     (if files s name = None then new_fd (s\<lparr>files := (files s)(name \<mapsto> Reg [] (fst g) (snd g))\<rparr>) name a else (- 1, s))"
  using assms by (auto simp: open_file_def split: option.splits inode.splits)

lemma lowest_fd_files: "lowest_fd (s\<lparr>files := f\<rparr>) m = lowest_fd s m"
  by (simp add: lowest_fd_def)

lemma close_restores:
  assumes "fds s n = None" and "fds t = (fds s)(n \<mapsto> k)"
  shows "fds (close_fd t (int n)) = fds s" and "files (close_fd t (int n)) = files t"
  using assms by (auto simp: close_fd_def fd_of_def)

text \<open>
  C10: the program \<^verbatim>\<open>posix_cp_example.c\<close>. For a readable source file it always ends with status 0.
  If the target does not exist, the target is created with exactly the content of the
  source, for every length; if the target exists, nothing is copied and the status does not
  tell. No other file is changed.
\<close>

theorem posix_cp_result:
  assumes "files s src = Some (Reg c True w)" and "two_free s"
  shows "\<exists>t. cp_main s [p, src, des] = Inr (0, t)
     \<and> files t = (if files s des = None then (files s)(des \<mapsto> Reg c True True) else files s)"
proof -
  from two_free_first [OF assms(2)] obtain n where n: "lowest_fd s 0 = Some n" by blast
  define s1 where "s1 = snd (new_fd s src O_RDONLY)"
  have s1: "open_file s src \<lparr>o_access = O_RDONLY, o_creat = False, o_excl = False\<rparr> (False, False) = (int n, s1)"
    "at s1 (int n) (length (ofds s)) src 0 O_RDONLY" "files s1 = files s" "fds s1 = (fds s)(n \<mapsto> length (ofds s))"
    "length (ofds s1) = Suc (length (ofds s))"
    using open_read [OF n assms(1)] new_fd_at [OF n] by (simp_all add: s1_def)
  from two_free_second [OF assms(2) s1(4)] obtain m where m: "lowest_fd s1 0 = Some m" by blast
  show ?thesis
  proof (cases "files s des = None")
    case False
    with s1(3) open_excl [OF m] have "open_file s1 des \<lparr>o_access = O_WRONLY, o_creat = True, o_excl = True\<rparr> (True, True) = (- 1, s1)"
      by auto
    moreover from copy_loop_nowhere [OF s1(2)] s1(3) assms(1) obtain t where
      "copy_loop s1 (int n) (- 1) = Some (Inr t)" "files t = files s1" by auto
    ultimately show ?thesis using s1(1,3) False
      by (auto simp: cp_main_def numeral_2_eq_2 close_fd_def fd_of_def)
  next
    case True
    define s2 where "s2 = snd (new_fd (s1\<lparr>files := (files s1)(des \<mapsto> Reg [] True True)\<rparr>) des O_WRONLY)"
    have m': "lowest_fd (s1\<lparr>files := (files s1)(des \<mapsto> Reg [] True True)\<rparr>) 0 = Some m"
      using m by (simp add: lowest_fd_files)
    have op: "open_file s1 des \<lparr>o_access = O_WRONLY, o_creat = True, o_excl = True\<rparr> (True, True) = (int m, s2)"
      using open_excl [OF m] True s1(3) new_fd_at(1) [OF m'] by (simp add: s2_def)
    have ne: "des \<noteq> src" "m \<noteq> n" using True assms(1) lowest_fd_free [OF m] s1(4) by auto
    have at2: "at s2 (int m) (Suc (length (ofds s))) des 0 O_WRONLY"
      using new_fd_at(2) [OF m'] s1(5) by (simp add: s2_def)
    have f2: "files s2 = (files s)(des \<mapsto> Reg [] True True)" using new_fd_at(1) [OF m'] s1(3) by (simp add: s2_def)
    have src2: "at s2 (int n) (length (ofds s)) src 0 O_RDONLY"
      using s1(2) new_fd_at(1) [OF m'] ne(2) by (auto simp: at_def fd_of_def s2_def nth_append)
    have c2: "files s2 src = Some (Reg c True w)" "files s2 des = Some (Reg (take 0 c) True True)"
      using f2 ne(1) assms(1) by simp_all
    from copy_loop_copies [OF src2 c2(1) at2 c2(2) _ ne(1) [symmetric]] obtain t where
      t: "copy_loop s2 (int n) (int m) = Some (Inr t)" "files t = (files s2)(des \<mapsto> Reg c True True)" by auto
    then show ?thesis using s1(1) op f2 True
      by (simp add: cp_main_def numeral_2_eq_2 close_fd_def fd_of_def)
  qed
qed

text \<open>A process with some files and no descriptor in use.\<close>

definition demo_fs :: "(string \<rightharpoonup> inode) \<Rightarrow> fsys" where
  "demo_fs f = \<lparr>files = f, ofds = [], fds = Map.empty\<rparr>"

lemma demo_two_free: "two_free (demo_fs f)"
  unfolding two_free_def demo_fs_def by (rule exI [of _ 0], rule exI [of _ 1]) simp

theorem posix_cp_result_witness:
  "\<exists>t. cp_main (demo_fs [''a'' \<mapsto> Reg ''text'' True True]) [''cp'', ''a'', ''b''] = Inr (0, t)
     \<and> files t ''b'' = Some (Reg ''text'' True True)"
proof -
  let ?s = "demo_fs [''a'' \<mapsto> Reg ''text'' True True]"
  have "files ?s ''a'' = Some (Reg ''text'' True True)" by (simp add: demo_fs_def)
  from posix_cp_result [OF this demo_two_free, of "''cp''" "''b''"] show ?thesis
    by (auto simp: demo_fs_def)
qed

text \<open>
  \<^verbatim>\<open>posix_open_example.c\<close> does not notice that its second \<^verbatim>\<open>open\<close> fails: when \<^verbatim>\<open>./tmp1\<close> exists,
  the program prints the descriptor \<open>-1\<close> for it and still ends with status 0.
\<close>

theorem open_example_ignores_failure:
  assumes "files s ''lorem.txt'' = Some (Reg c True w)" and "files s ''./tmp1'' \<noteq> None"
    and "files s ''./tmp2'' = None" and "two_free s"
  shows "\<exists>a b t. open_main s g = (0, [a, - 1, b], t) \<and> a \<noteq> - 1 \<and> b \<noteq> - 1"
proof -
  from two_free_first [OF assms(4)] obtain n where n: "lowest_fd s 0 = Some n" by blast
  define s1 where "s1 = snd (new_fd s ''lorem.txt'' O_RDONLY)"
  have s1: "open_file s ''lorem.txt'' \<lparr>o_access = O_RDONLY, o_creat = False, o_excl = False\<rparr> (False, False) = (int n, s1)"
    "files s1 = files s" "fds s1 = (fds s)(n \<mapsto> length (ofds s))"
    using open_read [OF n assms(1)] new_fd_at [OF n] by (simp_all add: s1_def)
  from two_free_second [OF assms(4) s1(3)] obtain m where m: "lowest_fd s1 0 = Some m" by blast
  have 2: "open_file s1 ''./tmp1'' \<lparr>o_access = O_RDONLY, o_creat = True, o_excl = True\<rparr> g = (- 1, s1)"
    using open_excl [OF m] assms(2) s1(2) by auto
  have 3: "fst (creat_file s1 ''./tmp2'' (True, True)) = int m"
    using m assms(3) s1(2) by (simp add: creat_file_def new_fd_def lowest_fd_files)
  obtain t where t: "creat_file s1 ''./tmp2'' (True, True) = (int m, t)"
    using 3 by (cases "creat_file s1 ''./tmp2'' (True, True)") simp
  show ?thesis by (simp add: open_main_def s1(1) 2 t)
qed

theorem open_example_ignores_failure_witness:
  "\<exists>a b t. open_main (demo_fs [''lorem.txt'' \<mapsto> Reg ''x'' True True, ''./tmp1'' \<mapsto> Dir]) (False, False) = (0, [a, - 1, b], t)
     \<and> a \<noteq> - 1 \<and> b \<noteq> - 1"
  by (rule open_example_ignores_failure [OF _ _ _ demo_two_free]) (simp_all add: demo_fs_def)

lemma lseek_at:
  assumes "at s fd k name off O_RDONLY" and "files s name = Some (Reg c r w)"
  shows "lseek s fd d SEEK_CUR = (if int off + d < 0 then (- 1, s)
      else (int off + d, s\<lparr>ofds := (ofds s)[k := \<lparr>fname = name, offset = nat (int off + d), acc = O_RDONLY\<rparr>]\<rparr>))"
    and "0 \<le> d \<Longrightarrow> lseek s fd d SEEK_DATA = (if d < int (length c)
      then (d, s\<lparr>ofds := (ofds s)[k := \<lparr>fname = name, offset = nat d, acc = O_RDONLY\<rparr>]\<rparr>) else (- 1, s))"
  using assms by (simp_all add: lseek_def at_def Let_def)

lemma at_seek: "at s fd k name off a \<Longrightarrow>
    at (s\<lparr>ofds := (ofds s)[k := \<lparr>fname = name, offset = off', acc = a\<rparr>]\<rparr>) fd k name off' a"
  by (erule at_same) simp_all

lemma seek_forward:
  assumes "at s fd k name off O_RDONLY" and "files s name = Some (Reg c r w)" and "0 \<le> d"
  shows "\<exists>t. lseek s fd d SEEK_CUR = (int off + d, t) \<and> at t fd k name (off + nat d) O_RDONLY \<and> files t = files s"
proof -
  have "nat (int off + d) = off + nat d" using assms(3) by simp
  with lseek_at(1) [OF assms(1,2), of d] assms(3) at_seek [OF assms(1)] show ?thesis by simp
qed

lemma seek_data:
  assumes "at s fd k name off O_RDONLY" and "files s name = Some (Reg c r w)" and "0 \<le> d"
  shows "\<exists>t. lseek s fd d SEEK_DATA = (if d < int (length c) then d else - 1, t)
    \<and> at t fd k name (if d < int (length c) then nat d else off) O_RDONLY \<and> files t = files s"
  using lseek_at(2) [OF assms] at_seek [OF assms(1)] assms(1) by simp

text \<open>
  What \<^verbatim>\<open>lseek.c\<close> prints for a readable file of \<open>L\<close> bytes (without holes): the offsets 10, 20
  and 30, whatever the length; \<open>-1\<close> for the step back by 50, which would leave the file; then
  the data offsets that lie before the end; and the number of bytes read, at most 20.
\<close>

theorem lseek_results:
  assumes "files s name = Some (Reg c True w)" and "two_free s"
  shows "lseek_main s [p, name] = (0, [10, 20, 30, - 1,
     (if 1000000 < int (length c) then 1000000 else - 1), (if 100 < int (length c) then 100 else - 1),
     (if 0 < length c then 0 else - 1), int (min 20 (length c))])"
proof -
  let ?L = "int (length c)"
  from two_free_first [OF assms(2)] obtain n where n: "lowest_fd s 0 = Some n" by blast
  define s1 where "s1 = snd (new_fd s name O_RDONLY)"
  let ?k = "length (ofds s)"
  have op: "open_file s name \<lparr>o_access = O_RDONLY, o_creat = False, o_excl = False\<rparr> (False, False) = (int n, s1)"
    and s1: "at s1 (int n) ?k name 0 O_RDONLY" "files s1 name = Some (Reg c True w)"
    using open_read [OF n assms(1)] new_fd_at [OF n] assms(1) by (simp_all add: s1_def)
  from seek_forward [OF s1, of 10] s1(2) obtain s2 where s2: "lseek s1 (int n) 10 SEEK_CUR = (10, s2)"
    "at s2 (int n) ?k name 10 O_RDONLY" "files s2 name = Some (Reg c True w)" by auto
  from seek_forward [OF s2(2,3), of 10] s2(3) obtain s3 where s3: "lseek s2 (int n) 10 SEEK_CUR = (20, s3)"
    "at s3 (int n) ?k name 20 O_RDONLY" "files s3 name = Some (Reg c True w)" by auto
  from seek_forward [OF s3(2,3), of 10] s3(3) obtain s4 where s4: "lseek s3 (int n) 10 SEEK_CUR = (30, s4)"
    "at s4 (int n) ?k name 30 O_RDONLY" "files s4 name = Some (Reg c True w)" by auto
  have s5: "lseek s4 (int n) (- 50) SEEK_CUR = (- 1, s4)" using lseek_at(1) [OF s4(2,3), of "- 50"] by simp
  from seek_data [OF s4(2,3), of 1000000] s4(3) obtain s6 off6 where
    s6: "lseek s4 (int n) 1000000 SEEK_DATA = (if 1000000 < ?L then 1000000 else - 1, s6)"
    "at s6 (int n) ?k name off6 O_RDONLY" "files s6 name = Some (Reg c True w)" by auto
  from seek_data [OF s6(2,3), of 100] s6(3) obtain s7 off7 where
    s7: "lseek s6 (int n) 100 SEEK_DATA = (if 100 < ?L then 100 else - 1, s7)"
    "at s7 (int n) ?k name off7 O_RDONLY" "files s7 name = Some (Reg c True w)" by auto
  from seek_data [OF s7(2,3), of 0] s7(3) obtain s8 off8 where
    s8: "lseek s7 (int n) 0 SEEK_DATA = (if 0 < length c then 0 else - 1, s8)"
    "at s8 (int n) ?k name off8 O_RDONLY" "files s8 name = Some (Reg c True w)" "0 < length c \<longrightarrow> off8 = 0" by auto
  have "length (take 20 (drop off8 c)) = min 20 (length c)" using s8(4) by (cases "0 < length c") simp_all
  then have rd: "fst (read_fd s8 (int n) 20) = int (min 20 (length c))"
    using read_at [OF s8(2,3)] by (simp add: reads_def)
  then obtain b u where "read_fd s8 (int n) 20 = (int (min 20 (length c)), b, u)"
    by (cases "read_fd s8 (int n) 20") simp
  then show ?thesis
    by (simp add: lseek_main_def op s2(1) s3(1) s4(1) s5 s6(1) s7(1) s8(1) del: of_nat_min)
qed

theorem lseek_results_witness:
  "lseek_main (demo_fs [''f'' \<mapsto> Reg ''abc'' True True]) [''lseek'', ''f''] = (0, [10, 20, 30, - 1, - 1, - 1, 0, 3])"
proof -
  have "files (demo_fs [''f'' \<mapsto> Reg ''abc'' True True]) ''f'' = Some (Reg ''abc'' True True)"
    by (simp add: demo_fs_def)
  from lseek_results [OF this demo_two_free] show ?thesis by simp
qed

end
