(* ===== verification/Posix_Properties.thy ===== *)
theory Posix_Properties
  imports Posix_Files
begin

text \<open>
  More about the programs of theory \<open>Posix_Files\<close>: the order of the access modes, what
  \<^verbatim>\<open>create_no_writefile.c\<close>, \<^verbatim>\<open>fcntl_dup_fd.c\<close> and \<^verbatim>\<open>fcntl_example.c\<close> do, and the program
  \<^verbatim>\<open>Linux/File/src/fmemopen.c\<close>.
\<close>

section \<open>Access modes\<close>

text \<open>A mode is below another if it allows less. What can be opened with a mode can be opened with any below.\<close>

instantiation access :: order
begin

definition less_eq_access :: "access \<Rightarrow> access \<Rightarrow> bool" where
  "a \<le> b \<longleftrightarrow> (reads a \<longrightarrow> reads b) \<and> (writes a \<longrightarrow> writes b)"

definition less_access :: "access \<Rightarrow> access \<Rightarrow> bool" where
  "a < b \<longleftrightarrow> a \<le> b \<and> \<not> b \<le> (a :: access)"

instance
proof
  fix a b c :: access
  show "a < b \<longleftrightarrow> a \<le> b \<and> \<not> b \<le> a" by (rule less_access_def)
  show "a \<le> a" by (simp add: less_eq_access_def)
  show "a \<le> b \<Longrightarrow> b \<le> c \<Longrightarrow> a \<le> c" by (auto simp: less_eq_access_def)
  show "a \<le> b \<Longrightarrow> b \<le> a \<Longrightarrow> a = b"
    by (cases a; cases b) (auto simp: less_eq_access_def reads_def writes_def)
qed

end

lemma access_top: "a \<le> O_RDWR"
  by (simp add: less_eq_access_def reads_def writes_def)

lemma new_fd_result: "fst (new_fd s name a) = fst (new_fd s name b)"
  by (simp add: new_fd_def split: option.splits)

lemma new_fd_files: "lowest_fd (s\<lparr>files := f\<rparr>) m = lowest_fd s m"
  by (simp add: lowest_fd_def)

lemma open_file_antimono:
  assumes "fst (open_file s name \<lparr>o_access = b, o_creat = c, o_excl = e\<rparr> perm) \<noteq> - 1" and "a \<le> b"
  shows "fst (open_file s name \<lparr>o_access = a, o_creat = c, o_excl = e\<rparr> perm)
       = fst (open_file s name \<lparr>o_access = b, o_creat = c, o_excl = e\<rparr> perm)"
  using assms new_fd_result [of s name a b]
  by (auto simp: open_file_def less_eq_access_def new_fd_def split: option.splits inode.splits if_splits)

section \<open>create\_no\_writefile.c\<close>

text \<open>
  The first run creates a file that nobody may open and writes the message, with its terminating
  null character, through the descriptor that creation returned; a second run finds the file
  unwritable, writes to descriptor \<open>-1\<close>, and reports success as well.
\<close>

lemma open_create_new:
  assumes "files s name = None" and "lowest_fd s 0 = Some n"
  shows "open_file s name \<lparr>o_access = a, o_creat = True, o_excl = False\<rparr> perm
    = new_fd (s\<lparr>files := (files s)(name \<mapsto> Reg [] (fst perm) (snd perm))\<rparr>) name a"
  using assms by (simp add: open_file_def)

lemma no_write_first_run:
  assumes "files s name = None" and "lowest_fd s 0 = Some n"
  shows "\<exists>t. no_write_main s name = (0, t) \<and> files t = (files s)(name \<mapsto> Reg test_message False False)"
proof -
  define s1 where "s1 = s\<lparr>files := (files s)(name \<mapsto> Reg [] False False)\<rparr>"
  have n1: "lowest_fd s1 0 = Some n" using assms(2) by (simp add: s1_def new_fd_files)
  define s2 where "s2 = snd (new_fd s1 name O_WRONLY)"
  have op: "open_file s name \<lparr>o_access = O_WRONLY, o_creat = True, o_excl = False\<rparr> (False, False) = (int n, s2)"
    using open_create_new [OF assms] new_fd_at(1) [OF n1] by (simp add: s1_def s2_def)
  have at2: "at s2 (int n) (length (ofds s1)) name 0 O_WRONLY"
    unfolding s2_def by (rule new_fd_at(2) [OF n1])
  have "files s2 name = Some (Reg [] False False)" using new_fd_at(1) [OF n1] by (simp add: s1_def s2_def)
  from write_at [OF at2 this] have "files (snd (write_fd s2 (int n) test_message)) = (files s2)(name \<mapsto> Reg test_message False False)"
    by (simp add: writes_def)
  moreover have "files s2 = (files s)(name \<mapsto> Reg [] False False)"
    using new_fd_at(1) [OF n1] by (simp add: s1_def s2_def)
  ultimately show ?thesis by (simp add: no_write_main_def op close_fd_def Let_def)
qed

lemma no_write_second_run:
  assumes "files s name = Some (Reg c False False)"
  shows "no_write_main s name = (0, s)"
proof -
  have "open_file s name \<lparr>o_access = O_WRONLY, o_creat = True, o_excl = False\<rparr> (False, False) = (- 1, s)"
    using assms by (simp add: open_file_def writes_def)
  then show ?thesis by (simp add: no_write_main_def write_fd_def close_fd_def fd_of_def)
qed

theorem no_write_runs:
  assumes "files s name = None" and "lowest_fd s 0 = Some n"
  shows "\<exists>t. no_write_main s name = (0, t) \<and> files t = (files s)(name \<mapsto> Reg test_message False False)
    \<and> no_write_main t name = (0, t)"
proof -
  from no_write_first_run [OF assms] obtain t where
    t: "no_write_main s name = (0, t)" "files t = (files s)(name \<mapsto> Reg test_message False False)" by blast
  then have "files t name = Some (Reg test_message False False)" by simp
  from no_write_second_run [OF this] t show ?thesis by blast
qed

section \<open>fcntl\_dup\_fd.c\<close>

lemma lowest_fd_exists:
  assumes "fds s m = None" and "g \<le> m" and "m < 1024"
  shows "\<exists>k. lowest_fd s g = Some k"
  using assms lowest_fd_None [of s g] by (cases "lowest_fd s g") auto

text \<open>
  The duplicate descriptor shares the offset of the original, so that the second write continues
  after the first instead of overwriting it. \<open>g\<close> is the value that \<^verbatim>\<open>fcntl\<close> finds in place of
  its missing third argument; it has to leave a descriptor free.
\<close>

theorem duplicate_shares_offset:
  assumes "files s ''tmp3'' = None" and "lowest_fd s 0 = Some n"
    and "fds s m = None" and "m \<noteq> n" and "g \<le> m" and "m < 1024"
  shows "\<exists>t. dup_main s g = (0, t) \<and> files t ''tmp3'' = Some (Reg (hello_world @ hello_world) True True)"
proof -
  let ?f = "''tmp3''"
  define s1 where "s1 = s\<lparr>files := (files s)(?f \<mapsto> Reg [] True True)\<rparr>"
  have n1: "lowest_fd s1 0 = Some n" using assms(2) by (simp add: s1_def new_fd_files)
  define s2 where "s2 = snd (new_fd s1 ?f O_WRONLY)"
  have cr: "creat_file s ?f (True, True) = (int n, s2)"
    using assms(1,2) new_fd_at(1) [OF n1] by (simp add: creat_file_def s1_def s2_def)
  define s3 where "s3 = close_fd s2 (int n)"
  have fn: "fds s n = None" using lowest_fd_free [OF assms(2)] by simp
  then have s3: "fds s3 = fds s" "files s3 = (files s)(?f \<mapsto> Reg [] True True)"
    using new_fd_at(1) [OF n1] by (auto simp: s3_def s2_def s1_def close_fd_def fd_of_def fun_eq_iff)
  then have n3: "lowest_fd s3 0 = Some n" using assms(2) by (simp add: lowest_fd_def)
  define s4 where "s4 = snd (new_fd s3 ?f O_WRONLY)"
  let ?k = "length (ofds s3)"
  have op: "open_file s3 ?f \<lparr>o_access = O_WRONLY, o_creat = True, o_excl = False\<rparr> (True, True) = (int n, s4)"
    using n3 s3(2) new_fd_at(1) [OF n3] by (simp add: open_file_def writes_def reads_def s4_def)
  have at4: "at s4 (int n) ?k ?f 0 O_WRONLY" unfolding s4_def by (rule new_fd_at(2) [OF n3])
  have f4: "files s4 ?f = Some (Reg [] True True)" "fds s4 = (fds s)(n \<mapsto> ?k)"
    using new_fd_at(1) [OF n3] s3 by (simp_all add: s4_def)
  have "fds s4 m = None" using f4(2) assms(3,4) by simp
  from lowest_fd_exists [OF this assms(5,6)] obtain k where k: "lowest_fd s4 g = Some k" by blast
  then have "fds s4 k = None" using lowest_fd_free by blast
  then have kn: "k \<noteq> n" using f4(2) by auto
  define s5 where "s5 = s4\<lparr>fds := (fds s4)(k \<mapsto> ?k)\<rparr>"
  have du: "dup_fd s4 (int n) g = (int k, s5)"
    using at4 k by (simp add: dup_fd_def at_def s5_def)
  have at5: "at s5 (int n) ?k ?f 0 O_WRONLY" "at s5 (int k) ?k ?f 0 O_WRONLY"
    using at4 kn by (simp_all add: s5_def at_def fd_of_def)
  have f5: "files s5 ?f = Some (Reg [] True True)" using f4(1) by (simp add: s5_def)
  define s6 where "s6 = snd (write_fd s5 (int n) hello_world)"
  have w6: "s6 = s5\<lparr>files := (files s5)(?f \<mapsto> Reg hello_world True True),
      ofds := (ofds s5)[?k := \<lparr>fname = ?f, offset = length hello_world, acc = O_WRONLY\<rparr>]\<rparr>"
    unfolding s6_def by (simp add: write_at [OF at5(1) f5] writes_def)
  have at6: "at s6 (int k) ?k ?f (length hello_world) O_WRONLY"
    using at5(2) unfolding w6 by (rule at_same) simp_all
  have f6: "files s6 ?f = Some (Reg hello_world True True)" by (simp add: w6)
  have "files (snd (write_fd s6 (int k) hello_world)) ?f = Some (Reg (hello_world @ hello_world) True True)"
    by (simp add: write_at [OF at6 f6] writes_def)
  then show ?thesis
    by (simp add: dup_main_def cr s3_def [symmetric] op du s6_def [symmetric]) (simp add: close_fd_def)
qed

theorem duplicate_shares_offset_witness:
  "\<exists>t. dup_main (demo_fs Map.empty) 7 = (0, t) \<and> files t ''tmp3'' = Some (Reg (hello_world @ hello_world) True True)"
proof -
  have "lowest_fd (demo_fs Map.empty) 0 = Some 0"
    using upt_rec [of 0 1024] by (simp add: lowest_fd_def demo_fs_def)
  from duplicate_shares_offset [OF _ this, of 7 7] show ?thesis by (simp add: demo_fs_def)
qed

section \<open>fcntl\_example.c\<close>

text \<open>The status flags that \<^verbatim>\<open>open\<close> sets are printed back: the mode, then \<^verbatim>\<open>O_APPEND\<close> and \<^verbatim>\<open>O_NONBLOCK\<close>.\<close>

definition status_flags :: "access \<Rightarrow> bool \<Rightarrow> bool \<Rightarrow> int" where
  "status_flags a ap nb =
     (case a of O_RDONLY \<Rightarrow> 0 | O_WRONLY \<Rightarrow> 1 | O_RDWR \<Rightarrow> 2) + 1024 * of_bool ap + 2048 * of_bool nb"

lemma fcntl_prints_flags:
  "fcntl_flags (status_flags a ap nb) =
     (case a of O_RDONLY \<Rightarrow> ''read only'' | O_WRONLY \<Rightarrow> ''write only'' | O_RDWR \<Rightarrow> ''read write'') @ [CHR 0x0A]
     @ (if ap then '', append'' else []) @ (if nb then '', nonblocking'' else [])"
  by (cases a; cases ap; cases nb) (simp_all add: fcntl_flags_def status_flags_def)

section \<open>fmemopen.c\<close>

text \<open>
  The string literal, its size in bytes, and what is printed: the size, the descriptor of the
  stream (a stream in memory has none, and \<^verbatim>\<open>fileno\<close> returns \<open>-1\<close>) and the results of two \<^verbatim>\<open>lseek\<close>.
  \<open>opened\<close> tells whether \<^verbatim>\<open>fmemopen\<close> succeeds.
\<close>

definition mem_stream :: string where
  "mem_stream = ''Hello, this is a memory stream!'' @ replicate 8 NUL @ [CHR 0x0A] @ replicate 24 NUL @ [CHR 0x0A]
     @ ''Also, it is a sparse file with holes.'' @ [CHR 0x0A] @ replicate 12 NUL
     @ ''Just check for the follwing'' @ [CHR 0x0A] @ ''test''"

definition stream_len :: nat where "stream_len = 148"

definition fmemopen_main :: "fsys \<Rightarrow> bool \<Rightarrow> int \<times> int list" where
  "fmemopen_main s opened =
     (if \<not> opened then (1, [int stream_len])
      else
        (let fd = - 1;
             (off1, s) = lseek s fd 10 SEEK_CUR;
             (off2, s) = lseek s fd 10 SEEK_CUR in
         (0, [int stream_len, fd, off1, off2])))"

text \<open>
  The size given to \<^verbatim>\<open>fmemopen\<close> is that of the literal with its terminator, so the stream stays inside
  it; no \<^verbatim>\<open>lseek\<close> succeeds.
\<close>

theorem fmemopen_results:
  "stream_len = length mem_stream + 1 \<and> fmemopen_main s True = (0, [148, - 1, - 1, - 1])"
proof
  show "stream_len = length mem_stream + 1" by (simp add: stream_len_def mem_stream_def)
  show "fmemopen_main s True = (0, [148, - 1, - 1, - 1])"
    by (simp add: fmemopen_main_def stream_len_def lseek_def fd_of_def Let_def)
qed

end
