(* ===== verification/Signal_Timer.thy ===== *)
theory Signal_Timer
  imports C_Prelude
begin

text \<open>
  \<^verbatim>\<open>Linux/Signals/signal_timer_example.c\<close>: three interval timers, their signal handlers and the
  loop that polls the timers until each of the three signals has arrived. Which signals arrive
  during an iteration of the loop, and the results of \<^verbatim>\<open>setitimer\<close> and \<^verbatim>\<open>getitimer\<close>, are inputs.
\<close>

datatype sig = SIGALRM | SIGVTALRM | SIGPROF

datatype timer = ITIMER_REAL | ITIMER_VIRTUAL | ITIMER_PROF

text \<open>Seconds and microseconds of the interval and of the remaining time; a timer is stopped at 0.\<close>

record itimerval =
  it_interval :: "int \<times> int"
  it_value :: "int \<times> int"

record tstate =
  loop_is_done :: int
  receive_sigalrm :: int
  receive_sigvtalrm :: int
  receive_sigprof :: int
  timers :: "timer \<Rightarrow> itimerval"
  handlers :: "sig \<Rightarrow> bool"

definition stopped :: itimerval where
  "stopped = \<lparr>it_interval = (0, 0), it_value = (0, 0)\<rparr>"

definition setitimer :: "timer \<Rightarrow> itimerval \<Rightarrow> tstate \<Rightarrow> tstate" where
  "setitimer w v st = st\<lparr>timers := (timers st)(w := v)\<rparr>"

definition check_received_signal :: "tstate \<Rightarrow> tstate" where
  "check_received_signal st =
     (if receive_sigalrm st \<noteq> 0 \<and> receive_sigvtalrm st \<noteq> 0 \<and> receive_sigprof st \<noteq> 0
      then st\<lparr>loop_is_done := 1\<rparr> else st)"

definition handle_sigalrm :: "tstate \<Rightarrow> tstate" where
  "handle_sigalrm st = check_received_signal ((setitimer ITIMER_REAL stopped st)\<lparr>receive_sigalrm := 1\<rparr>)"

definition handle_sigvtalrm :: "tstate \<Rightarrow> tstate" where
  "handle_sigvtalrm st = check_received_signal ((setitimer ITIMER_VIRTUAL stopped st)\<lparr>receive_sigvtalrm := 1\<rparr>)"

definition handle_sigprof :: "tstate \<Rightarrow> tstate" where
  "handle_sigprof st = check_received_signal ((setitimer ITIMER_PROF stopped st)\<lparr>receive_sigprof := 1\<rparr>)"

definition setup_signal_handler :: "tstate \<Rightarrow> tstate" where
  "setup_signal_handler st = st\<lparr>handlers := (\<lambda>s. True)\<rparr>"

text \<open>A signal without a handler ends the process.\<close>

definition deliver :: "sig \<Rightarrow> tstate \<Rightarrow> tstate cres" where
  "deliver s st =
     (if \<not> handlers st s then Inl (ExitProcess 1)
      else Inr (case s of SIGALRM \<Rightarrow> handle_sigalrm st | SIGVTALRM \<Rightarrow> handle_sigvtalrm st
                | SIGPROF \<Rightarrow> handle_sigprof st))"

fun deliver_all :: "sig list \<Rightarrow> tstate \<Rightarrow> tstate cres" where
  "deliver_all [] st = Inr st"
| "deliver_all (s # ss) st = cbind (deliver s st) (deliver_all ss)"

text \<open>A refused \<^verbatim>\<open>setitimer\<close> (the flag of the timer) is only logged, or not even that.\<close>

definition SET_TIMER :: "(timer \<Rightarrow> bool) \<Rightarrow> timer \<Rightarrow> itimerval \<Rightarrow> tstate \<Rightarrow> tstate" where
  "SET_TIMER ok w v st = (if ok w then setitimer w v st else st)"

definition setup_timer :: "(timer \<Rightarrow> bool) \<Rightarrow> tstate \<Rightarrow> tstate" where
  "setup_timer ok st =
     (let real = \<lparr>it_interval = (5, 0), it_value = (5, 0)\<rparr>;
          st = SET_TIMER ok ITIMER_REAL real st;
          virtual = \<lparr>it_interval = (2, 0), it_value = (2, 0)\<rparr>;
          st = (if ok ITIMER_VIRTUAL then setitimer ITIMER_VIRTUAL virtual st else st);
          prof = \<lparr>it_interval = (1, 0), it_value = (1, 0)\<rparr> in
      if ok ITIMER_PROF then setitimer ITIMER_PROF prof st else st)"

text \<open>\<^verbatim>\<open>GET_TIMER\<close>: a timer that cannot be read ends the loop, otherwise \<open>k\<close> follows.\<close>

definition GET_TIMER :: "bool \<Rightarrow> tstate \<Rightarrow> (bool \<times> tstate) cres \<Rightarrow> (bool \<times> tstate) cres" where
  "GET_TIMER ok st k = (if \<not> ok then Inr (True, st) else k)"

text \<open>
  The loop of \<^verbatim>\<open>main\<close>. An iteration is given by the results of the three \<^verbatim>\<open>getitimer\<close> and the
  signals that arrive during it; the first component of the result says whether the loop was
  left within the given iterations.
\<close>

type_synonym iteration = "(bool \<times> bool \<times> bool) \<times> sig list"

fun poll_loop :: "iteration list \<Rightarrow> tstate \<Rightarrow> (bool \<times> tstate) cres" where
  "poll_loop [] st = Inr (loop_is_done st \<noteq> 0, st)"
| "poll_loop (((g1, g2, g3), ss) # its) st =
     (if loop_is_done st \<noteq> 0 then Inr (True, st)
      else GET_TIMER g1 st (GET_TIMER g2 st (GET_TIMER g3 st (cbind (deliver_all ss st) (poll_loop its)))))"

definition timer_start :: tstate where
  "timer_start = \<lparr>loop_is_done = 0, receive_sigalrm = 0, receive_sigvtalrm = 0, receive_sigprof = 0,
     timers = (\<lambda>w. stopped), handlers = (\<lambda>s. False)\<rparr>"

definition timer_main :: "(timer \<Rightarrow> bool) \<Rightarrow> iteration list \<Rightarrow> (bool \<times> tstate) cres" where
  "timer_main ok its = poll_loop its (setup_timer ok (setup_signal_handler timer_start))"

section \<open>The handlers\<close>

definition timer_of :: "sig \<Rightarrow> timer" where
  "timer_of s = (case s of SIGALRM \<Rightarrow> ITIMER_REAL | SIGVTALRM \<Rightarrow> ITIMER_VIRTUAL | SIGPROF \<Rightarrow> ITIMER_PROF)"

text \<open>The state after the signals of the set \<open>S\<close>, in any order and number.\<close>

definition received :: "sig set \<Rightarrow> (timer \<Rightarrow> itimerval) \<Rightarrow> tstate \<Rightarrow> bool" where
  "received S T st \<longleftrightarrow>
     (receive_sigalrm st = of_bool (SIGALRM \<in> S)) \<and> (receive_sigvtalrm st = of_bool (SIGVTALRM \<in> S))
   \<and> (receive_sigprof st = of_bool (SIGPROF \<in> S))
   \<and> (loop_is_done st = of_bool (SIGALRM \<in> S \<and> SIGVTALRM \<in> S \<and> SIGPROF \<in> S))
   \<and> (\<forall>s. handlers st s) \<and> timers st = (\<lambda>w. if w \<in> timer_of ` S then stopped else T w)"

lemmas handler_defs = handle_sigalrm_def handle_sigvtalrm_def handle_sigprof_def check_received_signal_def
  setitimer_def

lemma deliver_timers:
  assumes "handlers st s"
  shows "\<exists>t. deliver s st = Inr t \<and> timers t = (timers st)(timer_of s := stopped) \<and> handlers t = handlers st"
  using assms by (cases s) (auto simp: deliver_def handler_defs timer_of_def)

lemma deliver_received:
  assumes "received S T st"
  shows "\<exists>t. deliver s st = Inr t \<and> received (insert s S) T t"
proof -
  have h: "handlers st s" using assms by (simp add: received_def)
  from deliver_timers [OF h] obtain t where t: "deliver s st = Inr t"
    "timers t = (timers st)(timer_of s := stopped)" "handlers t = handlers st" by blast
  have "timers t = (\<lambda>w. if w \<in> timer_of ` insert s S then stopped else T w)"
    using t(2) assms by (auto simp: received_def)
  moreover have "receive_sigalrm t = of_bool (SIGALRM \<in> insert s S)"
    "receive_sigvtalrm t = of_bool (SIGVTALRM \<in> insert s S)" "receive_sigprof t = of_bool (SIGPROF \<in> insert s S)"
    "loop_is_done t = of_bool (SIGALRM \<in> insert s S \<and> SIGVTALRM \<in> insert s S \<and> SIGPROF \<in> insert s S)"
    using t(1) h assms by (cases s; auto simp: received_def deliver_def handler_defs split: if_splits)+
  ultimately show ?thesis using t(1,3) assms by (auto simp: received_def)
qed

lemma deliver_all_received:
  "received S T st \<Longrightarrow> \<exists>t. deliver_all ss st = Inr t \<and> received (S \<union> set ss) T t"
proof (induction ss arbitrary: S st)
  case (Cons s ss)
  from deliver_received [OF Cons.prems] obtain t where "deliver s st = Inr t" "received (insert s S) T t" by blast
  with Cons.IH [of "insert s S" t] show ?case by simp
qed simp

lemma sig_UNIV: "S = UNIV \<longleftrightarrow> SIGALRM \<in> S \<and> SIGVTALRM \<in> S \<and> SIGPROF \<in> S"
proof
  assume "SIGALRM \<in> S \<and> SIGVTALRM \<in> S \<and> SIGPROF \<in> S"
  then show "S = UNIV" using sig.exhaust by (metis UNIV_eq_I)
qed simp

lemma poll_loop_received:
  assumes "received S T st" and "list_all (\<lambda>it. fst it = (True, True, True)) its"
  shows "\<exists>t k. poll_loop its st = Inr (S \<union> set (concat (map snd its)) = UNIV, t) \<and> k \<le> length its
     \<and> received (S \<union> set (concat (map snd (take k its)))) T t
     \<and> (S \<union> set (concat (map snd its)) = UNIV \<longrightarrow> S \<union> set (concat (map snd (take k its))) = UNIV)"
  using assms
proof (induction its arbitrary: S st)
  case Nil
  then show ?case by (auto simp: received_def sig_UNIV)
next
  case (Cons it its)
  obtain ss where it: "it = ((True, True, True), ss)" using Cons.prems(2) by (cases it) auto
  show ?case
  proof (cases "S = UNIV")
    case True
    with Cons.prems(1) have "loop_is_done st \<noteq> 0" by (simp add: received_def)
    with True Cons.prems(1) it show ?thesis by (intro exI [of _ st] exI [of _ 0]) simp
  next
    case False
    then have nd: "loop_is_done st = 0" using Cons.prems(1) by (auto simp: received_def sig_UNIV)
    from deliver_all_received [OF Cons.prems(1), of ss] obtain t where
      t: "deliver_all ss st = Inr t" "received (S \<union> set ss) T t" by blast
    from Cons.IH [OF t(2)] Cons.prems(2) obtain u k where
      "poll_loop its t = Inr (S \<union> set ss \<union> set (concat (map snd its)) = UNIV, u)" "k \<le> length its"
      "received (S \<union> set ss \<union> set (concat (map snd (take k its)))) T u"
      "S \<union> set ss \<union> set (concat (map snd its)) = UNIV \<longrightarrow> S \<union> set ss \<union> set (concat (map snd (take k its))) = UNIV"
      by auto
    with nd t(1) it show ?thesis by (intro exI [of _ u] exI [of _ "Suc k"]) (simp add: Un_assoc GET_TIMER_def)
  qed
qed

section \<open>Properties\<close>

definition armed :: "timer \<Rightarrow> itimerval" where
  "armed w = (let n = (case w of ITIMER_REAL \<Rightarrow> 5 | ITIMER_VIRTUAL \<Rightarrow> 2 | ITIMER_PROF \<Rightarrow> 1)
     in \<lparr>it_interval = (n, 0), it_value = (n, 0)\<rparr>)"

lemma setup_received: "received {} armed (setup_timer (\<lambda>w. True) (setup_signal_handler timer_start))"
proof -
  have "(stopped_timers(ITIMER_REAL := a, ITIMER_VIRTUAL := b, ITIMER_PROF := c)) =
      (\<lambda>w. case w of ITIMER_REAL \<Rightarrow> a | ITIMER_VIRTUAL \<Rightarrow> b | ITIMER_PROF \<Rightarrow> c)" for stopped_timers :: "timer \<Rightarrow> itimerval" and a b c
    by (auto split: timer.splits)
  then show ?thesis
    by (auto simp: received_def setup_timer_def SET_TIMER_def setup_signal_handler_def timer_start_def setitimer_def armed_def
        split: timer.splits)
qed

text \<open>
  C31: the loop of the signal example is left if and only if each of the three signals has arrived,
  in any order and any number of times, provided that the timers can be read; no signal
  kills the process, and then exactly the timers whose signals have been handled are stopped:
  all of them when the loop has been left.
\<close>

theorem poll_loop_ends_iff_all_signals:
  assumes "list_all (\<lambda>it. fst it = (True, True, True)) its"
  shows "\<exists>t S. timer_main (\<lambda>w. True) its = Inr (set (concat (map snd its)) = UNIV, t)
     \<and> S \<subseteq> set (concat (map snd its)) \<and> (set (concat (map snd its)) = UNIV \<longrightarrow> S = UNIV)
     \<and> timers t = (\<lambda>w. if w \<in> timer_of ` S then stopped else armed w)"
proof -
  from poll_loop_received [OF setup_received assms] obtain t k where
    t: "timer_main (\<lambda>w. True) its = Inr (set (concat (map snd its)) = UNIV, t)"
    "received (set (concat (map snd (take k its)))) armed t"
    "set (concat (map snd its)) = UNIV \<longrightarrow> set (concat (map snd (take k its))) = UNIV"
    unfolding timer_main_def Un_empty_left by blast
  have "set (concat (map snd (take k its))) \<subseteq> set (concat (map snd its))" by (auto dest: in_set_takeD)
  with t show ?thesis unfolding received_def by blast
qed

theorem poll_loop_ends_iff_all_signals_witness:
  "\<exists>t. timer_main (\<lambda>w. True) [((True, True, True), [SIGPROF, SIGPROF]), ((True, True, True), [SIGALRM, SIGVTALRM])]
     = Inr (True, t) \<and> timers t ITIMER_REAL = stopped"
proof -
  have u: "set [SIGPROF, SIGPROF, SIGALRM, SIGVTALRM] = UNIV" by (simp add: sig_UNIV)
  have "ITIMER_REAL \<in> timer_of ` UNIV" by (metis rangeI timer_of_def sig.simps(7))
  with poll_loop_ends_iff_all_signals
    [of "[((True, True, True), [SIGPROF, SIGPROF]), ((True, True, True), [SIGALRM, SIGVTALRM])]"] u
  show ?thesis by auto
qed

end
