(* ===== verification/Pointer_Examples.thy ===== *)
theory Pointer_Examples
  imports C_Prelude
begin

text \<open>
  The small programs about pointers in \<^verbatim>\<open>Pointers/\<close>, \<^verbatim>\<open>Miscs/\<close>, \<^verbatim>\<open>Valgrind/\<close> and \<^verbatim>\<open>GDB/\<close>, over a
  memory of blocks: objects with automatic storage and allocated ones. Only the printed
  integers are kept of the output.
\<close>

section \<open>Memory\<close>

text \<open>A cell is an integer, a pointer (\<open>None\<close> is \<^verbatim>\<open>NULL\<close>) or uninitialised.\<close>

type_synonym ptr = "(nat \<times> int) option"

datatype cell = CInt int | CPtr ptr | CUndef

datatype storage = Automatic | Allocated

record block =
  storage :: storage
  live :: bool
  cells :: "cell list"

type_synonym mem = "block list"

definition new_block :: "storage \<Rightarrow> cell list \<Rightarrow> mem \<Rightarrow> ptr \<times> mem" where
  "new_block st cs m = (Some (length m, 0), m @ [\<lparr>storage = st, live = True, cells = cs\<rparr>])"

text \<open>\<^verbatim>\<open>malloc\<close> of \<open>n\<close> cells; \<open>ok\<close> is the answer of the allocator.\<close>

definition malloc :: "bool \<Rightarrow> nat \<Rightarrow> mem \<Rightarrow> ptr \<times> mem" where
  "malloc ok n m = (if ok then new_block Allocated (replicate n CUndef) m else (None, m))"

definition locate :: "mem \<Rightarrow> ptr \<Rightarrow> (nat \<times> nat) cres" where
  "locate m p =
     (case p of None \<Rightarrow> Inl NullDeref
      | Some (b, i) \<Rightarrow>
          if \<not> b < length m then Inl OutOfBounds
          else if \<not> live (m ! b) then Inl UseAfterFree
          else if i < 0 \<or> \<not> nat i < length (cells (m ! b)) then Inl OutOfBounds
          else Inr (b, nat i))"

definition load :: "mem \<Rightarrow> ptr \<Rightarrow> cell cres" where
  "load m p = cbind (locate m p) (\<lambda>(b, i). Inr (cells (m ! b) ! i))"

definition store :: "mem \<Rightarrow> ptr \<Rightarrow> cell \<Rightarrow> mem cres" where
  "store m p c = cbind (locate m p) (\<lambda>(b, i). Inr (m[b := (m ! b)\<lparr>cells := (cells (m ! b))[i := c]\<rparr>]))"

definition load_int :: "mem \<Rightarrow> ptr \<Rightarrow> int cres" where
  "load_int m p = cbind (load m p) (\<lambda>c. case c of CInt n \<Rightarrow> Inr n | _ \<Rightarrow> Inl Uninitialised)"

definition load_ptr :: "mem \<Rightarrow> ptr \<Rightarrow> ptr cres" where
  "load_ptr m p = cbind (load m p) (\<lambda>c. case c of CPtr q \<Rightarrow> Inr q | _ \<Rightarrow> Inl Uninitialised)"

text \<open>\<^verbatim>\<open>free\<close> is defined for \<^verbatim>\<open>NULL\<close> and the start of a live allocated block.\<close>

definition free :: "mem \<Rightarrow> ptr \<Rightarrow> mem cres" where
  "free m p =
     (case p of None \<Rightarrow> Inr m
      | Some (b, i) \<Rightarrow>
          if b < length m \<and> i = 0 \<and> live (m ! b) \<and> storage (m ! b) = Allocated
          then Inr (m[b := (m ! b)\<lparr>live := False\<rparr>]) else Inl InvalidFree)"

definition ptr_add :: "ptr \<Rightarrow> int \<Rightarrow> ptr" where
  "ptr_add p k = map_option (\<lambda>(b, i). (b, i + k)) p"

section \<open>Pointers/free\_pointer.c and Miscs/free.c\<close>

definition free_pointer_correctly :: "mem \<Rightarrow> ptr \<Rightarrow> mem cres" where
  "free_pointer_correctly m ptr =
     cbind (load_ptr m ptr) (\<lambda>tmp_ptr. cbind (free m tmp_ptr) (\<lambda>m. store m ptr (CPtr None)))"

text \<open>The result is the address left in \<^verbatim>\<open>ptr\<close>.\<close>

definition free_pointer_main :: "ptr cres" where
  "free_pointer_main =
     (let (value, m) = new_block Automatic [CInt 5] [];
          (p, m) = new_block Automatic [CPtr value] m in
      cbind (free_pointer_correctly m p) (\<lambda>m. load_ptr m p))"

definition free_main :: "bool \<Rightarrow> int list cres" where
  "free_main ok =
     (let (num, m) = new_block Automatic [CInt 8] [];
          (heap_ptr, m) = malloc ok 1 m;
          ptr = num in
      cbind (load_int m num) (\<lambda>a.
      cbind (load_int m ptr) (\<lambda>b.
      cbind (free m ptr) (\<lambda>m.
      cbind (load_int m num) (\<lambda>c. Inr [a, b, c])))))"

section \<open>Pointers/double\_pointer\_ops.c\<close>

definition try_assign_double_pointer :: "mem \<Rightarrow> ptr \<Rightarrow> ptr \<Rightarrow> mem cres" where
  "try_assign_double_pointer m single_ptr double_ptr = store m double_ptr (CPtr single_ptr)"

text \<open>The value printed for \<^verbatim>\<open>**double_ptr\<close>, if it is, and the memory at the end.\<close>

definition double_pointer_main :: "bool \<Rightarrow> (int option \<times> mem) cres" where
  "double_pointer_main ok =
     (let (single_ptr, m) = new_block Automatic [CInt 5] [];
          (double_ptr, m) = malloc ok 1 m in
      cbind (try_assign_double_pointer m single_ptr double_ptr) (\<lambda>m.
      cbind (load_ptr m double_ptr) (\<lambda>p.
      cbind (if p = None then Inr None else cbind (load_int m p) (\<lambda>n. Inr (Some n))) (\<lambda>r.
      cbind (free m double_ptr) (\<lambda>m. Inr (r, m))))))"

section \<open>Miscs/func\_arg\_ptr.c\<close>

definition bar :: "mem \<Rightarrow> ptr \<Rightarrow> ptr \<Rightarrow> mem cres" where
  "bar m ptr foo = cbind (store m ptr (CInt 3)) (\<lambda>m. store m foo (CInt 5))"

definition func_arg_main :: "bool \<Rightarrow> int list cres" where
  "func_arg_main ok =
     (let (foo_t, m) = malloc ok 1 [] in
      cbind (store m foo_t (CInt 6)) (\<lambda>m.
      let (num, m) = new_block Automatic [CInt 8] m; ptr = num in
      cbind (load_int m num) (\<lambda>a. cbind (load_int m ptr) (\<lambda>b. cbind (load_int m foo_t) (\<lambda>c.
      cbind (bar m ptr foo_t) (\<lambda>m.
      cbind (load_int m num) (\<lambda>d. cbind (load_int m ptr) (\<lambda>e. cbind (load_int m foo_t) (\<lambda>f.
      Inr [a, b, c, d, e, f])))))))))"

section \<open>Valgrind/no\_init\_test.c, Valgrind/oob\_test.c, GDB/bug.c\<close>

definition no_init_main :: "string cres" where
  "no_init_main =
     (let (x, m) = new_block Automatic [CUndef] [] in
      cbind (load_int m x) (\<lambda>n. Inr (if n = 0 then ''x is zero'' else ''x is not zero'')))"

fun advance_ptr :: "nat \<Rightarrow> ptr \<Rightarrow> ptr" where
  "advance_ptr 0 p = p"
| "advance_ptr (Suc k) p = advance_ptr k (ptr_add p 1)"

definition oob_main :: "bool \<Rightarrow> int cres" where
  "oob_main ok =
     (let len = 5; (ptr, m) = malloc ok len []; p = advance_ptr len ptr in
      cbind (store m p (CInt 5)) (\<lambda>m. load_int m p))"

text \<open>\<^verbatim>\<open>gets\<close> stores the line and a terminator through an uninitialised pointer.\<close>

fun store_line :: "mem \<Rightarrow> ptr \<Rightarrow> int list \<Rightarrow> mem cres" where
  "store_line m p [] = store m p (CInt 0)"
| "store_line m p (c # cs) = cbind (store m p (CInt c)) (\<lambda>m. store_line m (ptr_add p 1) cs)"

definition bug_main :: "int list \<Rightarrow> mem cres" where
  "bug_main input =
     (let (string, m) = new_block Automatic [CUndef] [] in
      cbind (load_ptr m string) (\<lambda>p. store_line m p input))"

section \<open>Pointers/copy\_data\_to\_pointer\_position.c\<close>

record cbuf =
  cdata :: "byte list"
  cptr :: int
  capacity :: int
  csize :: int

text \<open>The loop: the integers printed, read back from the position just written.\<close>

fun copy_ints :: "int list \<Rightarrow> cbuf \<Rightarrow> (int list \<times> cbuf) cres" where
  "copy_ints [] b = Inr ([], b)"
| "copy_ints (i # is) b =
     cbind (poke (cdata b) (cptr b) (int_bytes i)) (\<lambda>d.
     let b = b\<lparr>cdata := d\<rparr> in
     cbind (peek (cdata b) (cptr b) 4) (\<lambda>bs.
     cbind (copy_ints is (b\<lparr>cptr := cptr b + 4\<rparr>)) (\<lambda>(rs, b). Inr (bytes_int bs # rs, b))))"

text \<open>The status, what is printed, and the buffer; \<open>g\<close> is the content of allocated memory.\<close>

definition copy_main :: "bool \<Rightarrow> bool \<Rightarrow> (nat \<Rightarrow> byte) \<Rightarrow> (int \<times> int list \<times> cbuf option) cres" where
  "copy_main ok1 ok2 g =
     (if \<not> ok1 then Inr (1, [], None)
      else if \<not> ok2 then Inr (1, [], None)
      else cbind (copy_ints [0..9] \<lparr>cdata = map g [0..<40], cptr = 0, capacity = 40, csize = 0\<rparr>)
             (\<lambda>(rs, b). Inr (0, rs, Some b)))"

section \<open>Miscs/size\_t\_op.c\<close>

text \<open>The two numbers printed: \<open>-1\<close> as a \<^verbatim>\<open>size_t\<close>, and \<open>10 - 100\<close> in \<^verbatim>\<open>size_t\<close>.\<close>

definition size_t_main :: "nat list" where
  "size_t_main = [to_size_t (- 1), to_size_t (10 - 100)]"

section \<open>Lemmas and properties\<close>

text \<open>\<^verbatim>\<open>size_t\<close> wraps around: the difference is never negative.\<close>

lemma size_t_main_prints: "size_t_main = [2 ^ 64 - 1, 2 ^ 64 - 90]"
  by (simp add: size_t_main_def to_size_t_def)


lemmas mem_defs = new_block_def malloc_def locate_def load_def store_def load_int_def load_ptr_def free_def ptr_add_def

lemma copy_ints_result:
  assumes "length (cdata b) = 4 * (n + length is)" and "cptr b = 4 * int n" and "list_all in_int is"
  shows "\<exists>b'. copy_ints is b = Inr (is, b')
     \<and> cdata b' = take (4 * n) (cdata b) @ concat (map int_bytes is) \<and> cptr b' = 4 * int (n + length is)"
  using assms
proof (induction "is" arbitrary: b n)
  case Nil
  then show ?case by simp
next
  case (Cons i "is")
  let ?d = "take (4 * n) (cdata b) @ int_bytes i @ drop (4 * n + 4) (cdata b)"
  let ?b = "b\<lparr>cdata := ?d, cptr := cptr b + 4\<rparr>"
  have n: "nat (4 * int n) = 4 * n" by simp
  have p: "poke (cdata b) (cptr b) (int_bytes i) = Inr ?d"
    using Cons.prems(1,2) by (simp add: poke_def n)
  then have "peek ?d (cptr b) 4 = Inr (int_bytes i)" using peek_poke [OF p] by simp
  moreover have "bytes_int (int_bytes i) = i" using Cons.prems(3) by simp
  moreover have "length (cdata ?b) = 4 * (Suc n + length is)" "cptr ?b = 4 * int (Suc n)"
    using Cons.prems(1,2) by simp_all
  moreover from Cons.IH [OF this] Cons.prems(3) obtain b' where "copy_ints is ?b = Inr (is, b')"
    "cdata b' = take (4 * Suc n) ?d @ concat (map int_bytes is)" "cptr b' = 4 * int (Suc n + length is)" by auto
  moreover have "take (4 * Suc n) ?d = take (4 * n) (cdata b) @ int_bytes i"
    using Cons.prems(1) by simp
  ultimately show ?case using p by simp
qed

text \<open>
  The copy program stores the ten integers side by side. When its allocations succeed it
  prints 0, ..., 9, and the buffer then holds exactly their representations, with the pointer
  at its end and no access outside the 40 bytes, whatever the memory contained before.
\<close>

theorem copy_program_result:
  "\<exists>b. copy_main True True g = Inr (0, [0..9], Some b) \<and> cdata b = concat (map int_bytes [0..9]) \<and> cptr b = 40"
proof -
  let ?b = "\<lparr>cdata = map g [0..<40], cptr = 0, capacity = 40, csize = 0\<rparr>"
  have "length (cdata ?b) = 4 * (0 + length [0..9])" "cptr ?b = 4 * int 0" "list_all in_int [0..9]"
    by (simp_all add: list_all_iff int_range_defs)
  from copy_ints_result [OF this] show ?thesis by (auto simp: copy_main_def)
qed

text \<open>
  The programs that demonstrate pointer errors. Freeing the address of a local variable
  is an invalid free in both programs that do it (also in the one whose function is called
  \<^verbatim>\<open>free_pointer_correctly\<close>); the loop over five elements leaves the pointer one past the end, so
  that the store is out of bounds; the uninitialised variable and the uninitialised pointer are
  read before they are written, for every input; and without memory the two programs that
  do not check \<^verbatim>\<open>malloc\<close> dereference a null pointer.
\<close>

theorem pointer_errors:
  "free_pointer_main = Inl InvalidFree \<and> free_main ok = Inl InvalidFree \<and> oob_main True = Inl OutOfBounds
   \<and> no_init_main = Inl Uninitialised \<and> bug_main input = Inl Uninitialised
   \<and> double_pointer_main False = Inl NullDeref \<and> func_arg_main False = Inl NullDeref
   \<and> func_arg_main True = Inr [8, 8, 6, 3, 3, 5] \<and> (\<exists>m. double_pointer_main True = Inr (Some 5, m))"
proof (intro conjI)
  show "free_pointer_main = Inl InvalidFree"
    by (simp add: free_pointer_main_def free_pointer_correctly_def mem_defs)
  show "free_main ok = Inl InvalidFree" by (simp add: free_main_def mem_defs)
  show "oob_main True = Inl OutOfBounds"
    by (simp add: oob_main_def mem_defs numeral_eq_Suc)
  show "no_init_main = Inl Uninitialised" by (simp add: no_init_main_def mem_defs)
  show "bug_main input = Inl Uninitialised" by (simp add: bug_main_def mem_defs)
  show "double_pointer_main False = Inl NullDeref" "\<exists>m. double_pointer_main True = Inr (Some 5, m)"
    by (simp_all add: double_pointer_main_def try_assign_double_pointer_def mem_defs)
  show "func_arg_main False = Inl NullDeref" "func_arg_main True = Inr [8, 8, 6, 3, 3, 5]"
    by (simp_all add: func_arg_main_def bar_def mem_defs)
qed

end
