(* ===== verification/C_Getopt.thy ===== *)
theory C_Getopt
  imports C_Stdio
begin

text \<open>
  \<^verbatim>\<open>getopt_long\<close> of the C library as the programs call it: it is called until it returns
  \<open>-1\<close>, so that a command line gives a list of results. A result is the option character and
  \<^verbatim>\<open>optarg\<close>. A word that is no option is passed over, the word \<^verbatim>\<open>--\<close> ends the options, and
  \<^verbatim>\<open>'?'\<close> reports an unknown option or a missing argument.

  A long name is looked up in an array that the library expects to end with an entry of
  zeros (\<open>None\<close> in the model). An exact match ends the search at once. Otherwise the search goes on
  to the entry of zeros, and then looks for entries that the name abbreviates; in an array
  without such an entry it leaves the array, which is the result \<open>Inl OutOfBounds\<close> at this place
  of the list.
\<close>

section \<open>Results of the calls\<close>

datatype arg_kind = no_argument | required_argument | optional_argument

type_synonym opt_result = "char \<times> string option"
type_synonym long_option = "string \<times> arg_kind \<times> char"
type_synonym long_array = "long_option option list"

text \<open>The option string: a character, then one colon (argument) or two (optional argument).\<close>

fun short_kind :: "string \<Rightarrow> char \<Rightarrow> arg_kind option" where
  "short_kind [] c = None"
| "short_kind (x # xs) c =
     (if x = c \<and> c \<noteq> CHR '':'' \<and> c \<noteq> CHR '';'' then
        Some (if take 2 xs = ''::'' then optional_argument
              else if take 1 xs = '':'' then required_argument else no_argument)
      else short_kind xs c)"

text \<open>An argument that is the next word of the command line, if there is one.\<close>

definition next_word :: "char \<Rightarrow> string list \<Rightarrow> opt_result \<times> string list" where
  "next_word c ws = (case ws of [] \<Rightarrow> ((CHR ''?'', None), []) | w # ws' \<Rightarrow> ((c, Some w), ws'))"

text \<open>The options in the word \<^verbatim>\<open>-cs\<close>, and the words left.\<close>

fun short_word :: "string \<Rightarrow> string \<Rightarrow> string list \<Rightarrow> opt_result list \<times> string list" where
  "short_word os [] ws = ([], ws)"
| "short_word os (c # cs) ws =
     (case short_kind os c of
        None \<Rightarrow> (let (r, ws') = short_word os cs ws in ((CHR ''?'', None) # r, ws'))
      | Some no_argument \<Rightarrow> (let (r, ws') = short_word os cs ws in ((c, None) # r, ws'))
      | Some optional_argument \<Rightarrow> ([(c, if cs = [] then None else Some cs)], ws)
      | Some required_argument \<Rightarrow>
          if cs \<noteq> [] then ([(c, Some cs)], ws)
          else (let (r, ws') = next_word c ws in ([r], ws')))"

text \<open>The word \<^verbatim>\<open>--name\<close> or \<^verbatim>\<open>--name=value\<close>.\<close>

definition long_name :: "string \<Rightarrow> string" where
  "long_name b = takeWhile (\<lambda>c. c \<noteq> CHR ''='') b"

definition long_value :: "string \<Rightarrow> string option" where
  "long_value b = (if CHR ''='' \<in> set b then Some (drop (Suc (length (long_name b))) b) else None)"

fun exact_match :: "long_array \<Rightarrow> string \<Rightarrow> (arg_kind \<times> char) option cres" where
  "exact_match [] n = Inl OutOfBounds"
| "exact_match (None # es) n = Inr None"
| "exact_match (Some (m, kc) # es) n = (if m = n then Inr (Some kc) else exact_match es n)"

text \<open>
  The entries before the entry of zeros that start with the name; several are only accepted if they stand for the
  same option.
\<close>

fun entries :: "long_array \<Rightarrow> long_option list" where
  "entries [] = []"
| "entries (None # es) = []"
| "entries (Some e # es) = e # entries es"

definition abbreviated :: "long_array \<Rightarrow> string \<Rightarrow> (arg_kind \<times> char) option" where
  "abbreviated es n =
     (case filter (\<lambda>(m, kc). take (length n) m = n) (entries es) of
        [] \<Rightarrow> None
      | (m, kc) # ms \<Rightarrow> if list_all (\<lambda>(m', kc'). kc' = kc) ms then Some kc else None)"

definition find_long :: "long_array \<Rightarrow> string \<Rightarrow> (arg_kind \<times> char) option cres" where
  "find_long lo n =
     cbind (exact_match lo n) (\<lambda>r. Inr (case r of Some kc \<Rightarrow> Some kc | None \<Rightarrow> abbreviated lo n))"

definition long_word :: "long_array \<Rightarrow> string \<Rightarrow> string list \<Rightarrow> (opt_result \<times> string list) cres" where
  "long_word lo b ws =
     cbind (find_long lo (long_name b)) (\<lambda>r.
       Inr (case r of
              None \<Rightarrow> ((CHR ''?'', None), ws)
            | Some (no_argument, c) \<Rightarrow> ((if long_value b = None then c else CHR ''?'', None), ws)
            | Some (optional_argument, c) \<Rightarrow> ((c, long_value b), ws)
            | Some (required_argument, c) \<Rightarrow>
                (case long_value b of Some a \<Rightarrow> ((c, Some a), ws) | None \<Rightarrow> next_word c ws)))"

lemma next_word_length: "next_word c ws = (r, ws') \<Longrightarrow> length ws' \<le> length ws"
  by (auto simp: next_word_def split: list.splits)

lemma short_word_length: "short_word os cs ws = (r, ws') \<Longrightarrow> length ws' \<le> length ws"
  by (induction cs arbitrary: r)
    (auto split: option.splits arg_kind.splits prod.splits if_splits dest: next_word_length)

text \<open>A word takes nothing or the next word, and what it returns is an option of the array or \<^verbatim>\<open>'?'\<close>.\<close>

lemma long_word_cases:
  assumes "long_word lo b ws = Inr (r, ws')"
  shows "ws' = ws \<or> (\<exists>c. next_word c ws = (r, ws'))"
    and "fst r = CHR ''?'' \<or> (\<exists>k. find_long lo (long_name b) = Inr (Some (k, fst r)))"
proof -
  from assms obtain q where q: "find_long lo (long_name b) = Inr q" by (auto simp: long_word_def cbind_eq_Inr_iff)
  have n: "fst (fst (next_word c ws)) = c \<or> fst (fst (next_word c ws)) = CHR ''?''" for c
    by (auto simp: next_word_def split: list.splits)
  show "ws' = ws \<or> (\<exists>c. next_word c ws = (r, ws'))"
    using assms q by (auto simp: long_word_def split: option.splits arg_kind.splits)
  show "fst r = CHR ''?'' \<or> (\<exists>k. find_long lo (long_name b) = Inr (Some (k, fst r)))"
    using assms q n by (auto simp: long_word_def split: option.splits arg_kind.splits if_splits) (metis fst_conv)+
qed

lemma long_word_length: "long_word lo b ws = Inr (r, ws') \<Longrightarrow> length ws' \<le> length ws"
  using long_word_cases(1) next_word_length by blast

function getopt_long :: "string \<Rightarrow> long_array \<Rightarrow> string list \<Rightarrow> opt_result cres list" where
  "getopt_long os lo [] = []"
| "getopt_long os lo (w # ws) =
     (if w = ''--'' then []
      else if take 2 w = ''--'' then
        (case long_word lo (drop 2 w) ws of Inl e \<Rightarrow> [Inl e]
         | Inr (r, ws') \<Rightarrow> Inr r # getopt_long os lo ws')
      else if take 1 w = ''-'' \<and> w \<noteq> ''-'' then
        (case short_word os (drop 1 w) ws of (r, ws') \<Rightarrow> map Inr r @ getopt_long os lo ws')
      else getopt_long os lo ws)"
  by pat_completeness auto
termination
  by (relation "measure (\<lambda>(os, lo, ws). length ws)")
    (auto simp: less_Suc_eq_le dest: short_word_length [OF sym] long_word_length)

text \<open>The loop of a program over the results; it ends the process or goes on.\<close>

fun option_loop :: "(opt_result \<Rightarrow> 's \<Rightarrow> 's cres) \<Rightarrow> opt_result cres list \<Rightarrow> 's \<Rightarrow> 's cres" where
  "option_loop f [] S = Inr S"
| "option_loop f (r # rs) S = cbind r (\<lambda>p. cbind (f p S) (option_loop f rs))"

section \<open>Lemmas\<close>

lemma option_loop_append:
  "option_loop f (rs @ qs) S = cbind (option_loop f rs S) (option_loop f qs)"
proof (induction rs arbitrary: S)
  case (Cons r rs)
  then have "option_loop f (rs @ qs) = (\<lambda>S. cbind (option_loop f rs S) (option_loop f qs))" by blast
  then show ?case by (cases r) (simp_all add: cbind_assoc)
qed simp

lemma long_name_simps [simp]:
  "CHR ''='' \<notin> set n \<Longrightarrow> long_name (n @ CHR ''='' # v) = n"
  "CHR ''='' \<notin> set n \<Longrightarrow> long_name n = n"
  unfolding long_name_def by (induction n) auto

lemma long_value_simps [simp]:
  "CHR ''='' \<notin> set n \<Longrightarrow> long_value (n @ CHR ''='' # v) = Some v"
  "CHR ''='' \<notin> set n \<Longrightarrow> long_value n = None"
  by (simp_all add: long_value_def)

text \<open>Words of the usual forms.\<close>

lemma find_long_exact: "exact_match lo n = Inr (Some kc) \<Longrightarrow> find_long lo n = Inr (Some kc)"
  by (simp add: find_long_def)

lemma getopt_long_eq:
  assumes "exact_match lo n = Inr (Some (k, c))" and "k \<noteq> no_argument" and "CHR ''='' \<notin> set n"
  shows "getopt_long os lo ((''--'' @ n @ ''='' @ v) # ws) = Inr (c, Some v) # getopt_long os lo ws"
  using assms find_long_exact [OF assms(1)] by (cases k) (simp_all add: long_word_def)

text \<open>A name that is not in an array without an end.\<close>

lemma exact_match_outside:
  "None \<notin> set lo \<Longrightarrow> n \<notin> fst ` the ` set lo \<Longrightarrow> exact_match lo n = Inl OutOfBounds"
  by (induction lo n rule: exact_match.induct) auto

lemma find_long_open: "None \<notin> set lo \<Longrightarrow> find_long lo n = exact_match lo n"
proof -
  assume "None \<notin> set lo"
  then have "exact_match lo n \<noteq> Inr None" by (induction lo n rule: exact_match.induct) auto
  then show ?thesis by (cases "exact_match lo n") (auto simp: find_long_def split: option.splits)
qed

lemma exact_match_ended: "exact_match (lo @ [None]) n \<noteq> Inl e"
  by (induction lo n rule: exact_match.induct) auto

lemma getopt_long_unknown:
  assumes "None \<notin> set lo" and "long_name b \<notin> fst ` the ` set lo" and "b \<noteq> []"
  shows "getopt_long os lo ((''--'' @ b) # ws) = [Inl OutOfBounds]"
  using exact_match_outside [OF assms(1,2)] assms(3) by (simp add: long_word_def find_long_def)

lemma getopt_long_ended:
  assumes "b \<noteq> []"
  shows "\<exists>r rs. getopt_long os (lo @ [None]) ((''--'' @ b) # ws) = Inr r # rs"
proof -
  obtain q where "exact_match (lo @ [None]) (long_name b) = Inr q"
    using exact_match_ended by (metis sum.exhaust)
  then obtain p where "long_word (lo @ [None]) b ws = Inr p" by (simp add: long_word_def find_long_def)
  then show ?thesis using assms by (simp split: prod.splits)
qed

lemma getopt_short_required:
  assumes "short_kind os c = Some required_argument" and "c \<noteq> CHR ''-''"
  shows "getopt_long os lo ([CHR ''-'', c] # v # ws) = Inr (c, Some v) # getopt_long os lo ws"
  using assms by (simp add: next_word_def)

lemma getopt_short_optional:
  assumes "short_kind os c = Some optional_argument" and "c \<noteq> CHR ''-''"
  shows "getopt_long os lo ((CHR ''-'' # c # v) # ws)
           = Inr (c, if v = [] then None else Some v) # getopt_long os lo ws"
  using assms by simp

lemma getopt_not_option:
  assumes "take 1 w \<noteq> ''-''"
  shows "getopt_long os lo (w # ws) = getopt_long os lo ws"
  using assms by (cases w) auto

lemma getopt_skip: "list_all (\<lambda>w. take 1 w \<noteq> ''-'') vs \<Longrightarrow> getopt_long os lo (vs @ ws) = getopt_long os lo ws"
  by (induction vs) (simp_all add: getopt_not_option del: getopt_long.simps(2))

text \<open>Two arrays that agree on the long names that occur give the same results.\<close>

lemma next_word_subset: "next_word c ws = (r, ws') \<Longrightarrow> set ws' \<subseteq> set ws"
  by (auto simp: next_word_def split: list.splits)

lemma short_word_subset: "short_word os cs ws = (r, ws') \<Longrightarrow> set ws' \<subseteq> set ws"
  by (induction cs arbitrary: r)
    (auto split: option.splits arg_kind.splits prod.splits if_splits dest: next_word_subset)

lemma long_word_subset: "long_word lo b ws = Inr (r, ws') \<Longrightarrow> set ws' \<subseteq> set ws"
  using long_word_cases(1) next_word_subset by blast

lemma long_word_cong:
  "find_long lo (long_name b) = find_long lo' (long_name b) \<Longrightarrow> long_word lo b ws = long_word lo' b ws"
  by (simp add: long_word_def)

lemma getopt_long_cong:
  assumes "\<And>w. w \<in> set ws \<Longrightarrow> take 2 w = ''--'' \<Longrightarrow>
      find_long lo (long_name (drop 2 w)) = find_long lo' (long_name (drop 2 w))"
  shows "getopt_long os lo ws = getopt_long os lo' ws"
  using assms
proof (induction os lo ws rule: getopt_long.induct)
  case (2 os lo w ws)
  consider "w = ''--''" | "w \<noteq> ''--''" "take 2 w = ''--''" | "take 2 w \<noteq> ''--''" "take 1 w = ''-'' \<and> w \<noteq> ''-''"
    | "take 2 w \<noteq> ''--''" "take 1 w \<noteq> ''-''" | "w = ''-''" by blast
  then show ?case
  proof cases
    case 2
    have eq: "long_word lo (drop 2 w) ws = long_word lo' (drop 2 w) ws"
      using "2.prems" 2 by (intro long_word_cong) simp
    show ?thesis
    proof (cases "long_word lo (drop 2 w) ws")
      case (Inr p)
      obtain r ws' where p: "p = (r, ws')" by (cases p)
      have "getopt_long os lo ws' = getopt_long os lo' ws'"
        using "2.IH"(1) [OF 2 Inr p [symmetric]] "2.prems" long_word_subset [of lo "drop 2 w" ws r ws'] Inr p by auto
      with 2 Inr eq p show ?thesis by simp
    qed (use 2 eq in simp)
  next
    case 3
    obtain r ws' where p: "short_word os (drop 1 w) ws = (r, ws')" by (cases "short_word os (drop 1 w) ws")
    have "w \<noteq> ''--''" using 3 by auto
    then have "getopt_long os lo ws' = getopt_long os lo' ws'"
      using "2.IH"(2) [OF _ 3 p [symmetric]] "2.prems" short_word_subset [OF p] by auto
    with 3 p show ?thesis by simp
  next
    case 4
    then have "w \<noteq> ''--''" by auto
    with 4 "2.IH"(3) "2.prems" show ?thesis by simp
  next
    case 5
    with "2.IH"(3) "2.prems" show ?thesis by simp
  qed simp
qed simp

text \<open>The option characters that the calls can return.\<close>

definition known_option :: "string \<Rightarrow> long_array \<Rightarrow> char \<Rightarrow> bool" where
  "known_option os lo c \<longleftrightarrow> c = CHR ''?'' \<or> short_kind os c \<noteq> None \<or> (\<exists>n k. Some (n, k, c) \<in> set lo)"

lemma find_long_entry: "find_long lo n = Inr (Some (k, c)) \<Longrightarrow> \<exists>m. Some (m, k, c) \<in> set lo"
proof -
  have e: "exact_match lo n = Inr (Some kc) \<Longrightarrow> \<exists>m. Some (m, kc) \<in> set lo" for kc
    by (induction lo n rule: exact_match.induct) (auto split: if_splits)
  have "e \<in> set (entries lo) \<Longrightarrow> Some e \<in> set lo" for e
    by (induction lo rule: entries.induct) auto
  moreover have "abbreviated lo n = Some kc \<Longrightarrow> \<exists>m. (m, kc) \<in> set (entries lo)" for kc
    by (auto simp: abbreviated_def filter_eq_Cons_iff split: list.splits if_splits)
  ultimately show "find_long lo n = Inr (Some (k, c)) \<Longrightarrow> \<exists>m. Some (m, k, c) \<in> set lo"
    using e by (fastforce simp: find_long_def cbind_eq_Inr_iff split: option.splits)
qed

lemma next_word_option: "next_word c ws = ((d, a), ws') \<Longrightarrow> d = c \<or> d = CHR ''?''"
  by (auto simp: next_word_def split: list.splits)

lemma short_word_options:
  "short_word os cs ws = (r, ws') \<Longrightarrow> (c, a) \<in> set r \<Longrightarrow> known_option os lo c"
proof (induction cs arbitrary: r)
  case (Cons x xs)
  show ?case
  proof (cases "short_kind os x")
    case None
    with Cons show ?thesis by (auto simp: known_option_def split: prod.splits)
  next
    case (Some k)
    with Cons show ?thesis
      by (cases k) (auto simp: known_option_def split: prod.splits if_splits dest!: next_word_option)
  qed
qed simp

lemma long_word_options: "long_word lo b ws = Inr ((c, a), ws') \<Longrightarrow> known_option os lo c"
  using long_word_cases(2) [of lo b ws "(c, a)" ws'] find_long_entry by (fastforce simp: known_option_def)

lemma getopt_long_options:
  "Inr (c, a) \<in> set (getopt_long os lo ws) \<Longrightarrow> known_option os lo c"
proof (induction os lo ws rule: getopt_long.induct)
  case (2 os lo w ws)
  then show ?case
    by (auto split: if_splits sum.splits prod.splits dest: long_word_options [where os = os] short_word_options [OF sym])
qed simp

text \<open>Two loops whose bodies agree up to a view of the state agree up to this view.\<close>

lemma option_loop_view:
  assumes "\<And>p S. Inr p \<in> set rs \<Longrightarrow> cbind (f p S) (\<lambda>T. Inr (v T)) = g p (v S)"
  shows "cbind (option_loop f rs S) (\<lambda>T. Inr (v T)) = option_loop g rs (v S)"
  using assms
proof (induction rs arbitrary: S)
  case (Cons r rs)
  show ?case
  proof (cases r)
    case (Inr p)
    have "cbind (cbind (f p S) (option_loop f rs)) (\<lambda>T. Inr (v T))
        = cbind (f p S) (\<lambda>T. option_loop g rs (v T))"
      using Cons by (simp add: cbind_assoc)
    also have "\<dots> = cbind (cbind (f p S) (\<lambda>T. Inr (v T))) (option_loop g rs)"
      by (simp add: cbind_assoc)
    also have "\<dots> = cbind (g p (v S)) (option_loop g rs)" using Cons.prems [of p S] Inr by simp
    finally show ?thesis using Inr by simp
  qed simp
qed simp

lemma option_loop_keeps:
  assumes "\<And>p S T. Inr p \<in> set rs \<Longrightarrow> f p S = Inr T \<Longrightarrow> P S \<Longrightarrow> P T"
    and "option_loop f rs S = Inr T" and "P S"
  shows "P T"
  using assms
proof (induction rs arbitrary: S)
  case (Cons r rs)
  from Cons.prems(2) obtain p U where p: "r = Inr p" "f p S = Inr U" "option_loop f rs U = Inr T"
    by (cases r) (auto simp: cbind_eq_Inr_iff)
  have "P U" using Cons.prems(1) [of p S U] Cons.prems(3) p by simp
  show ?case
  proof (rule Cons.IH [of U])
    show "P T'" if "Inr q \<in> set rs" "f q S' = Inr T'" "P S'" for q S' T'
      using that Cons.prems(1) [of q S' T'] by simp
  qed (use p(3) \<open>P U\<close> in simp_all)
qed simp

end
