(* ===== verification/Console.thy ===== *)
theory Console
  imports C_Getopt Producer_Consumer "HOL-Library.Sublist"
begin

text \<open>
  The programs of \<^verbatim>\<open>Console/\<close>: the command line template, from the words of the command line to
  the state of the logger, and the progress bar. \<^verbatim>\<open>Pthread/producer_consumer.c\<close> was made from the
  template; its command line is read with the same model of \<^verbatim>\<open>getopt_long\<close>, and the two parsers
  are compared.
\<close>

section \<open>console\_template.c\<close>

record config =
  conf_file :: "string option"
  conf_level :: int

text \<open>The array has no entry of zeros at its end.\<close>

definition console_long_options :: long_array where
  "console_long_options =
     [Some (''log-file'', required_argument, CHR ''L''),
      Some (''log-level'', optional_argument, CHR ''l''),
      Some (''display'', no_argument, CHR ''d''),
      Some (''help'', no_argument, CHR ''h'')]"

definition short_options :: string where "short_options = ''L:l::dh''"

definition default_config :: config where
  "default_config = \<lparr>conf_file = None, conf_level = LOG_LEVEL_ERROR\<rparr>"

text \<open>The \<^verbatim>\<open>switch\<close> on one option; \<^verbatim>\<open>'h'\<close>, \<^verbatim>\<open>'?'\<close> and the default end the process.\<close>

definition console_option :: "opt_result \<Rightarrow> config \<Rightarrow> config cres" where
  "console_option p S =
     (let (opt, optarg) = p in
      if opt = CHR ''L'' then cbind (deref optarg) (\<lambda>a. Inr (S\<lparr>conf_file := Some a\<rparr>))
      else if opt = CHR ''l'' then
        (case optarg of Some a \<Rightarrow> cbind (atoi a) (\<lambda>n. Inr (S\<lparr>conf_level := n\<rparr>))
         | None \<Rightarrow> Inr (S\<lparr>conf_level := LOG_LEVEL_INFO\<rparr>))
      else Inl (ExitProcess 1))"

text \<open>\<^verbatim>\<open>argv\<close> includes the name of the program, which \<^verbatim>\<open>getopt_long\<close> skips.\<close>

definition console_parse_commands :: "string list \<Rightarrow> config \<Rightarrow> config cres" where
  "console_parse_commands argv S =
     option_loop console_option (getopt_long short_options console_long_options (drop 1 argv)) S"

text \<open>
  \<open>openable\<close> tells which files \<^verbatim>\<open>fopen\<close> can create (as stream 3, which then is empty).
\<close>

definition console_setup :: "(string \<Rightarrow> bool) \<Rightarrow> config \<Rightarrow> log_state \<Rightarrow> log_state cres" where
  "console_setup openable S st =
     (let (log_fd, st) =
        (case conf_file S of None \<Rightarrow> (None, st)
         | Some f \<Rightarrow> if openable f
             then (Some 3, st\<lparr>is_open := (is_open st)(3 := True), text_of := (text_of st)(3 := [])\<rparr>)
             else (None, st));
          (r, st) = setup_logger st log_fd (conf_level S) in
      if r \<noteq> 0 then Inl (ExitProcess 1) else Inr st)"

definition console_main :: "(string \<Rightarrow> bool) \<Rightarrow> string list \<Rightarrow> log_state \<Rightarrow> (int \<times> log_state) cres" where
  "console_main openable argv st =
     cbind (console_parse_commands argv default_config) (\<lambda>S.
     cbind (console_setup openable S st) (\<lambda>st. Inr (0, st)))"

section \<open>The command line of producer\_consumer.c\<close>

definition pc_long_options :: long_array where
  "pc_long_options =
     [Some (''size'', required_argument, CHR ''s''),
      Some (''log-file'', required_argument, CHR ''L''),
      Some (''log-level'', optional_argument, CHR ''l''),
      Some (''display'', no_argument, CHR ''d''),
      Some (''help'', no_argument, CHR ''h'')]"

definition pc_parse_commands :: "string list \<Rightarrow> settings \<Rightarrow> settings cres" where
  "pc_parse_commands argv S =
     option_loop parse_option (getopt_long short_options pc_long_options (drop 1 argv)) S"

text \<open>It is \<open>parse_commands\<close> on the results of \<^verbatim>\<open>getopt_long\<close>.\<close>

lemma option_loop_Inr: "option_loop parse_option (map Inr ps) S = parse_commands ps S"
proof (induction ps arbitrary: S)
  case (Cons p ps)
  then have "option_loop parse_option (map Inr ps) = parse_commands ps" by blast
  then show ?case by simp
qed simp

text \<open>\<^verbatim>\<open>setup_configurations\<close> on the globals of this program.\<close>

definition pc_setup :: "(string \<Rightarrow> bool) \<Rightarrow> settings \<Rightarrow> log_state \<Rightarrow> log_state cres" where
  "pc_setup openable S st =
     (let (log_fd, st) =
        (case log_file S of None \<Rightarrow> (None, st)
         | Some f \<Rightarrow> if openable f
             then (Some 3, st\<lparr>is_open := (is_open st)(3 := True), text_of := (text_of st)(3 := [])\<rparr>)
             else (None, st));
          (r, st) = setup_logger st log_fd (log_level S) in
      if r \<noteq> 0 then Inl (ExitProcess 1) else Inr st)"

section \<open>The usage texts\<close>

definition text_lines :: "string list \<Rightarrow> string" where
  "text_lines ls = concat (map (\<lambda>l. l @ newline) ls)"

definition common_usage :: "string list" where
  "common_usage =
     [''   -L, --log-file <filename>       Redirect logging stream to the specified file'',
      ''   -l, --log-level [<level>]       Set the level of logging to <level>. If not specify <level>,'',
      ''                                   the level of logging will be set to LOG_LEVEL_INFO.'',
      ''   -d, --display                   Display the configurations'',
      ''   -h, --help                      Show this help text'']"

definition console_usage :: "string \<Rightarrow> string" where
  "console_usage program_name =
     text_lines ([''Usage '' @ program_name @ '' [OPTION]...'', ''This is a console template'', [], ''[OPTION]''] @ common_usage)"

definition size_usage :: string where
  "size_usage = ''   -s, --size <value>              Specify buffer size by given <value>''"

definition pc_usage :: "string \<Rightarrow> string" where
  "pc_usage program_name =
     text_lines ([''Usage '' @ program_name @ '' [OPTION]...'', ''This is a console template'', [], ''[OPTION]'',
       size_usage] @ common_usage)"

section \<open>progress\_bar.c\<close>

definition LOOP :: nat where "LOOP = 10000"

definition progress_line :: "nat \<Rightarrow> string" where
  "progress_line i =
     [CHR 0x08] @ ''In progress: '' @ pad_left 3 (dec_nat (i div (LOOP div 100))) @ ''%'' @ [CHR 0x0D]"

text \<open>What has been written when the loop has arrived at \<open>i\<close>, and the whole output.\<close>

function progress_loop :: "nat \<Rightarrow> string \<Rightarrow> string" where
  "progress_loop i out = (if i < LOOP then progress_loop (Suc i) (out @ progress_line i) else out)"
  by pat_completeness auto
termination
  by (relation "measure (\<lambda>(i, out). LOOP - i)") auto

declare progress_loop.simps [simp del]

definition progress_main :: string where "progress_main = progress_loop 0 []"

section \<open>The two parsers\<close>

text \<open>What the settings of \<^verbatim>\<open>producer_consumer.c\<close> have in common with the template's.\<close>

definition view :: "settings \<Rightarrow> config" where
  "view S = \<lparr>conf_file = log_file S, conf_level = log_level S\<rparr>"

lemma short_options_kinds:
  "short_kind short_options c =
     (if c = CHR ''L'' then Some required_argument else if c = CHR ''l'' then Some optional_argument
      else if c = CHR ''d'' \<or> c = CHR ''h'' then Some no_argument else None)"
  by (auto simp: short_options_def)

lemma console_names: "Some (n, k, c) \<in> set console_long_options \<Longrightarrow> c \<noteq> CHR ''s''"
  by (auto simp: console_long_options_def)

lemma no_size_option:
  assumes "Inr (c, a) \<in> set (getopt_long short_options console_long_options ws)"
  shows "c \<noteq> CHR ''s''"
  using getopt_long_options [OF assms] console_names
  by (auto simp: known_option_def short_options_kinds split: if_splits)

lemma parse_option_view:
  "fst p \<noteq> CHR ''s'' \<Longrightarrow> cbind (parse_option p S) (\<lambda>T. Inr (view T)) = console_option p (view S)"
  by (cases p) (auto simp: parse_option_def console_option_def view_def cbind_assoc split: option.splits)

lemma option_keeps_capacity:
  "fst p \<noteq> CHR ''s'' \<Longrightarrow> parse_option p S = Inr T \<Longrightarrow> buffer_capacity T = buffer_capacity S"
  by (cases p) (auto simp: parse_option_def split: option.splits if_splits)

text \<open>The words of a command line that are no long option \<^verbatim>\<open>--size\<close>.\<close>

definition no_size_word :: "string list \<Rightarrow> bool" where
  "no_size_word ws \<longleftrightarrow> list_all (\<lambda>w. take 2 w = ''--'' \<longrightarrow> long_name (drop 2 w) \<noteq> ''size'') ws"

lemma getopt_no_size:
  assumes "no_size_word ws"
  shows "getopt_long short_options pc_long_options ws = getopt_long short_options console_long_options ws"
proof (rule getopt_long_cong)
  have "find_long pc_long_options n = find_long console_long_options n" if "n \<noteq> ''size''" for n
  proof -
    have "None \<notin> set pc_long_options" "None \<notin> set console_long_options"
      by (simp_all add: pc_long_options_def console_long_options_def)
    from this [THEN find_long_open] that show ?thesis by (simp add: pc_long_options_def console_long_options_def)
  qed
  then show "find_long pc_long_options (long_name (drop 2 w)) = find_long console_long_options (long_name (drop 2 w))"
    if "w \<in> set ws" "take 2 w = ''--''" for w
    using assms that by (auto simp: no_size_word_def list_all_iff)
qed

text \<open>The settings that one program of the two hands to the logger.\<close>

lemma setups_agree: "pc_setup openable S st = console_setup openable (view S) st"
  by (simp add: pc_setup_def console_setup_def view_def)

text \<open>
  C16: \<^verbatim>\<open>parse_commands\<close> of \<^verbatim>\<open>producer_consumer.c\<close> and of the template it was copied from do the same
  on every command line without \<^verbatim>\<open>--size\<close>, failures and exits included: same log file, same log
  level, same state of the logger after \<^verbatim>\<open>setup_configurations\<close>, and the capacity of the buffer stays.
\<close>

theorem parsers_agree:
  assumes "no_size_word (drop 1 argv)"
  shows "cbind (pc_parse_commands argv S) (\<lambda>T. Inr (view T, buffer_capacity T, pc_setup openable T st))
           = cbind (console_parse_commands argv (view S))
               (\<lambda>c. Inr (c, buffer_capacity S, console_setup openable c st))"
proof -
  let ?rs = "getopt_long short_options console_long_options (drop 1 argv)"
  have no_s: "fst p \<noteq> CHR ''s''" if "Inr p \<in> set ?rs" for p
    using that no_size_option [of "fst p" "snd p"] by simp
  have pc: "pc_parse_commands argv S = option_loop parse_option ?rs S"
    by (simp only: pc_parse_commands_def getopt_no_size [OF assms])
  have view: "cbind (pc_parse_commands argv S) (\<lambda>T. Inr (view T)) = console_parse_commands argv (view S)"
    unfolding pc console_parse_commands_def
    by (rule option_loop_view) (rule parse_option_view [OF no_s])
  show ?thesis
  proof (cases "pc_parse_commands argv S")
    case (Inr T)
    have "buffer_capacity T = buffer_capacity S"
      using option_loop_keeps [of ?rs parse_option "\<lambda>U. buffer_capacity U = buffer_capacity S" S T]
        option_keeps_capacity [OF no_s] Inr pc by auto
    with Inr view [symmetric] show ?thesis by (simp add: setups_agree)
  qed (use view [symmetric] in simp)
qed

theorem parsers_agree_witness:
  "cbind (pc_parse_commands [''p'', ''-l4'', ''x''] default_settings)
       (\<lambda>T. Inr (view T, buffer_capacity T, pc_setup (\<lambda>f. True) T initial_log_state))
     = cbind (console_parse_commands [''p'', ''-l4'', ''x''] (view default_settings))
         (\<lambda>c. Inr (c, 100, console_setup (\<lambda>f. True) c initial_log_state))"
  using parsers_agree [of "[''p'', ''-l4'', ''x'']" default_settings "\<lambda>f. True" initial_log_state]
  by (simp add: no_size_word_def default_settings_def)

section \<open>Configurations as command lines\<close>

text \<open>A configuration written with long and with short options.\<close>

definition long_words :: "config \<Rightarrow> string list" where
  "long_words c = (case conf_file c of None \<Rightarrow> [] | Some f \<Rightarrow> [''--log-file='' @ f])
     @ [''--log-level='' @ dec_int (conf_level c)]"

definition short_words :: "config \<Rightarrow> string list" where
  "short_words c = (case conf_file c of None \<Rightarrow> [] | Some f \<Rightarrow> [''-L'', f])
     @ [''-l'' @ dec_int (conf_level c)]"

lemma dec_int_nonempty [simp]: "dec_int x \<noteq> []"
  using dec_nat_Cons by (auto simp: dec_int_def) (metis list.discI)+

lemma no_options: "list_all (\<lambda>w. take 1 w \<noteq> ''-'') ws \<Longrightarrow> getopt_long os lo ws = []"
  using getopt_skip [of ws os lo "[]"] by simp

lemma getopt_long_words:
  "getopt_long short_options console_long_options ((''--log-file='' @ f) # ws)
     = Inr (CHR ''L'', Some f) # getopt_long short_options console_long_options ws"
  "getopt_long short_options console_long_options ((''--log-level='' @ v) # ws)
     = Inr (CHR ''l'', Some v) # getopt_long short_options console_long_options ws"
  using getopt_long_eq [of console_long_options "''log-file''" required_argument "CHR ''L''" short_options f ws]
    getopt_long_eq [of console_long_options "''log-level''" optional_argument "CHR ''l''" short_options v ws]
  by (simp_all add: console_long_options_def)

lemma getopt_short_words:
  "getopt_long short_options lo (''-L'' # f # ws) = Inr (CHR ''L'', Some f) # getopt_long short_options lo ws"
  "v \<noteq> [] \<Longrightarrow> getopt_long short_options lo ((''-l'' @ v) # ws)
     = Inr (CHR ''l'', Some v) # getopt_long short_options lo ws"
  using getopt_short_required [of short_options "CHR ''L''" lo f ws]
    getopt_short_optional [of short_options "CHR ''l''" lo v ws]
  by (simp_all add: short_options_kinds)

lemmas getopt_words = getopt_long_words getopt_short_words

text \<open>
  C32: a configuration survives being written as a command line, in the long and in the short
  form, whatever file name and whatever further words (none starting with a hyphen) there are.
\<close>

theorem command_line_round_trip:
  assumes "in_int (conf_level c)" and "conf_file c = None \<longrightarrow> conf_file d = None"
    and "list_all (\<lambda>w. take 1 w \<noteq> ''-'') ws"
  shows "console_parse_commands (p # long_words c @ ws) d = Inr c
       \<and> console_parse_commands (p # short_words c @ ws) d = Inr c"
proof -
  note level = atoi_dec_int [OF assms(1)]
  show ?thesis
  proof (cases "conf_file c")
    case None
    then have "d\<lparr>conf_level := conf_level c\<rparr> = c" using assms(2) by simp
    with None level show ?thesis
      using getopt_words(2) [of "dec_int (conf_level c)" ws]
        getopt_words(4) [of "dec_int (conf_level c)" console_long_options ws]
      by (simp add: console_parse_commands_def long_words_def short_words_def no_options [OF assms(3)]
          console_option_def del: getopt_long.simps)
  next
    case (Some f)
    then have "d\<lparr>conf_file := Some f, conf_level := conf_level c\<rparr> = c" by simp
    with Some level show ?thesis
      using getopt_words(1) [of f] getopt_words(3) [of console_long_options f]
        getopt_words(2) [of "dec_int (conf_level c)" ws]
        getopt_words(4) [of "dec_int (conf_level c)" console_long_options ws]
      by (simp add: console_parse_commands_def long_words_def short_words_def no_options [OF assms(3)]
          console_option_def del: getopt_long.simps)
  qed
qed

theorem command_line_round_trip_witness:
  "\<exists>c. conf_file c = Some ''a.log'' \<and> conf_level c = 4
     \<and> console_parse_commands (''p'' # long_words c @ [''x'']) default_config = Inr c
     \<and> console_parse_commands (''p'' # short_words c @ [''x'']) default_config = Inr c"
  using command_line_round_trip [of "\<lparr>conf_file = Some ''a.log'', conf_level = 4\<rparr>" default_config "[''x'']" "''p''"]
  by (intro exI [of _ "\<lparr>conf_file = Some ''a.log'', conf_level = 4\<rparr>"]) (simp add: int_range_defs)

text \<open>Words in front that are no options, and options in front that are handled.\<close>

lemma parse_after_words:
  assumes "in_int (conf_level c)" and "list_all (\<lambda>w. take 1 w \<noteq> ''-'') vs"
  shows "\<exists>T. console_parse_commands (p # vs @ long_words c @ ws) S = console_parse_commands (p # ws) T"
proof (cases "conf_file c")
  case None
  then show ?thesis
    using getopt_skip [OF assms(2)] getopt_words(2) [of "dec_int (conf_level c)" ws] atoi_dec_int [OF assms(1)]
    by (auto simp: console_parse_commands_def long_words_def console_option_def simp del: getopt_long.simps)
next
  case (Some f)
  then show ?thesis
    using getopt_skip [OF assms(2)] getopt_words(1) [of f] getopt_words(2) [of "dec_int (conf_level c)" ws]
      atoi_dec_int [OF assms(1)]
    by (auto simp: console_parse_commands_def long_words_def console_option_def simp del: getopt_long.simps)
qed

lemma parse_unhandled:
  assumes "Some (n, k, ch) \<in> set console_long_options" and "ch \<notin> {CHR ''L'', CHR ''l''}"
  shows "console_parse_commands (p # (''--'' @ n) # ws) S = Inl (ExitProcess 1)"
    and "console_parse_commands (p # [CHR ''-'', ch] # ws) S = Inl (ExitProcess 1)"
proof -
  have e: "(n = ''display'' \<and> ch = CHR ''d'' \<or> n = ''help'' \<and> ch = CHR ''h'') \<and> k = no_argument"
    using assms by (auto simp: console_long_options_def)
  then have "long_word console_long_options n ws = Inr ((ch, None), ws)"
    by (auto simp: long_word_def find_long_def long_value_def long_name_def console_long_options_def)
  then show "console_parse_commands (p # (''--'' @ n) # ws) S = Inl (ExitProcess 1)"
    using e by (auto simp: console_parse_commands_def console_option_def)
  show "console_parse_commands (p # [CHR ''-'', ch] # ws) S = Inl (ExitProcess 1)"
    using e by (auto simp: console_parse_commands_def short_options_kinds console_option_def)
qed

text \<open>
  C34: the options that the template announces but does not handle, after any words that are no options and
  options that are handled. Every entry of the array of long options other than \<^verbatim>\<open>--log-file\<close> and \<^verbatim>\<open>--log-level\<close>, among them
  \<^verbatim>\<open>--display\<close>, ends the process with a failure, in its long and in its short form and whatever follows. A long option that is not in
  the array exactly (an abbreviation or a misspelling) makes \<^verbatim>\<open>getopt_long\<close> read past the array, because the
  array lacks the terminating entry: with this entry added, the same word would have been recognised or refused.
\<close>

theorem display_and_unknown_options:
  assumes "in_int (conf_level c)" and "list_all (\<lambda>w. take 1 w \<noteq> ''-'') vs"
    and "Some (m, k, ch) \<in> set console_long_options" and "ch \<notin> {CHR ''L'', CHR ''l''}"
    and "n \<noteq> []" and "long_name n \<notin> fst ` the ` set console_long_options"
  shows "console_parse_commands (p # vs @ long_words c @ (''--'' @ m) # ws) S = Inl (ExitProcess 1)
    \<and> console_parse_commands (p # vs @ long_words c @ [CHR ''-'', ch] # ws) S = Inl (ExitProcess 1)
    \<and> console_parse_commands (p # vs @ long_words c @ (''--'' @ n) # ws) S = Inl OutOfBounds
    \<and> (\<exists>r rs. getopt_long short_options (console_long_options @ [None]) ((''--'' @ n) # ws) = Inr r # rs)"
proof -
  have "None \<notin> set console_long_options" by (simp add: console_long_options_def)
  from getopt_long_unknown [OF this assms(6,5)]
  have u: "console_parse_commands (p # (''--'' @ n) # ws) T = Inl OutOfBounds" for T
    by (simp add: console_parse_commands_def del: getopt_long.simps)
  note after = parse_after_words [OF assms(1,2), of p _ S]
  show ?thesis
    using after [of "(''--'' @ m) # ws"] after [of "[CHR ''-'', ch] # ws"] after [of "(''--'' @ n) # ws"]
      parse_unhandled [OF assms(3,4)] u getopt_long_ended [OF assms(5)] by metis
qed

theorem display_and_unknown_options_witness:
  "console_parse_commands [''p'', ''x'', ''--log-level=2'', ''--display''] default_config = Inl (ExitProcess 1)
     \<and> console_parse_commands [''p'', ''x'', ''--log-level=2'', ''--disp''] default_config = Inl OutOfBounds"
proof -
  have w: "long_words \<lparr>conf_file = None, conf_level = 2\<rparr> = [''--log-level=2'']"
    by (simp add: long_words_def dec_int_def dec_nat.simps digit_chars)
  show ?thesis
    using display_and_unknown_options [of "\<lparr>conf_file = None, conf_level = 2\<rparr>" "[''x'']" "''display''" no_argument "CHR ''d''"
        "''disp''" "''p''" "[]" default_config]
    by (simp add: w int_range_defs long_name_def console_long_options_def)
qed

section \<open>What the usage texts announce\<close>

lemma usage_parts:
  "console_usage p = ''Usage '' @ p @ text_lines ('' [OPTION]...'' # ''This is a console template'' # [] # ''[OPTION]'' # common_usage)"
  "pc_usage p = ''Usage '' @ p @ text_lines ('' [OPTION]...'' # ''This is a console template'' # [] # ''[OPTION]'' #
     size_usage # common_usage)"
  by (simp_all add: console_usage_def pc_usage_def text_lines_def)

lemma sublist_text_lines: "sublist x l \<Longrightarrow> l \<in> set ls \<Longrightarrow> sublist x (text_lines ls)"
proof -
  assume "l \<in> set ls"
  then obtain as bs where "ls = as @ l # bs" by (auto simp: in_set_conv_decomp)
  then have "text_lines ls = text_lines as @ l @ newline @ text_lines bs" by (simp add: text_lines_def)
  then show "sublist x l \<Longrightarrow> sublist x (text_lines ls)" by (simp add: sublist_appendI sublist_append)
qed

lemma common_usage_announces:
  assumes "Some (n, k, c) \<in> set console_long_options"
  shows "\<exists>l \<in> set common_usage. sublist ([CHR ''-'', c] @ '', --'' @ n) l"
  using assms by (auto simp: console_long_options_def common_usage_def sublist_code)

lemma sublist_right: "sublist x zs \<Longrightarrow> sublist x (ps @ zs)"
  by (simp add: sublist_append)

text \<open>
  The usage text of the template announces every option, with its short and its long form, and so does
  that of \<^verbatim>\<open>producer_consumer.c\<close>; but the announced \<^verbatim>\<open>-s\<close> is unknown to \<^verbatim>\<open>getopt_long\<close>: the program prints the
  usage text and ends with a failure.
\<close>

theorem usage_announces_options:
  assumes "Some (n, k, c) \<in> set pc_long_options"
  shows "sublist ([CHR ''-'', c] @ '', --'' @ n) (pc_usage p)
    \<and> (n \<noteq> ''size'' \<longrightarrow> sublist ([CHR ''-'', c] @ '', --'' @ n) (console_usage p))
    \<and> pc_parse_commands (p # ''-s'' # ws) S = Inl (ExitProcess 1)"
proof -
  have refused: "pc_parse_commands (p # ''-s'' # ws) S = Inl (ExitProcess 1)"
    by (simp add: pc_parse_commands_def short_options_kinds parse_option_def split: prod.splits)
  show ?thesis
  proof (cases "n = ''size''")
    case True
    then have "c = CHR ''s''" using assms by (auto simp: pc_long_options_def console_long_options_def)
    have "sublist ''-s, --size'' size_usage"
      by (simp add: size_usage_def sublist_code)
    from sublist_text_lines [OF this] have "sublist ''-s, --size'' (pc_usage p)"
      unfolding usage_parts by (intro sublist_right) simp
    with \<open>c = CHR ''s''\<close> show ?thesis using True refused by simp
  next
    case False
    then have "Some (n, k, c) \<in> set console_long_options"
      using assms by (auto simp: pc_long_options_def console_long_options_def)
    from common_usage_announces [OF this] obtain l where
      l: "l \<in> set common_usage" "sublist ([CHR ''-'', c] @ '', --'' @ n) l" by blast
    then have "sublist ([CHR ''-'', c] @ '', --'' @ n) (console_usage p)" "sublist ([CHR ''-'', c] @ '', --'' @ n) (pc_usage p)"
      unfolding usage_parts by (intro sublist_right sublist_text_lines [OF l(2)]; simp)+
    with refused show ?thesis by blast
  qed
qed

section \<open>From the command line to the log file\<close>

text \<open>
  C33: the program started with the words of a configuration returns 0, and a log message of a
  level up to the configured one then is one line, appended to the configured file if this could be
  created, and to \<^verbatim>\<open>stderr\<close> otherwise (without any message about the failure); messages above the
  level are dropped.
\<close>

theorem console_logs_to_file:
  assumes "in_int (conf_level c)" and "conf_file c = Some f"
    and "known_level level" and "no_nul m" and "no_nul file" and "no_nul func" and "line \<noteq> 0"
    and "length (log_prefix level @ m @ location file line func) < 8191"
  shows "\<exists>st. console_main openable (p # long_words c) initial_log_state = Inr (0, st)
     \<and> LOGGING level st file line func m =
         (if level > conf_level c then Inr st
          else fprint st (if openable f then 3 else stderr) (log_prefix level @ m @ location file line func @ newline))
     \<and> is_open st (if openable f then 3 else stderr)"
proof -
  have "console_parse_commands (p # long_words c) default_config = Inr c"
  proof -
    from getopt_words(1) [of f] getopt_words(2) [of "dec_int (conf_level c)" "[]"] assms(2)
    have "getopt_long short_options console_long_options (long_words c)
        = [Inr (CHR ''L'', Some f), Inr (CHR ''l'', Some (dec_int (conf_level c)))]"
      by (simp add: long_words_def del: getopt_long.simps) simp
    moreover have "default_config\<lparr>conf_file := Some f, conf_level := conf_level c\<rparr> = c" using assms(2) by simp
    ultimately show ?thesis
      using atoi_dec_int [OF assms(1)] by (simp add: console_parse_commands_def console_option_def)
  qed
  moreover define st where "st = (if openable f
    then initial_log_state\<lparr>is_open := (is_open initial_log_state)(3 := True), text_of := (text_of initial_log_state)(3 := []),
           default_log_stream := Some 3, default_log_level := conf_level c\<rparr>
    else initial_log_state\<lparr>default_log_stream := Some stderr, default_log_level := conf_level c\<rparr>)"
  moreover have "console_setup openable c initial_log_state = Inr st"
    using assms(2) by (simp add: console_setup_def setup_logger_def st_def)
  ultimately have "console_main openable (p # long_words c) initial_log_state = Inr (0, st)"
    by (simp add: console_main_def)
  moreover have "default_log_level st = conf_level c"
    and "target (default_log_stream st) = (if openable f then 3 else stderr)"
    and "is_open st (if openable f then 3 else stderr)"
    by (simp_all add: st_def target_def initial_log_state_def)
  moreover have "length m < 1073741824" "length (location file line func) < 1073741824"
    "\<not> 8191 \<le> length (log_prefix level @ m)" using assms(8) by simp_all
  ultimately show ?thesis
    using assms(8) log_msg_result [OF assms(3-7)] by (auto simp: LOGGING_def)
qed

theorem console_logs_to_file_witness:
  "\<exists>c st. console_main (\<lambda>n. True) (''p'' # long_words c) initial_log_state = Inr (0, st)
     \<and> LOGGING 1 st ''f.c'' 7 ''main'' ''hello'' =
         fprint st 3 (log_prefix 1 @ ''hello'' @ location ''f.c'' 7 ''main'' @ newline)"
proof -
  let ?c = "\<lparr>conf_file = Some ''a.log'', conf_level = 4\<rparr>"
  have "log_prefix 1 @ ''hello'' @ location ''f.c'' 7 ''main'' = ''[ERROR] hello   (f.c:7:main)''"
    by (simp add: log_prefix_def log_level_string_def pad_right_def location_def dec_int_def dec_nat.simps
        digit_chars)
  then have "length (log_prefix 1 @ ''hello'' @ location ''f.c'' 7 ''main'') < 8191" by simp
  from console_logs_to_file [OF _ _ _ _ _ _ _ this, of ?c "''a.log''" "\<lambda>n. True" "''p''"] show ?thesis
    by (intro exI [of _ ?c]) (auto simp: int_range_defs known_level_def no_nul_def NUL_def)
qed

section \<open>The progress bar\<close>

lemma dec_nat_less_100: "n < 100 \<Longrightarrow> length (dec_nat n) = (if n < 10 then 1 else 2)"
  by (auto simp: dec_nat.simps [of n] dec_nat.simps [of "n div 10"])

lemma progress_line_length: "i < LOOP \<Longrightarrow> length (progress_line i) = 19"
  using dec_nat_less_100 [of "i div 100"] by (simp add: progress_line_def pad_left_def LOOP_def)

lemma progress_loop_concat:
  "i \<le> LOOP \<Longrightarrow> progress_loop i out = out @ concat (map progress_line [i..<LOOP])"
proof (induction i out rule: progress_loop.induct)
  case (1 i out)
  then show ?case
    by (cases "i < LOOP") (simp_all add: progress_loop.simps [of i] progress_loop.simps [of LOOP] upt_conv_Cons)
qed

lemma concat_nth_block:
  "(\<And>x. x \<in> set xs \<Longrightarrow> length (f x) = k) \<Longrightarrow> i < length xs \<Longrightarrow>
   take k (drop (k * i) (concat (map f xs))) = f (xs ! i)"
proof (induction xs arbitrary: i)
  case (Cons x xs)
  show ?case
  proof (cases i)
    case (Suc j)
    have "drop (k * i) (f x @ concat (map f xs)) = drop (k * j) (concat (map f xs))"
      using Cons.prems(1) [of x] Suc by simp
    with Cons Suc show ?thesis by simp
  qed (use Cons.prems(1) [of x] in simp)
qed simp

text \<open>
  The output of the progress bar is 10000 lines of 19 characters; the percentage that line
  \<open>i\<close> shows is at most 99, so that the bar ends without ever having shown 100.
\<close>

theorem progress_bar_below_100:
  assumes "i < 10000"
  shows "length progress_main = 190000 \<and> take 19 (drop (19 * i) progress_main) =
      [CHR 0x08] @ ''In progress: '' @ (if i < 1000 then ''  '' else '' '') @ dec_nat (i div 100) @ ''%'' @ [CHR 0x0D]
    \<and> atoi (dec_nat (i div 100)) = Inr (int (i div 100)) \<and> int (i div 100) \<le> 99"
proof -
  have all: "length (progress_line x) = 19" if "x \<in> set [0..<LOOP]" for x
    using that by (intro progress_line_length) simp
  have eq: "progress_main = concat (map progress_line [0..<LOOP])"
    by (simp add: progress_main_def progress_loop_concat)
  have len: "length (concat (map progress_line [0..<LOOP])) = (\<Sum>x\<leftarrow>[0..<LOOP]. 19)"
    using all by (simp add: length_concat comp_def del: set_upt cong: map_cong)
  have "take 19 (drop (19 * i) progress_main) = progress_line i"
    unfolding eq using concat_nth_block [of "[0..<LOOP]" progress_line 19 i] all assms by (simp add: LOOP_def)
  also have "\<dots> = [CHR 0x08] @ ''In progress: '' @ (if i < 1000 then ''  '' else '' '') @ dec_nat (i div 100) @ ''%'' @ [CHR 0x0D]"
    using dec_nat_less_100 [of "i div 100"] assms by (auto simp: progress_line_def pad_left_def LOOP_def numeral_2_eq_2)
  finally show ?thesis
    using len atoi_dec_int [of "int (i div 100)"] assms
    by (simp add: eq sum_list_triv LOOP_def dec_int_def int_range_defs)
qed

theorem progress_bar_below_100_witness:
  "take 19 (drop 189981 progress_main) = [CHR 0x08] @ ''In progress:  99%'' @ [CHR 0x0D]"
  using progress_bar_below_100 [of 9999] by (simp add: dec_nat.simps digit_chars)

end
