(* ===== verification/Counter_Threads.thy ===== *)
theory Counter_Threads
  imports C_Prelude Step_Systems
begin

text \<open>
  The programs that create threads which increment a counter under a mutex and join them:
  \<^verbatim>\<open>Miscs/mutex_example.c\<close> and \<^verbatim>\<open>Miscs/pthread_join_example.c\<close>, and the program
  \<^verbatim>\<open>Miscs/hello_pthread.c\<close>. An increment is a load and a store; what keeps it whole is the mutex.
\<close>

section \<open>Programs\<close>

text \<open>
  The two counting programs have the same shape. They differ in the number of threads, in whether a
  thread prints the counter while it holds the mutex, and in whether \<^verbatim>\<open>main\<close> prints it at the end.
\<close>

record cprog =
  n_threads :: nat
  prints_inside :: bool
  prints_final :: bool

definition mutex_example :: cprog where
  "mutex_example = \<lparr>n_threads = 2, prints_inside = True, prints_final = False\<rparr>"

definition pthread_join_example :: cprog where
  "pthread_join_example = \<lparr>n_threads = 10, prints_inside = False, prints_final = True\<rparr>"

text \<open>Where a thread is; \<open>AtStore v\<close> has loaded \<open>v\<close>.\<close>

datatype tpos = NotCreated | AtLock | AtLoad | AtStore int | AtPrint | AtUnlock | Returned

text \<open>Where \<^verbatim>\<open>main\<close> is: before \<^verbatim>\<open>pthread_create\<close> or \<^verbatim>\<open>pthread_join\<close> of a thread, or at an end.\<close>

datatype mpos = Creating nat | Joining nat | Finished | Undefined cerr

record cstate =
  counter :: int
  mutex :: "nat option"
  printed_values :: "int list"
  tpc :: "nat \<Rightarrow> tpos"
  mpc :: mpos

definition ct_init :: "cstate \<Rightarrow> bool" where
  "ct_init s \<longleftrightarrow> s = \<lparr>counter = 0, mutex = None, printed_values = [], tpc = (\<lambda>i. NotCreated), mpc = Creating 0\<rparr>"

text \<open>The function of the threads (\<^verbatim>\<open>incrementCounter\<close>, \<^verbatim>\<open>thread_func\<close>).\<close>

inductive counter_step :: "cprog \<Rightarrow> nat \<Rightarrow> cstate \<Rightarrow> cstate \<Rightarrow> bool" for P i where
  t_lock: "tpc s i = AtLock \<Longrightarrow> mutex s = None \<Longrightarrow>
    counter_step P i s (s\<lparr>mutex := Some i, tpc := (tpc s)(i := AtLoad)\<rparr>)"
| t_load: "tpc s i = AtLoad \<Longrightarrow> counter_step P i s (s\<lparr>tpc := (tpc s)(i := AtStore (counter s))\<rparr>)"
| t_store: "tpc s i = AtStore v \<Longrightarrow> c_int (v + 1) = Inr w \<Longrightarrow>
    counter_step P i s (s\<lparr>counter := w, tpc := (tpc s)(i := if prints_inside P then AtPrint else AtUnlock)\<rparr>)"
| t_print: "tpc s i = AtPrint \<Longrightarrow>
    counter_step P i s (s\<lparr>printed_values := printed_values s @ [counter s], tpc := (tpc s)(i := AtUnlock)\<rparr>)"
| t_unlock: "tpc s i = AtUnlock \<Longrightarrow>
    counter_step P i s (s\<lparr>mutex := None, tpc := (tpc s)(i := Returned)\<rparr>)"

text \<open>
  \<^verbatim>\<open>main\<close>. Whether \<^verbatim>\<open>pthread_create\<close> succeeds is given by \<open>creates\<close>. A failure is at most
  reported; the thread is joined all the same, through a variable that was never set.
\<close>

inductive creator_step :: "cprog \<Rightarrow> (nat \<Rightarrow> bool) \<Rightarrow> cstate \<Rightarrow> cstate \<Rightarrow> bool" for P creates where
  m_create: "mpc s = Creating i \<Longrightarrow> i < n_threads P \<Longrightarrow> creates i \<Longrightarrow>
    creator_step P creates s (s\<lparr>tpc := (tpc s)(i := AtLock), mpc := Creating (Suc i)\<rparr>)"
| m_fail: "mpc s = Creating i \<Longrightarrow> i < n_threads P \<Longrightarrow> \<not> creates i \<Longrightarrow>
    creator_step P creates s (s\<lparr>mpc := Creating (Suc i)\<rparr>)"
| m_created: "mpc s = Creating i \<Longrightarrow> \<not> i < n_threads P \<Longrightarrow> creator_step P creates s (s\<lparr>mpc := Joining 0\<rparr>)"
| m_join: "mpc s = Joining i \<Longrightarrow> i < n_threads P \<Longrightarrow> creates i \<Longrightarrow> tpc s i = Returned \<Longrightarrow>
    creator_step P creates s (s\<lparr>mpc := Joining (Suc i)\<rparr>)"
| m_join_bad: "mpc s = Joining i \<Longrightarrow> i < n_threads P \<Longrightarrow> \<not> creates i \<Longrightarrow>
    creator_step P creates s (s\<lparr>mpc := Undefined Uninitialised\<rparr>)"
| m_end: "mpc s = Joining i \<Longrightarrow> \<not> i < n_threads P \<Longrightarrow>
    creator_step P creates s (s\<lparr>mpc := Finished,
      printed_values := printed_values s @ (if prints_final P then [counter s] else [])\<rparr>)"

definition ct_step :: "cprog \<Rightarrow> (nat \<Rightarrow> bool) \<Rightarrow> cstate \<Rightarrow> cstate \<Rightarrow> bool" where
  "ct_step P creates s t \<longleftrightarrow> creator_step P creates s t \<or> (\<exists>i. counter_step P i s t)"

definition ct_final :: "cstate \<Rightarrow> bool" where
  "ct_final s \<longleftrightarrow> mpc s = Finished \<or> (\<exists>e. mpc s = Undefined e)"

inductive_cases counter_stepE: "counter_step P i s t"
inductive_cases creator_stepE: "creator_step P creates s t"

text \<open>
  \<^verbatim>\<open>hello_pthread.c\<close>: \<open>iret1\<close> and \<open>iret2\<close> are the results of the two \<^verbatim>\<open>pthread_create\<close>; after the
  second one the first result is tested again. \<open>swap\<close> says that the second thread prints first.
  The result is the status and what is printed.
\<close>

definition hello_main :: "int \<Rightarrow> int \<Rightarrow> bool \<Rightarrow> (int \<times> string list) cres" where
  "hello_main iret1 iret2 swap =
     (if iret1 \<noteq> 0 then Inr (0, [''pthread_create thread failed!''])
      else if iret1 \<noteq> 0 then Inr (0, [''Thread 1'', ''pthread_create thread failed!''])
      else if iret2 \<noteq> 0 then Inl Uninitialised
      else Inr (0, if swap then [''Thread 2'', ''Thread 1''] else [''Thread 1'', ''Thread 2'']))"

section \<open>Invariant\<close>

definition holds_mutex :: "tpos \<Rightarrow> bool" where
  "holds_mutex p \<longleftrightarrow> p \<in> {AtLoad, AtPrint, AtUnlock} \<or> (\<exists>v. p = AtStore v)"

definition counted :: "tpos \<Rightarrow> bool" where "counted p \<longleftrightarrow> p \<in> {AtPrint, AtUnlock, Returned}"
definition reported :: "tpos \<Rightarrow> bool" where "reported p \<longleftrightarrow> p \<in> {AtUnlock, Returned}"

definition ct_created :: "(nat \<Rightarrow> bool) \<Rightarrow> cstate \<Rightarrow> nat \<Rightarrow> bool" where
  "ct_created creates s n \<longleftrightarrow> (\<forall>j. tpc s j \<noteq> NotCreated \<longleftrightarrow> j < n \<and> creates j)"

definition ct_main_inv :: "cprog \<Rightarrow> (nat \<Rightarrow> bool) \<Rightarrow> cstate \<Rightarrow> bool" where
  "ct_main_inv P creates s \<longleftrightarrow>
     (case mpc s of
        Creating i \<Rightarrow> i \<le> n_threads P \<and> ct_created creates s i
      | Joining i \<Rightarrow> ct_created creates s (n_threads P) \<and> (\<forall>j < i. tpc s j = Returned) \<and> i \<le> n_threads P
      | Finished \<Rightarrow> ct_created creates s (n_threads P) \<and> (\<forall>j < n_threads P. tpc s j = Returned)
      | Undefined e \<Rightarrow> ct_created creates s (n_threads P) \<and> (\<exists>i < n_threads P. \<not> creates i))"

text \<open>\<open>cnt\<close> counts the threads at certain positions.\<close>

definition ct_out :: "cprog \<Rightarrow> cstate \<Rightarrow> int list" where
  "ct_out P s = (if prints_inside P then [1..cnt reported (n_threads P) (tpc s)] else [])
     @ (if prints_final P \<and> mpc s = Finished then [counter s] else [])"

definition ct_inv :: "cprog \<Rightarrow> (nat \<Rightarrow> bool) \<Rightarrow> cstate \<Rightarrow> bool" where
  "ct_inv P creates s \<longleftrightarrow> ct_main_inv P creates s
     \<and> (\<forall>i. holds_mutex (tpc s i) \<longleftrightarrow> mutex s = Some i)
     \<and> (\<forall>i v. tpc s i = AtStore v \<longrightarrow> v = counter s)
     \<and> (\<forall>i. tpc s i = AtPrint \<longrightarrow> prints_inside P)
     \<and> counter s = cnt counted (n_threads P) (tpc s)
     \<and> printed_values s = ct_out P s"

lemma pos_simps [simp]:
  "holds_mutex AtLoad" "holds_mutex (AtStore v)" "holds_mutex AtPrint" "holds_mutex AtUnlock"
  "\<not> holds_mutex NotCreated" "\<not> holds_mutex AtLock" "\<not> holds_mutex Returned"
  "counted AtPrint" "counted AtUnlock" "counted Returned"
  "\<not> counted NotCreated" "\<not> counted AtLock" "\<not> counted AtLoad" "\<not> counted (AtStore v)"
  "reported AtUnlock" "reported Returned" "\<not> reported AtPrint"
  "\<not> reported NotCreated" "\<not> reported AtLock" "\<not> reported AtLoad" "\<not> reported (AtStore v)"
  by (simp_all add: holds_mutex_def counted_def reported_def)

text \<open>A thread that has been created is one of the \<open>n_threads\<close>, and \<^verbatim>\<open>main\<close> has not finished before it has.\<close>

lemma created_below:
  assumes "ct_main_inv P creates s" and "tpc s i \<noteq> NotCreated"
  shows "i < n_threads P"
  using assms by (auto simp: ct_main_inv_def ct_created_def split: mpos.splits)

lemma running_not_finished:
  assumes "ct_main_inv P creates s" and "tpc s i \<noteq> NotCreated" and "tpc s i \<noteq> Returned"
  shows "mpc s \<noteq> Finished"
  using assms created_below [OF assms(1,2)] by (auto simp: ct_main_inv_def)

text \<open>A step of a created thread to another position keeps what \<^verbatim>\<open>main\<close> knows.\<close>

lemma main_inv_thread:
  assumes "ct_main_inv P creates s" and "tpc s i \<noteq> NotCreated" and "tpc s i \<noteq> Returned" and "p \<noteq> NotCreated"
    and "tpc t = (tpc s)(i := p)" and "mpc t = mpc s"
  shows "ct_main_inv P creates t"
  using assms by (auto simp: ct_main_inv_def ct_created_def split: mpos.splits)

lemma reported_counted: "(\<And>j. w j \<noteq> AtPrint) \<Longrightarrow> cnt reported n w = cnt counted n w"
  unfolding cnt_def by (intro arg_cong [where f = int] count_threads_cong) (simp add: reported_def counted_def)

lemma ct_inv_thread:
  assumes "counter_step P i s t" and "ct_inv P creates s"
  shows "ct_inv P creates t"
proof -
  from assms(1) have run: "tpc s i \<noteq> NotCreated" "tpc s i \<noteq> Returned" by (auto elim: counter_stepE)
  have mi: "ct_main_inv P creates s" and mx: "\<And>j. holds_mutex (tpc s j) \<longleftrightarrow> mutex s = Some j"
    and st: "\<forall>j v. tpc s j = AtStore v \<longrightarrow> v = counter s" and pr: "\<And>j. tpc s j = AtPrint \<Longrightarrow> prints_inside P"
    and co: "counter s = cnt counted (n_threads P) (tpc s)" and out: "printed_values s = ct_out P s"
    using assms(2) by (auto simp: ct_inv_def)
  have i: "i < n_threads P" by (rule created_below [OF mi run(1)])
  have nf: "mpc s \<noteq> Finished" by (rule running_not_finished [OF mi run])
  have upd: "tpc t = (tpc s)(i := tpc t i)" "mpc t = mpc s" "tpc t i \<noteq> NotCreated"
    using assms(1) by (auto elim!: counter_stepE split: if_splits)
  have "ct_main_inv P creates t" by (rule main_inv_thread [OF mi run upd(3,1,2)])
  moreover have "\<forall>j. holds_mutex (tpc t j) \<longleftrightarrow> mutex t = Some j"
    using assms(1)
  proof cases
    case t_lock
    then show ?thesis by (simp add: mx)
  next
    case t_load
    then have "mutex s = Some i" using mx [of i] by simp
    with t_load show ?thesis by (simp add: mx)
  next
    case (t_store v w)
    then have "mutex s = Some i" using mx [of i] by simp
    with t_store show ?thesis by (simp add: mx)
  next
    case t_print
    then have "mutex s = Some i" using mx [of i] by simp
    with t_print show ?thesis by (simp add: mx)
  next
    case t_unlock
    then have "mutex s = Some i" using mx [of i] by simp
    with t_unlock show ?thesis by (simp add: mx)
  qed
  moreover have "\<forall>j v. tpc t j = AtStore v \<longrightarrow> v = counter t"
    using assms(1)
  proof cases
    case (t_store v w)
    then have "mutex s = Some i" using mx [of i] by simp
    then have own: "tpc s j \<noteq> AtStore u" if "j \<noteq> i" for j u using mx [of j] that by auto
    show ?thesis
    proof (intro allI impI)
      fix j u assume "tpc t j = AtStore u"
      then show "u = counter t" using t_store(1) own [of j u] by (cases "j = i") (auto split: if_splits)
    qed
  qed (use st in auto)
  moreover have "\<forall>j. tpc t j = AtPrint \<longrightarrow> prints_inside P"
    using assms(1) pr by cases (auto split: if_splits)
  moreover have "counter t = cnt counted (n_threads P) (tpc t)"
    using assms(1) co st by cases (auto simp: cnt_upd [OF i] c_int_eq_Inr_iff)
  moreover have "printed_values t = ct_out P t"
    using assms(1)
  proof cases
    case t_print
    then have "prints_inside P" using pr by blast
    moreover have "counter s = cnt reported (n_threads P) (tpc s) + 1"
    proof -
      have "mutex s = Some i" using t_print mx [of i] by simp
      then have "((tpc s)(i := AtUnlock)) j \<noteq> AtPrint" for j using mx [of j] by (cases "j = i") auto
      then have "cnt reported (n_threads P) ((tpc s)(i := AtUnlock)) = cnt counted (n_threads P) ((tpc s)(i := AtUnlock))"
        by (rule reported_counted)
      then show ?thesis using t_print co by (simp add: cnt_upd [OF i])
    qed
    ultimately show ?thesis using t_print out nf cnt_nonneg [of reported "n_threads P" "tpc s"]
      by (simp add: ct_out_def cnt_upd [OF i] upto_rec2)
  qed (use out nf in \<open>auto simp: ct_out_def cnt_upd [OF i]\<close>)
  ultimately show ?thesis by (simp add: ct_inv_def)
qed

lemma joining_all_returned:
  assumes "ct_main_inv P creates s" and "mpc s = Joining i" and "\<not> i < n_threads P"
  shows "\<forall>j < n_threads P. tpc s j = Returned"
  using assms by (auto simp: ct_main_inv_def)

lemma ct_inv_main:
  assumes "creator_step P creates s t" and "ct_inv P creates s"
  shows "ct_inv P creates t"
proof -
  have mi: "ct_main_inv P creates s" using assms(2) by (simp add: ct_inv_def)
  show ?thesis
    using assms(1)
  proof cases
    case (m_create i)
    then have nc: "tpc s i = NotCreated" using mi by (auto simp: ct_main_inv_def ct_created_def)
    then have "mutex s \<noteq> Some i" using assms(2) pos_simps(5) by (metis ct_inv_def)
    then show ?thesis
      using assms(2) m_create nc
      by (auto simp: ct_inv_def ct_main_inv_def ct_created_def ct_out_def cnt_upd less_Suc_eq)
  next
    case (m_fail i)
    then show ?thesis using assms(2)
      by (auto simp: ct_inv_def ct_main_inv_def ct_created_def ct_out_def less_Suc_eq)
  next
    case (m_created i)
    then show ?thesis using assms(2)
      by (auto simp: ct_inv_def ct_main_inv_def ct_created_def ct_out_def)
  next
    case (m_join i)
    then show ?thesis using assms(2)
      by (auto simp: ct_inv_def ct_main_inv_def ct_created_def ct_out_def less_Suc_eq)
  next
    case (m_join_bad i)
    then show ?thesis using assms(2)
      by (auto simp: ct_inv_def ct_main_inv_def ct_created_def ct_out_def)
  next
    case (m_end i)
    then show ?thesis using assms(2)
      by (auto simp: ct_inv_def ct_main_inv_def ct_created_def ct_out_def)
  qed
qed

section \<open>Termination\<close>

fun thread_weight :: "tpos \<Rightarrow> int" where
  "thread_weight NotCreated = 5" | "thread_weight AtLock = 5" | "thread_weight AtLoad = 4"
| "thread_weight (AtStore v) = 3" | "thread_weight AtPrint = 2" | "thread_weight AtUnlock = 1"
| "thread_weight Returned = 0"

definition main_weight :: "cprog \<Rightarrow> mpos \<Rightarrow> nat" where
  "main_weight P p = (case p of Creating i \<Rightarrow> n_threads P - i + n_threads P + 2
     | Joining i \<Rightarrow> n_threads P - i + 1 | _ \<Rightarrow> 0)"

definition ct_measure :: "cprog \<Rightarrow> cstate \<Rightarrow> nat" where
  "ct_measure P s = main_weight P (mpc s) + nat (total thread_weight (n_threads P) (tpc s))"

lemma thread_weight_nonneg: "0 \<le> thread_weight p"
  by (cases p) simp_all

lemma total_weight_nonneg: "0 \<le> total thread_weight n w"
  by (rule total_nonneg) (rule thread_weight_nonneg)

lemma ct_measure_step:
  assumes "ct_inv P creates s" and "ct_step P creates s t"
  shows "ct_measure P t < ct_measure P s"
  using assms(2) unfolding ct_step_def
proof (elim disjE exE)
  assume "creator_step P creates s t"
  then show ?thesis
  proof cases
    case (m_create i)
    then have "tpc s i = NotCreated" using assms(1) by (auto simp: ct_inv_def ct_main_inv_def ct_created_def)
    with m_create show ?thesis by (simp add: ct_measure_def main_weight_def total_upd)
  qed (use total_weight_nonneg in \<open>simp_all add: ct_measure_def main_weight_def\<close>)
next
  fix i assume st: "counter_step P i s t"
  then have "tpc s i \<noteq> NotCreated" by (auto elim: counter_stepE)
  then have i: "i < n_threads P" using assms(1) created_below by (auto simp: ct_inv_def)
  from st total_weight_nonneg [of "n_threads P" "tpc t"] show ?thesis
    by cases (auto simp: ct_measure_def total_upd [OF i] split: if_splits)
qed

lemma thread_moves:
  assumes "ct_inv P creates s" and "n_threads P \<le> 2147483647" and "tpc s i \<noteq> NotCreated" and "tpc s i \<noteq> Returned"
  shows "\<exists>j t. counter_step P j s t"
proof -
  have move: "\<exists>t. counter_step P j s t" if "holds_mutex (tpc s j)" for j
  proof (cases "tpc s j")
    case (AtStore v)
    with assms(1) have "v = cnt counted (n_threads P) (tpc s)" by (auto simp: ct_inv_def)
    moreover have "j < n_threads P" using AtStore assms(1) created_below by (auto simp: ct_inv_def)
    then have "cnt counted (n_threads P) (tpc s) + 1 \<le> int (n_threads P)"
      using AtStore cnt_upd [of j "n_threads P" counted "tpc s" Returned] cnt_le [of counted "n_threads P" "(tpc s)(j := Returned)"]
      by simp
    ultimately have "c_int (v + 1) = Inr (v + 1)"
      using assms(2) cnt_nonneg [of counted "n_threads P" "tpc s"] by (intro c_int_ok) (simp add: int_range_defs)
    with AtStore show ?thesis by (blast intro: t_store)
  qed (use that in \<open>auto intro: counter_step.intros\<close>)
  show ?thesis
  proof (cases "mutex s")
    case None
    then have "\<not> holds_mutex (tpc s i)" using assms(1) by (simp add: ct_inv_def)
    then have "tpc s i = AtLock" using assms(3,4) by (cases "tpc s i") simp_all
    with None show ?thesis by (blast intro: t_lock)
  next
    case (Some j)
    then have "holds_mutex (tpc s j)" using assms(1) by (simp add: ct_inv_def)
    with move show ?thesis by blast
  qed
qed

lemma ct_progress:
  assumes "ct_inv P creates s" and "n_threads P \<le> 2147483647" and "\<not> ct_final s"
  shows "\<exists>t. ct_step P creates s t"
proof (cases "mpc s")
  case (Creating i)
  then show ?thesis unfolding ct_step_def by (meson creator_step.intros(1-3))
next
  case (Joining i)
  show ?thesis
  proof (cases "i < n_threads P \<and> creates i \<and> tpc s i \<noteq> Returned")
    case True
    with Joining have "tpc s i \<noteq> NotCreated" using assms(1) by (auto simp: ct_inv_def ct_main_inv_def ct_created_def)
    with thread_moves [OF assms(1,2)] True show ?thesis unfolding ct_step_def by blast
  next
    case False
    with Joining show ?thesis unfolding ct_step_def by (meson creator_step.intros(4-6))
  qed
qed (use assms(3) in \<open>auto simp: ct_final_def\<close>)

lemma ct_inv_init: "ct_init s \<Longrightarrow> ct_inv P creates s"
  by (auto simp: ct_init_def ct_inv_def ct_main_inv_def ct_created_def ct_out_def cnt_zero_iff [THEN iffD2])

lemma ct_inv_step: "ct_inv P creates s \<Longrightarrow> ct_step P creates s t \<Longrightarrow> ct_inv P creates t"
  using ct_inv_main ct_inv_thread by (auto simp: ct_step_def)

interpretation mutex_run: terminating_system ct_init "ct_step mutex_example creates"
  "ct_inv mutex_example creates" ct_final "ct_measure mutex_example" for creates
  by unfold_locales
    (auto intro: ct_inv_init ct_inv_step ct_progress ct_measure_step simp: mutex_example_def)

interpretation join_run: terminating_system ct_init "ct_step pthread_join_example creates"
  "ct_inv pthread_join_example creates" ct_final "ct_measure pthread_join_example" for creates
  by unfold_locales
    (auto intro: ct_inv_init ct_inv_step ct_progress ct_measure_step simp: pthread_join_example_def)

section \<open>Properties\<close>

lemma all_returned_counts:
  assumes "\<forall>j < n. w j = Returned"
  shows "cnt counted n w = int n" and "cnt reported n w = int n"
  using assms by (simp_all add: cnt_all_iff)

lemma ct_final_result:
  assumes "ct_inv P (\<lambda>i. True) s" and "ct_final s"
  shows "mpc s = Finished" and "counter s = int (n_threads P)"
    and "printed_values s = (if prints_inside P then [1..int (n_threads P)] else [])
           @ (if prints_final P then [int (n_threads P)] else [])"
proof -
  show fin: "mpc s = Finished" using assms by (auto simp: ct_final_def ct_inv_def ct_main_inv_def)
  then have ret: "\<forall>j < n_threads P. tpc s j = Returned" using assms(1) by (simp add: ct_inv_def ct_main_inv_def)
  then show "counter s = int (n_threads P)" using assms(1) all_returned_counts(1) by (simp add: ct_inv_def)
  with fin show "printed_values s = (if prints_inside P then [1..int (n_threads P)] else [])
           @ (if prints_final P then [int (n_threads P)] else [])"
    using assms(1) all_returned_counts(2) [OF ret] by (simp add: ct_inv_def ct_out_def)
qed

lemma finished_stuck:
  assumes "ct_inv P creates s" and "mpc s = Finished"
  shows "\<not> ct_step P creates s t"
proof
  assume "ct_step P creates s t"
  then consider "creator_step P creates s t" | i where "counter_step P i s t" by (auto simp: ct_step_def)
  then show False
  proof cases
    case 1
    then show False using assms(2) by cases simp_all
  next
    case (2 i)
    then have "tpc s i \<noteq> NotCreated" "tpc s i \<noteq> Returned" by (auto elim: counter_stepE)
    then show False using running_not_finished [of P creates s i] assms by (simp add: ct_inv_def)
  qed
qed

lemma undefined_why:
  assumes "(ct_step P creates)\<^sup>*\<^sup>* s t" and "ct_init s" and "mpc t = Undefined e"
  shows "e = Uninitialised"
  using assms
proof (induction arbitrary: e rule: rtranclp_induct)
  case base
  then show ?case by (auto simp: ct_init_def)
next
  case (step t u)
  then show ?case by (auto simp: ct_step_def elim!: creator_stepE counter_stepE)
qed

lemma ct_measure_init: "ct_init s \<Longrightarrow> ct_measure P s = 7 * n_threads P + 2"
  by (auto simp: ct_init_def ct_measure_def main_weight_def total_def)

text \<open>
  C18: the two counting programs end under every schedule, after at most 16 and 72 steps, and no
  increment is lost: \<^verbatim>\<open>mutex_example.c\<close> prints 1 and 2 in this order, \<^verbatim>\<open>pthread_join_example.c\<close>
  prints 10.
\<close>

theorem counter_programs_end:
  assumes "ct_init s"
  shows "(\<forall>n t. (ct_step mutex_example (\<lambda>i. True) ^^ n) s t \<longrightarrow> n \<le> 16)
    \<and> (\<forall>t. (ct_step mutex_example (\<lambda>i. True))\<^sup>*\<^sup>* s t \<longrightarrow> (\<exists>u. ct_step mutex_example (\<lambda>i. True) t u)
         \<or> mpc t = Finished \<and> counter t = 2 \<and> printed_values t = [1, 2])
    \<and> (\<forall>n t. (ct_step pthread_join_example (\<lambda>i. True) ^^ n) s t \<longrightarrow> n \<le> 72)
    \<and> (\<forall>t. (ct_step pthread_join_example (\<lambda>i. True))\<^sup>*\<^sup>* s t \<longrightarrow> (\<exists>u. ct_step pthread_join_example (\<lambda>i. True) t u)
         \<or> mpc t = Finished \<and> counter t = 10 \<and> printed_values t = [10])"
proof (intro conjI allI impI)
  note inv = ct_inv_init [OF assms]
  show "n \<le> 16" if "(ct_step mutex_example (\<lambda>i. True) ^^ n) s t" for n t
    using mutex_run.run_bounded [OF that inv] ct_measure_init [OF assms] by (simp add: mutex_example_def)
  show "n \<le> 72" if "(ct_step pthread_join_example (\<lambda>i. True) ^^ n) s t" for n t
    using join_run.run_bounded [OF that inv] ct_measure_init [OF assms] by (simp add: pthread_join_example_def)
  show "(\<exists>u. ct_step mutex_example (\<lambda>i. True) t u) \<or> mpc t = Finished \<and> counter t = 2 \<and> printed_values t = [1, 2]"
    if "(ct_step mutex_example (\<lambda>i. True))\<^sup>*\<^sup>* s t" for t
  proof -
    note t = mutex_run.inv_run [OF that inv]
    have "[1..2] = [1, 2 :: int]" by (simp add: upto_rec1)
    with ct_final_result [OF t] mutex_run.progress [OF t] show ?thesis by (auto simp: mutex_example_def)
  qed
  show "(\<exists>u. ct_step pthread_join_example (\<lambda>i. True) t u) \<or> mpc t = Finished \<and> counter t = 10 \<and> printed_values t = [10]"
    if "(ct_step pthread_join_example (\<lambda>i. True))\<^sup>*\<^sup>* s t" for t
  proof -
    note t = join_run.inv_run [OF that inv]
    from ct_final_result [OF t] join_run.progress [OF t] show ?thesis by (auto simp: pthread_join_example_def)
  qed
qed

theorem counter_programs_end_witness:
  "\<exists>s t. ct_init s \<and> (ct_step mutex_example (\<lambda>i. True))\<^sup>*\<^sup>* s t \<and> counter t = 2 \<and> printed_values t = [1, 2]"
proof -
  obtain s where s: "ct_init s" by (simp add: ct_init_def)
  from mutex_run.reaches_final [OF ct_inv_init [OF s]] obtain t where
    t: "(ct_step mutex_example (\<lambda>i. True))\<^sup>*\<^sup>* s t" "ct_final t" by blast
  have inv: "ct_inv mutex_example (\<lambda>i. True) t" by (rule mutex_run.inv_run [OF t(1) ct_inv_init [OF s]])
  have "\<nexists>u. ct_step mutex_example (\<lambda>i. True) t u"
    using finished_stuck [OF inv ct_final_result(1) [OF inv t(2)]] by blast
  with counter_programs_end [OF s] s t(1) show ?thesis by blast
qed

text \<open>
  When a thread cannot be created, the counting programs never finish in order: whatever the
  schedule, \<^verbatim>\<open>main\<close> gets to \<^verbatim>\<open>pthread_join\<close> with a variable that was never set.
\<close>

theorem join_of_missing_thread:
  assumes "ct_init s" and "P = mutex_example \<or> P = pthread_join_example"
    and "i < n_threads P" and "\<not> creates i" and "(ct_step P creates)\<^sup>*\<^sup>* s t"
  shows "mpc t \<noteq> Finished \<and> ((\<exists>u. ct_step P creates t u) \<or> mpc t = Undefined Uninitialised)"
proof -
  have inv: "ct_inv P creates t"
    using assms(2,5) mutex_run.inv_run join_run.inv_run ct_inv_init [OF assms(1)] by blast
  have nf: "mpc t \<noteq> Finished"
  proof
    assume fin: "mpc t = Finished"
    have "ct_main_inv P creates t" using inv by (simp add: ct_inv_def)
    then have "tpc t i = Returned" "ct_created creates t (n_threads P)"
      using fin assms(3) by (simp_all add: ct_main_inv_def)
    then show False using assms(4) unfolding ct_created_def by (metis tpos.distinct)
  qed
  have "n_threads P \<le> 2147483647" using assms(2) by (auto simp: mutex_example_def pthread_join_example_def)
  with nf ct_progress [OF inv] undefined_why [OF assms(5,1)] show ?thesis by (auto simp: ct_final_def)
qed

theorem join_of_missing_thread_witness:
  "\<exists>s t. ct_init s \<and> (ct_step mutex_example (\<lambda>i. i = 0))\<^sup>*\<^sup>* s t \<and> mpc t = Undefined Uninitialised"
proof -
  obtain s where s: "ct_init s" by (simp add: ct_init_def)
  from mutex_run.reaches_final [OF ct_inv_init [OF s]] obtain t where
    t: "(ct_step mutex_example (\<lambda>i. i = 0))\<^sup>*\<^sup>* s t" "ct_final t" by blast
  have "1 < n_threads mutex_example" by (simp add: mutex_example_def)
  from join_of_missing_thread [OF s disjI1 [OF refl] this _ t(1)] have "mpc t \<noteq> Finished" by simp
  with t(2) obtain e where e: "mpc t = Undefined e" by (auto simp: ct_final_def)
  then have "mpc t = Undefined Uninitialised" using undefined_why [OF t(1) s] by simp
  with s t(1) show ?thesis by blast
qed

text \<open>
  \<^verbatim>\<open>hello_pthread.c\<close> prints the message of each thread once, in either order, if both are created;
  if the first is not, it says so; if only the second is not, this goes unnoticed, because the first
  result is tested twice, and a thread that does not exist is joined.
\<close>

theorem hello_pthread_results:
  "hello_main 0 0 swap = Inr (0, if swap then [''Thread 2'', ''Thread 1''] else [''Thread 1'', ''Thread 2''])"
  "iret1 \<noteq> 0 \<Longrightarrow> hello_main iret1 iret2 swap = Inr (0, [''pthread_create thread failed!''])"
  "iret2 \<noteq> 0 \<Longrightarrow> hello_main 0 iret2 swap = Inl Uninitialised"
  by (simp_all add: hello_main_def)

end
