(* ===== verification/Thpool_Test.thy ===== *)
theory Thpool_Test
  imports C_Prelude Step_Systems
begin

text \<open>
  The jobs of \<^verbatim>\<open>common/thpool_test.c\<close>: three workers of the pool execute \<^verbatim>\<open>increment\<close> on the same
  structure at the same time, without a mutex. A comparison, the load and the store of
  \<^verbatim>\<open>handle->number++\<close> are separate steps, so that increments can be lost.

  \<^verbatim>\<open>thpool_wait\<close> of theory \<open>Pool_Wait\<close> returns if the jobs return; that these do under every schedule is
  what is shown here. A job that has not been taken by a worker yet is a job before its first step.
\<close>

section \<open>The jobs\<close>

text \<open>A job is before its comparison, before the load, before the store of \<open>v + 1\<close>, or has returned.\<close>

datatype jpos = JCheck | JLoad | JStore int | JDone

record handle_t =
  number :: int
  limit :: int
  jpc :: "nat \<Rightarrow> jpos"

definition n_jobs :: nat where "n_jobs = 3"

inductive increment :: "nat \<Rightarrow> handle_t \<Rightarrow> handle_t \<Rightarrow> bool" for i where
  i_check: "jpc s i = JCheck \<Longrightarrow>
    increment i s (s\<lparr>jpc := (jpc s)(i := if number s < limit s then JLoad else JDone)\<rparr>)"
| i_load: "jpc s i = JLoad \<Longrightarrow> increment i s (s\<lparr>jpc := (jpc s)(i := JStore (number s))\<rparr>)"
| i_store: "jpc s i = JStore v \<Longrightarrow> c_int (v + 1) = Inr w \<Longrightarrow>
    increment i s (s\<lparr>number := w, jpc := (jpc s)(i := JCheck)\<rparr>)"

definition jobs_step :: "handle_t \<Rightarrow> handle_t \<Rightarrow> bool" where
  "jobs_step s t \<longleftrightarrow> (\<exists>i < n_jobs. increment i s t)"

text \<open>The state in which \<^verbatim>\<open>main\<close> adds the jobs; the program has \<open>L = 1000\<close>.\<close>

definition handle_init :: "int \<Rightarrow> handle_t" where
  "handle_init L = \<lparr>number = 0, limit = L, jpc = (\<lambda>i. JCheck)\<rparr>"

definition jobs_init :: "handle_t \<Rightarrow> bool" where
  "jobs_init s \<longleftrightarrow> (\<exists>L. 0 \<le> L \<and> L \<le> 1000000000 \<and> s = handle_init L)"

definition jobs_returned :: "handle_t \<Rightarrow> bool" where
  "jobs_returned s \<longleftrightarrow> (\<forall>i < n_jobs. jpc s i = JDone)"

inductive_cases incrementE: "increment i s t"

section \<open>Invariant\<close>

text \<open>
  A value that was loaded early can be stored late and set the number back, which lets jobs
  that were about to return go on. What limits the number all the same is the smallest value
  that is still around: while the number is below the limit, every value to be stored exceeds
  each pending low value by less than the limit.
\<close>

definition to_store :: "handle_t \<Rightarrow> int set" where
  "to_store s = {v. \<exists>i < n_jobs. jpc s i = JStore v}"

definition loading :: "handle_t \<Rightarrow> int" where
  "loading s = cnt (\<lambda>p. p = JLoad) n_jobs (jpc s)"

definition bounded :: "int \<Rightarrow> int \<Rightarrow> int \<Rightarrow> int set \<Rightarrow> bool" where
  "bounded L x n H \<longleftrightarrow>
     (if x < L then \<forall>v \<in> H. v + 1 \<le> L + x \<and> (\<forall>w \<in> H. w + 1 < L \<longrightarrow> v + 1 \<le> L + w)
      else x + n \<le> 2 * L + 1 \<and> (\<forall>v \<in> H. v + 1 + n \<le> 2 * L + 1)
           \<and> (\<forall>w \<in> H. w + 1 < L \<longrightarrow> x + n \<le> L + w + 1 \<and> (\<forall>v \<in> H. v + 1 + n \<le> L + w + 1)))"

definition jobs_inv :: "handle_t \<Rightarrow> bool" where
  "jobs_inv s \<longleftrightarrow> 0 \<le> number s \<and> 0 \<le> limit s \<and> limit s \<le> 1000000000 \<and> (\<forall>v \<in> to_store s. 0 \<le> v)
     \<and> bounded (limit s) (number s) (loading s) (to_store s)
     \<and> (number s \<ge> limit s \<longrightarrow> (\<exists>i < n_jobs. jpc s i = JCheck \<or> jpc s i = JDone))
     \<and> (number s < limit s \<longrightarrow> \<not> jobs_returned s)"

text \<open>The two other jobs.\<close>

lemma other_jobs:
  assumes "i < n_jobs"
  obtains j k where "\<And>m. m < n_jobs \<longleftrightarrow> m = i \<or> m = j \<or> m = k" and "j \<noteq> i" and "k \<noteq> i" and "j \<noteq> k"
    and "\<And>P (w :: nat \<Rightarrow> jpos). cnt P n_jobs w = of_bool (P (w i)) + of_bool (P (w j)) + of_bool (P (w k))"
proof -
  have three: "m < n_jobs \<longleftrightarrow> m = 0 \<or> m = 1 \<or> m = 2" for m by (auto simp: n_jobs_def)
  have cnt3: "cnt P n_jobs w = of_bool (P (w 0)) + of_bool (P (w 1)) + of_bool (P (w 2))" for P and w :: "nat \<Rightarrow> jpos"
    by (simp add: n_jobs_def eval_nat_numeral cnt_Suc)
  from assms consider "i = 0" | "i = 1" | "i = 2" by (auto simp: three)
  then show thesis
  proof cases
    case 1
    show ?thesis by (rule that [of 1 2]) (auto simp: 1 three cnt3)
  next
    case 2
    show ?thesis by (rule that [of 0 2]) (auto simp: 2 three cnt3)
  next
    case 3
    show ?thesis by (rule that [of 0 1]) (auto simp: 3 three cnt3)
  qed
qed

lemma bounded_load:
  assumes "bounded L x n H" and "0 \<le> x" and "\<forall>v \<in> H. 0 \<le> v" and "H' \<subseteq> insert x H"
    and "L \<le> x \<Longrightarrow> n' = n - 1"
  shows "bounded L x n' H'"
proof (cases "x < L")
  case True
  have b: "v + 1 \<le> L + x" "w \<in> H \<Longrightarrow> w + 1 < L \<Longrightarrow> v + 1 \<le> L + w" if "v \<in> H" for v w
    using assms(1) True that by (auto simp: bounded_def)
  have "v + 1 \<le> L + x \<and> (w \<in> H' \<longrightarrow> w + 1 < L \<longrightarrow> v + 1 \<le> L + w)" if "v \<in> H'" for v w
  proof (cases "v = x")
    case True
    with \<open>x < L\<close> assms(2,3,4) show ?thesis by force
  next
    case False
    then have v: "v \<in> H" using that assms(4) by auto
    show ?thesis using b(1) [OF v] b(2) [OF v, of w] assms(4) by auto
  qed
  with True show ?thesis by (simp add: bounded_def)
next
  case False
  then have b: "x + n \<le> 2 * L + 1" "v \<in> H \<Longrightarrow> v + 1 + n \<le> 2 * L + 1"
    "w \<in> H \<Longrightarrow> w + 1 < L \<Longrightarrow> x + n \<le> L + w + 1"
    "w \<in> H \<Longrightarrow> w + 1 < L \<Longrightarrow> v \<in> H \<Longrightarrow> v + 1 + n \<le> L + w + 1" for v w
    using assms(1) by (auto simp: bounded_def)
  have n: "n' = n - 1" using assms(5) False by simp
  have "v + 1 + n' \<le> 2 * L + 1" if "v \<in> H'" for v
    using that assms(4) b(1) b(2) [of v] n by (cases "v = x") auto
  moreover have "x + n' \<le> L + w + 1 \<and> (v \<in> H' \<longrightarrow> v + 1 + n' \<le> L + w + 1)"
    if "w \<in> H'" "w + 1 < L" for v w
  proof -
    have w: "w \<in> H" using that assms(4) False by auto
    show ?thesis using b(3) [OF w that(2)] b(4) [OF w that(2), of v] assms(4) n by (cases "v = x") auto
  qed
  ultimately show ?thesis using b(1) n False by (simp add: bounded_def)
qed

lemma bounded_store:
  assumes "bounded L x n H" and "0 \<le> x" and "v \<in> H" and "H' \<subseteq> H" and "n \<le> 2"
    and "\<And>w. w \<in> H' \<Longrightarrow> n \<le> 1"
    and "\<And>w. L \<le> x \<Longrightarrow> n \<le> 0 \<Longrightarrow> w \<in> H' \<Longrightarrow> H' \<subseteq> {w}" and "\<forall>v \<in> H. 0 \<le> v" and "0 \<le> n"
  shows "bounded L (v + 1) n H'"
proof (cases "v + 1 < L")
  case True
  have "u + 1 \<le> L + (v + 1)" if "u \<in> H'" for u
    using assms(1,3,4,9) True that by (cases "x < L") (fastforce simp: bounded_def)+
  moreover have "u + 1 \<le> L + w" if "u \<in> H'" "w \<in> H'" "w + 1 < L" for u w
  proof (cases "x < L")
    case True
    then show ?thesis using assms(1,4) that by (auto simp: bounded_def)
  next
    case False
    then have *: "u + 1 + n \<le> L + w + 1" using assms(1,4) that by (auto simp: bounded_def)
    show ?thesis
    proof (cases "n \<le> 0")
      case True
      then have "u = w" using assms(7) [of w] False that by auto
      moreover have "0 \<le> w" using assms(4,8) that by auto
      ultimately show ?thesis using that(3) by simp
    qed (use * in simp)
  qed
  ultimately show ?thesis using True by (simp add: bounded_def)
next
  case False
  have n1: "n \<le> 1" if "w \<in> H'" for w using assms(6) that by blast
  show ?thesis
  proof (cases "x < L")
    case True
    then have b: "u + 1 \<le> L + x" "w \<in> H \<Longrightarrow> w + 1 < L \<Longrightarrow> u + 1 \<le> L + w" if "u \<in> H" for u w
      using assms(1) that by (auto simp: bounded_def)
    have "v + 1 + n \<le> 2 * L + 1" using b(1) [OF assms(3)] True assms(5) by simp
    moreover have "u + 1 + n \<le> 2 * L + 1" if "u \<in> H'" for u
      using b(1) [of u] n1 [OF that] that assms(4) True by auto
    moreover have "v + 1 + n \<le> L + w + 1" "u \<in> H' \<Longrightarrow> u + 1 + n \<le> L + w + 1"
      if "w \<in> H'" "w + 1 < L" for w u
      using b(2) [of v w] b(2) [of u w] n1 [OF that(1)] that assms(3) subsetD [OF assms(4), of w]
        subsetD [OF assms(4), of u] by auto
    ultimately show ?thesis using False by (simp add: bounded_def)
  next
    case xL: False
    with assms(1,3,4) False show ?thesis unfolding bounded_def by (auto simp: subset_iff)
  qed
qed

lemma held_split:
  assumes "i < n_jobs"
  shows "to_store s = {v. \<exists>m < n_jobs. m \<noteq> i \<and> jpc s m = JStore v} \<union> {v. jpc s i = JStore v}"
proof -
  have "(\<exists>m < n_jobs. jpc s m = JStore v) \<longleftrightarrow> (\<exists>m < n_jobs. m \<noteq> i \<and> jpc s m = JStore v) \<or> jpc s i = JStore v" for v
    using assms by blast
  then show ?thesis unfolding to_store_def by blast
qed

lemma jobs_inv_facts:
  assumes "jobs_inv s"
  shows "0 \<le> number s" and "\<forall>v \<in> to_store s. 0 \<le> v" and "bounded (limit s) (number s) (loading s) (to_store s)"
  using assms by (simp_all add: jobs_inv_def)

lemma jobs_inv_check:
  assumes inv: "jobs_inv s" and i: "i < n_jobs" and pc: "jpc s i = JCheck"
  shows "jobs_inv (s\<lparr>jpc := (jpc s)(i := if number s < limit s then JLoad else JDone)\<rparr>)"
    (is "jobs_inv ?t")
proof -
  have "to_store ?t = to_store s" using pc by (auto simp: held_split [OF i])
  moreover have "loading ?t = loading s" if "\<not> number s < limit s"
    using that pc by (simp add: loading_def cnt_upd [OF i])
  moreover have "\<not> jobs_returned ?t" if "number s < limit s"
    using that i by (auto simp: jobs_returned_def intro!: exI [of _ i])
  ultimately show ?thesis using inv i
    by (auto simp: jobs_inv_def bounded_def)
qed

lemma jobs_inv_load:
  assumes inv: "jobs_inv s" and i: "i < n_jobs" and pc: "jpc s i = JLoad"
  shows "jobs_inv (s\<lparr>jpc := (jpc s)(i := JStore (number s))\<rparr>)"
    (is "jobs_inv ?t")
proof -
  have h: "to_store ?t \<subseteq> insert (number s) (to_store s)" by (auto simp: held_split [OF i])
  have "loading ?t = loading s - 1" using pc by (simp add: loading_def cnt_upd [OF i])
  with jobs_inv_facts [OF inv] have "bounded (limit s) (number s) (loading ?t) (to_store ?t)"
    by (intro bounded_load [OF _ _ _ h]) simp_all
  moreover have "\<forall>v \<in> to_store ?t. 0 \<le> v" using h inv by (auto simp: jobs_inv_def)
  moreover have "\<exists>m < n_jobs. jpc ?t m = JCheck \<or> jpc ?t m = JDone" if le: "number s \<ge> limit s"
  proof -
    from inv le obtain m where m: "m < n_jobs" "jpc s m = JCheck \<or> jpc s m = JDone"
      by (auto simp: jobs_inv_def)
    with pc have "m \<noteq> i" by auto
    with m show ?thesis by (intro exI [of _ m]) simp
  qed
  moreover have "\<not> jobs_returned ?t" using i by (auto simp: jobs_returned_def intro!: exI [of _ i])
  ultimately show ?thesis using inv by (simp add: jobs_inv_def)
qed

lemma jobs_inv_store:
  assumes inv: "jobs_inv s" and i: "i < n_jobs" and pc: "jpc s i = JStore v"
  shows "jobs_inv (s\<lparr>number := v + 1, jpc := (jpc s)(i := JCheck)\<rparr>)"
    (is "jobs_inv ?t")
proof -
  from other_jobs [OF i] obtain j k where jk: "\<And>m. m < n_jobs \<longleftrightarrow> m = i \<or> m = j \<or> m = k"
    "j \<noteq> i" "k \<noteq> i" "j \<noteq> k"
    and c: "\<And>P (w :: nat \<Rightarrow> jpos). cnt P n_jobs w = of_bool (P (w i)) + of_bool (P (w j)) + of_bool (P (w k))" by blast
  have v: "v \<in> to_store s" using i pc by (auto simp: to_store_def)
  have ht: "to_store ?t = {u. jpc s j = JStore u \<or> jpc s k = JStore u}"
    using jk(2,3) by (auto simp: to_store_def jk(1))
  have hs: "to_store ?t \<subseteq> to_store s" using jk(1) by (auto simp: ht to_store_def)
  have lt: "loading ?t = loading s" using pc by (simp add: loading_def cnt_upd [OF i])
  have ls: "loading s = of_bool (jpc s j = JLoad) + of_bool (jpc s k = JLoad)"
    using pc by (simp add: loading_def c)
  have one: "loading s \<le> 1" if "w \<in> to_store ?t" for w using that by (auto simp: ls ht)
  have alone: "to_store ?t \<subseteq> {w}" if "limit s \<le> number s" "loading s \<le> 0" "w \<in> to_store ?t" for w
  proof -
    have "\<exists>m < n_jobs. jpc s m = JCheck \<or> jpc s m = JDone" using inv that(1) by (simp add: jobs_inv_def)
    then have "jpc s j = JCheck \<or> jpc s j = JDone \<or> jpc s k = JCheck \<or> jpc s k = JDone"
      using pc by (auto simp: jk(1))
    with that(3) show ?thesis by (auto simp: ht)
  qed
  have "bounded (limit s) (v + 1) (loading ?t) (to_store ?t)"
    unfolding lt
    by (rule bounded_store [OF jobs_inv_facts(3,1) [OF inv] v hs _ one alone jobs_inv_facts(2) [OF inv]])
      (simp_all add: ls)
  moreover have "\<forall>u \<in> to_store ?t. 0 \<le> u" "0 \<le> v" using hs v inv by (auto simp: jobs_inv_def)
  moreover have "\<exists>m < n_jobs. jpc ?t m = JCheck \<or> jpc ?t m = JDone" using i by (intro exI [of _ i]) simp
  moreover have "\<not> jobs_returned ?t" using i by (auto simp: jobs_returned_def intro!: exI [of _ i])
  ultimately show ?thesis using inv by (simp add: jobs_inv_def)
qed

text \<open>No value to be stored exceeds twice the limit, so that no increment overflows.\<close>

lemma to_store_bound:
  assumes "jobs_inv s" and "v \<in> to_store s"
  shows "v + 1 \<le> 2 * limit s + 1" and "c_int (v + 1) = Inr (v + 1)"
proof -
  have "0 \<le> loading s" by (simp add: loading_def cnt_nonneg)
  then show *: "v + 1 \<le> 2 * limit s + 1"
    using assms by (cases "number s < limit s") (auto simp: jobs_inv_def bounded_def)
  show "c_int (v + 1) = Inr (v + 1)"
    using * assms by (intro c_int_ok) (auto simp: jobs_inv_def int_range_defs)
qed

lemma jobs_inv_step:
  assumes "jobs_inv s" and "jobs_step s t"
  shows "jobs_inv t"
proof -
  from assms(2) obtain i where i: "i < n_jobs" "increment i s t" by (auto simp: jobs_step_def)
  from i(2) show ?thesis
  proof cases
    case i_check
    then show ?thesis using jobs_inv_check [OF assms(1) i(1)] by simp
  next
    case i_load
    then show ?thesis using jobs_inv_load [OF assms(1) i(1)] by simp
  next
    case (i_store v w)
    then have "w = v + 1" by (simp add: c_int_eq_Inr_iff)
    then show ?thesis using i_store jobs_inv_store [OF assms(1) i(1)] by simp
  qed
qed

lemma jobs_inv_init: "jobs_init s \<Longrightarrow> jobs_inv s"
  by (auto simp: jobs_init_def handle_init_def jobs_inv_def to_store_def loading_def bounded_def
      jobs_returned_def n_jobs_def eval_nat_numeral cnt_Suc)

section \<open>Termination\<close>

text \<open>
  A job about to load or to compare is worth what the number lets it do; a job about to store is
  worth what the value it holds allows. A store can raise the worth of the other jobs, but only
  below the worth of the stored value, which is used up: with base 5 and three jobs the sum of
  the powers decreases.
\<close>

fun rank :: "int \<Rightarrow> int \<Rightarrow> jpos \<Rightarrow> nat" where
  "rank L x JCheck = (if x < L then 4 * nat (L - x) + 2 else 1)"
| "rank L x JLoad = (if x < L then 4 * nat (L - x) + 1 else 3)"
| "rank L x (JStore v) = (if v < L then 4 * nat (L - v) else 2)"
| "rank L x JDone = 0"

definition worth :: "int \<Rightarrow> int \<Rightarrow> jpos \<Rightarrow> int" where
  "worth L x p = 5 ^ rank L x p"

definition jobs_measure :: "handle_t \<Rightarrow> nat" where
  "jobs_measure s = nat (total (worth (limit s) (number s)) n_jobs (jpc s))"

lemma worth_pos: "0 < worth L x p"
  by (simp add: worth_def)

lemma measure_less:
  assumes "total (worth (limit t) (number t)) n_jobs (jpc t) < total (worth (limit s) (number s)) n_jobs (jpc s)"
  shows "jobs_measure t < jobs_measure s"
proof -
  have "0 \<le> total (worth (limit t) (number t)) n_jobs (jpc t)"
    by (rule total_nonneg) (simp add: worth_def)
  with assms show ?thesis by (simp add: jobs_measure_def)
qed

lemma worth_less: "rank L x p < rank L y q \<Longrightarrow> worth L x p < worth L y q"
  by (simp add: worth_def)

lemma rank_store: "rank L (v + 1) p \<le> rank L x p \<or> rank L (v + 1) p < rank L x (JStore v)"
  by (cases p) auto

lemma rank_store_check: "rank L (v + 1) JCheck < rank L x (JStore v)"
  by auto

lemma worth_store:
  "worth L (v + 1) p \<le> worth L x p + 5 ^ (rank L x (JStore v) - 1)"
proof (cases "rank L (v + 1) p \<le> rank L x p")
  case True
  then have "worth L (v + 1) p \<le> worth L x p" by (simp add: worth_def)
  moreover have "(0 :: int) \<le> 5 ^ (rank L x (JStore v) - 1)" by simp
  ultimately show ?thesis by linarith
next
  case False
  then have "rank L (v + 1) p \<le> rank L x (JStore v) - 1" using rank_store [of L v p x] by linarith
  then have "worth L (v + 1) p \<le> 5 ^ (rank L x (JStore v) - 1)"
    unfolding worth_def by (rule power_increasing) simp
  then show ?thesis using worth_pos [of L x p] by linarith
qed

lemma jobs_measure_step:
  assumes "jobs_step s t"
  shows "jobs_measure t < jobs_measure s"
proof (rule measure_less)
  from assms obtain i where i: "i < n_jobs" "increment i s t" by (auto simp: jobs_step_def)
  let ?L = "limit s" and ?x = "number s"
  from i(2) show "total (worth (limit t) (number t)) n_jobs (jpc t) < total (worth ?L ?x) n_jobs (jpc s)"
  proof cases
    case i_check
    have "worth ?L ?x (if ?x < ?L then JLoad else JDone) < worth ?L ?x JCheck"
      by (rule worth_less) simp
    with i_check show ?thesis by (simp add: total_upd [OF i(1)])
  next
    case i_load
    have "worth ?L ?x (JStore ?x) < worth ?L ?x JLoad" by (rule worth_less) simp
    with i_load show ?thesis by (simp add: total_upd [OF i(1)])
  next
    case (i_store v w)
    define R where "R = rank ?L ?x (JStore v)"
    have w: "w = v + 1" using i_store by (simp add: c_int_eq_Inr_iff)
    have R: "R = Suc (R - 1)" by (simp add: R_def)
    have "worth ?L w p \<le> worth ?L ?x p + 5 ^ (R - 1)" for p
      unfolding w R_def by (rule worth_store)
    then have "total (worth ?L w) n_jobs (jpc s) \<le> total (worth ?L ?x) n_jobs (jpc s) + int n_jobs * 5 ^ (R - 1)"
      by (rule total_add)
    moreover have "rank ?L w JCheck \<le> R - 1"
      using rank_store_check [of ?L v ?x] unfolding w R_def by linarith
    then have "worth ?L w JCheck \<le> 5 ^ (R - 1)" unfolding worth_def by (rule power_increasing) simp
    moreover have "worth ?L w (JStore v) = 5 * 5 ^ (R - 1)"
      using R by (simp add: worth_def R_def flip: power_Suc)
    moreover have "(0 :: int) < 5 ^ (R - 1)" by simp
    moreover have "total (worth ?L w) n_jobs ((jpc s)(i := JCheck))
        = total (worth ?L w) n_jobs (jpc s) - worth ?L w (JStore v) + worth ?L w JCheck"
      using i_store(2) by (simp add: total_upd [OF i(1)])
    moreover have "int n_jobs * 5 ^ (R - 1) = 3 * 5 ^ (R - 1)" by (simp add: n_jobs_def)
    ultimately have "total (worth ?L w) n_jobs ((jpc s)(i := JCheck)) < total (worth ?L ?x) n_jobs (jpc s)"
      by linarith
    with i_store show ?thesis by simp
  qed
qed

lemma job_progress:
  assumes "jobs_inv s" and "i < n_jobs" and "jpc s i \<noteq> JDone"
  shows "\<exists>t. increment i s t"
proof (cases "jpc s i")
  case (JStore v)
  then have "v \<in> to_store s" using assms(2) by (auto simp: to_store_def)
  from to_store_bound(2) [OF assms(1) this] JStore show ?thesis by (blast intro: i_store)
qed (use assms in \<open>auto intro: increment.intros\<close>)

lemma jobs_progress:
  assumes "jobs_inv s" and "\<not> jobs_returned s"
  shows "\<exists>t. jobs_step s t"
proof -
  from assms(2) obtain i where i: "i < n_jobs" "jpc s i \<noteq> JDone" by (auto simp: jobs_returned_def)
  with job_progress [OF assms(1) i] show ?thesis by (auto simp: jobs_step_def)
qed

interpretation jobs: terminating_system jobs_init jobs_step jobs_inv jobs_returned jobs_measure
  by unfold_locales (auto intro: jobs_inv_init jobs_inv_step jobs_progress jobs_measure_step)

section \<open>Properties\<close>

lemma jobs_step_limit: "jobs_step\<^sup>*\<^sup>* s t \<Longrightarrow> limit t = limit s"
  by (induction rule: rtranclp_induct) (auto simp: jobs_step_def elim!: incrementE)

lemma handle_init_inv: "0 \<le> L \<Longrightarrow> L \<le> 1000000000 \<Longrightarrow> jobs_inv (handle_init L)"
  by (rule jobs_inv_init) (auto simp: jobs_init_def)

lemma number_bound:
  assumes "jobs_inv s"
  shows "number s \<le> 2 * limit s + 1"
proof -
  have "0 \<le> loading s" by (simp add: loading_def cnt_nonneg)
  then show ?thesis using assms by (cases "number s < limit s") (auto simp: jobs_inv_def bounded_def)
qed

text \<open>
  The three jobs of \<^verbatim>\<open>thpool_test.c\<close> return under every schedule, although increments can be lost:
  there is a bound on the number of their steps, and where no step is possible all have returned
  and the number has reached the limit.
\<close>

theorem racing_jobs_return:
  assumes "0 \<le> L" and "L \<le> 1000000000"
  shows "(\<exists>b. \<forall>n t. (jobs_step ^^ n) (handle_init L) t \<longrightarrow> n \<le> b)
    \<and> (\<forall>t. jobs_step\<^sup>*\<^sup>* (handle_init L) t \<longrightarrow> (\<exists>u. jobs_step t u) \<or> jobs_returned t \<and> L \<le> number t)"
proof -
  note inv = handle_init_inv [OF assms]
  have "\<forall>n t. (jobs_step ^^ n) (handle_init L) t \<longrightarrow> n \<le> jobs_measure (handle_init L)"
    using jobs.run_bounded [OF _ inv] by fastforce
  moreover have "(\<exists>u. jobs_step t u) \<or> jobs_returned t \<and> L \<le> number t"
    if run: "jobs_step\<^sup>*\<^sup>* (handle_init L) t" for t
  proof -
    have t: "jobs_inv t" by (rule jobs.inv_run [OF run inv])
    moreover have "limit t = L" using jobs_step_limit [OF run] by (simp add: handle_init_def)
    ultimately show ?thesis using jobs.progress [OF t] by (auto simp: jobs_inv_def)
  qed
  ultimately show ?thesis by blast
qed

lemma returned_stuck: "jobs_returned s \<Longrightarrow> \<not> jobs_step s t"
  by (auto simp: jobs_returned_def jobs_step_def elim!: incrementE)

theorem racing_jobs_return_witness:
  "\<exists>t. jobs_step\<^sup>*\<^sup>* (handle_init 1000) t \<and> jobs_returned t \<and> 1000 \<le> number t"
proof -
  have "jobs_inv (handle_init 1000)" by (rule handle_init_inv) simp_all
  from jobs.reaches_final [OF this] obtain t where
    t: "jobs_step\<^sup>*\<^sup>* (handle_init 1000) t" "jobs_returned t" by blast
  with racing_jobs_return [of 1000] returned_stuck [OF t(2)] show ?thesis by auto
qed

text \<open>
  C17: at any time the number is between 0 and twice the limit plus 1, and so are the values that
  jobs are about to store: the increments do not overflow. More than the limit is possible, even
  more than one extra increment per job, because a late store sets the number back and lets
  other jobs pass the comparison again.
\<close>

theorem racing_jobs_bounds:
  assumes "0 \<le> L" and "L \<le> 1000000000" and "jobs_step\<^sup>*\<^sup>* (handle_init L) t"
  shows "0 \<le> number t \<and> number t \<le> 2 * L + 1
    \<and> (\<forall>i < n_jobs. \<forall>v. jpc t i = JStore v \<longrightarrow> 0 \<le> v \<and> v + 1 \<le> 2 * L + 1 \<and> in_int (v + 1))"
proof -
  have t: "jobs_inv t" by (rule jobs.inv_run [OF assms(3) handle_init_inv [OF assms(1,2)]])
  have l: "limit t = L" using jobs_step_limit [OF assms(3)] by (simp add: handle_init_def)
  have "number t \<le> 2 * L + 1" using number_bound [OF t] l by simp
  moreover have "0 \<le> v \<and> v + 1 \<le> 2 * L + 1 \<and> in_int (v + 1)" if "i < n_jobs" "jpc t i = JStore v" for i v
  proof -
    have "v \<in> to_store t" using that by (auto simp: to_store_def)
    then show ?thesis using jobs_inv_facts(2) [OF t] to_store_bound [OF t] l
      by (auto simp: c_int_eq_Inr_iff)
  qed
  ultimately show ?thesis using t by (simp add: jobs_inv_def)
qed

text \<open>A run of the jobs that takes the number beyond the limit: all three compare before the first store.\<close>

definition three_jobs :: "int \<Rightarrow> jpos \<Rightarrow> jpos \<Rightarrow> jpos \<Rightarrow> handle_t" where
  "three_jobs x a b c =
     \<lparr>number = x, limit = 1, jpc = (\<lambda>i. if i = 0 then a else if i = 1 then b else if i = 2 then c else JCheck)\<rparr>"

lemma job_moves:
  "jpc s i = JCheck \<Longrightarrow> i < n_jobs \<Longrightarrow> number s < limit s \<Longrightarrow> t = s\<lparr>jpc := (jpc s)(i := JLoad)\<rparr> \<Longrightarrow> jobs_step s t"
  "jpc s i = JLoad \<Longrightarrow> i < n_jobs \<Longrightarrow> t = s\<lparr>jpc := (jpc s)(i := JStore (number s))\<rparr> \<Longrightarrow> jobs_step s t"
  "jpc s i = JStore v \<Longrightarrow> i < n_jobs \<Longrightarrow> in_int (v + 1) \<Longrightarrow> t = s\<lparr>number := v + 1, jpc := (jpc s)(i := JCheck)\<rparr>
     \<Longrightarrow> jobs_step s t"
  unfolding jobs_step_def
  using i_check [of s i] i_load [of s i] i_store [of s i v "v + 1"] by auto

lemma first_job_moves:
  "jobs_step (three_jobs 0 JCheck b c) (three_jobs 0 JLoad b c)"
  "jobs_step (three_jobs x JLoad b c) (three_jobs x (JStore x) b c)"
  "in_int (v + 1) \<Longrightarrow> jobs_step (three_jobs x (JStore v) b c) (three_jobs (v + 1) JCheck b c)"
proof -
  show "jobs_step (three_jobs 0 JCheck b c) (three_jobs 0 JLoad b c)"
    by (rule job_moves(1) [of _ 0]) (simp_all add: three_jobs_def n_jobs_def fun_eq_iff)
  show "jobs_step (three_jobs x JLoad b c) (three_jobs x (JStore x) b c)"
    by (rule job_moves(2) [of _ 0]) (simp_all add: three_jobs_def n_jobs_def fun_eq_iff)
  show "jobs_step (three_jobs x (JStore v) b c) (three_jobs (v + 1) JCheck b c)" if "in_int (v + 1)"
    by (rule job_moves(3) [of _ 0]) (simp_all add: three_jobs_def n_jobs_def fun_eq_iff that)
qed

lemma second_job_moves:
  "jobs_step (three_jobs 0 a JCheck c) (three_jobs 0 a JLoad c)"
  "jobs_step (three_jobs x a JLoad c) (three_jobs x a (JStore x) c)"
  "in_int (v + 1) \<Longrightarrow> jobs_step (three_jobs x a (JStore v) c) (three_jobs (v + 1) a JCheck c)"
proof -
  show "jobs_step (three_jobs 0 a JCheck c) (three_jobs 0 a JLoad c)"
    by (rule job_moves(1) [of _ 1]) (simp_all add: three_jobs_def n_jobs_def fun_eq_iff)
  show "jobs_step (three_jobs x a JLoad c) (three_jobs x a (JStore x) c)"
    by (rule job_moves(2) [of _ 1]) (simp_all add: three_jobs_def n_jobs_def fun_eq_iff)
  show "jobs_step (three_jobs x a (JStore v) c) (three_jobs (v + 1) a JCheck c)" if "in_int (v + 1)"
    by (rule job_moves(3) [of _ 1]) (simp_all add: three_jobs_def n_jobs_def fun_eq_iff that)
qed

lemma third_job_moves:
  "jobs_step (three_jobs 0 a b JCheck) (three_jobs 0 a b JLoad)"
  "jobs_step (three_jobs x a b JLoad) (three_jobs x a b (JStore x))"
  "in_int (v + 1) \<Longrightarrow> jobs_step (three_jobs x a b (JStore v)) (three_jobs (v + 1) a b JCheck)"
proof -
  show "jobs_step (three_jobs 0 a b JCheck) (three_jobs 0 a b JLoad)"
    by (rule job_moves(1) [of _ 2]) (simp_all add: three_jobs_def n_jobs_def fun_eq_iff)
  show "jobs_step (three_jobs x a b JLoad) (three_jobs x a b (JStore x))"
    by (rule job_moves(2) [of _ 2]) (simp_all add: three_jobs_def n_jobs_def fun_eq_iff)
  show "jobs_step (three_jobs x a b (JStore v)) (three_jobs (v + 1) a b JCheck)" if "in_int (v + 1)"
    by (rule job_moves(3) [of _ 2]) (simp_all add: three_jobs_def n_jobs_def fun_eq_iff that)
qed

lemma overshoot:
  "jobs_step\<^sup>*\<^sup>* (handle_init 1) (three_jobs 3 JCheck JCheck JCheck)"
proof -
  note run = converse_rtranclp_into_rtranclp [of jobs_step]
  have "handle_init 1 = three_jobs 0 JCheck JCheck JCheck"
    by (simp add: handle_init_def three_jobs_def fun_eq_iff)
  moreover have r: "in_int (0 + 1)" "in_int (1 + 1)" "in_int (2 + 1)" by (simp_all add: int_range_defs)
  have "jobs_step\<^sup>*\<^sup>* (three_jobs 0 JCheck JCheck JCheck) (three_jobs (2 + 1) JCheck JCheck JCheck)"
    by (rule run [OF first_job_moves(1)], rule run [OF second_job_moves(1)], rule run [OF third_job_moves(1)],
        rule run [OF first_job_moves(2)], rule run [OF first_job_moves(3) [OF r(1)]],
        rule run [OF second_job_moves(2)], rule run [OF second_job_moves(3)], simp add: int_range_defs,
        rule run [OF third_job_moves(2)], rule run [OF third_job_moves(3)], simp add: int_range_defs,
        simp)
  ultimately show ?thesis by simp
qed

theorem racing_jobs_bounds_witness:
  "\<exists>t. jobs_step\<^sup>*\<^sup>* (handle_init 1) t \<and> number t = 3 \<and> number t \<le> 2 * 1 + 1"
proof -
  from racing_jobs_bounds [OF _ _ overshoot] have "number (three_jobs 3 JCheck JCheck JCheck) \<le> 2 * 1 + 1" by simp
  with overshoot show ?thesis
    by (intro exI [of _ "three_jobs 3 JCheck JCheck JCheck"]) (simp add: three_jobs_def)
qed

end
