(* ===== verification/Pool_Client.thy ===== *)
theory Pool_Client
  imports Pool_Wait Thpool_Test
begin

text \<open>
  A program that uses the thread pool: the pool of \<open>Thread_Pool\<close>, a client that makes a fixed
  sequence of calls, and jobs that take many steps on a state they share. In the pool by
  itself the call of a job is one step; here the worker makes the steps of the job first, mixed
  with the steps of all other threads, and leaves the call when the job has returned.

  The locale \<open>pool_jobs\<close> states what the pool relies on: the jobs can move until they return, and
  only finitely often. Under this contract every program of this kind ends. The instance is
  \<^verbatim>\<open>common/thpool_test.c\<close>.
\<close>

section \<open>The program\<close>

text \<open>The calls that the client still has to make after \<^verbatim>\<open>thpool_init\<close>.\<close>

datatype call = Add string nat | Wait

text \<open>
  The pool, the state that the jobs share, the number of the job that each worker runs (in the
  order in which the jobs are taken from the queue), and the rest of the client.
\<close>

record 'j joint =
  jpool :: pool
  shared :: 'j
  jobno :: "nat \<Rightarrow> nat"
  todo :: "call list"

text \<open>
  \<open>job k\<close> is a step of job \<open>k\<close>, and \<open>fin k\<close> tells whether it has returned. \<^verbatim>\<open>thpool_add_work\<close> may fail for
  lack of memory; the programs ignore its result. No program here pauses the pool, and wake-ups
  without a cause are left out, as in \<open>wait_step\<close>.
\<close>

inductive joint_step ::
  "(nat \<Rightarrow> 'j \<Rightarrow> 'j \<Rightarrow> bool) \<Rightarrow> (nat \<Rightarrow> 'j \<Rightarrow> bool) \<Rightarrow> 'j joint \<Rightarrow> 'j joint \<Rightarrow> bool" for job fin where
  j_job: "i < nthreads (jpool s) \<Longrightarrow> \<not> held (jpool s) i \<Longrightarrow> wpcs (jpool s) i = W_run a \<Longrightarrow>
    job (jobno s i) (shared s) j \<Longrightarrow> joint_step job fin s (s\<lparr>shared := j\<rparr>)"
| j_worker: "i < nthreads (jpool s) \<Longrightarrow> \<not> held (jpool s) i \<Longrightarrow> worker_step i (jpool s) p \<Longrightarrow>
    running (wpcs (jpool s) i) = None \<or> fin (jobno s i) (shared s) \<Longrightarrow>
    joint_step job fin s (s\<lparr>jpool := p,
      jobno := (if taken p = taken (jpool s) then jobno s else (jobno s)(i := length (taken (jpool s))))\<rparr>)"
| j_client: "client (jpool s) \<noteq> C_idle \<Longrightarrow> client_step (jpool s) p \<Longrightarrow> joint_step job fin s (s\<lparr>jpool := p\<rparr>)"
| j_add: "client (jpool s) = C_idle \<Longrightarrow> todo s = Add f x # cs \<Longrightarrow> client_step (jpool s) p \<Longrightarrow>
    submitted p = submitted (jpool s) @ [(f, x)] \<Longrightarrow> joint_step job fin s (s\<lparr>jpool := p, todo := cs\<rparr>)"
| j_add_fails: "client (jpool s) = C_idle \<Longrightarrow> todo s = Add f x # cs \<Longrightarrow>
    thpool_add_work None g (heap (jpool s), queue (jpool s)) f x = Inr (- 1, hq) \<Longrightarrow>
    joint_step job fin s (s\<lparr>todo := cs\<rparr>)"
| j_wait: "client (jpool s) = C_idle \<Longrightarrow> todo s = Wait # cs \<Longrightarrow>
    joint_step job fin s (s\<lparr>jpool := (jpool s)\<lparr>client := C_wait\<rparr>, todo := cs\<rparr>)"

definition joint_ended :: "'j joint \<Rightarrow> bool" where
  "joint_ended s \<longleftrightarrow> client (jpool s) = C_idle \<and> todo s = []"

section \<open>Effects of single steps\<close>

lemma worker_takes:
  assumes "worker_step i s t"
  shows "if taken t = taken s
     then running (wpcs t i) = None \<and> (\<forall>j. j \<noteq> i \<longrightarrow> running (wpcs t j) = running (wpcs s j))
     else (\<exists>e. taken t = taken s @ [e]) \<and> running (wpcs s i) = None \<and> running (wpcs t i) \<noteq> None
        \<and> (\<forall>j. j \<noteq> i \<longrightarrow> running (wpcs t j) = running (wpcs s j))"
  using assms
proof (cases rule: worker_step.cases)
  case (pull_some a h' q' j w')
  have "running (w' j) = running (((wpcs s)(i := W_run a)) j)" for j
    using wakes_classes(7) [OF pull_wakes [OF pull_some(5)]] .
  with pull_some show ?thesis by auto
qed (auto simp: pool_simps)

lemma worker_taken_queue:
  assumes "worker_step i s t" and "taken t \<noteq> taken s" and "inv_run s xs"
  shows "len (queue s) \<noteq> 0"
  using assms(1)
proof (cases rule: worker_step.cases)
  case (pull_some a h' q' j w')
  have m: "inv_mem s xs" using assms(3) by (simp add: inv_run_def)
  from pull_result(3) [OF inv_mem_queue [OF m] pull_some(3)] have "xs \<noteq> []" by auto
  then show ?thesis using inv_memD(1) [OF m] by (simp add: queue_of_def)
qed (use assms(2) in \<open>auto simp: pool_simps\<close>)

lemma worker_no_absent:
  assumes "worker_step i s t" and "\<forall>j < n. wpcs s j \<noteq> W_absent"
  shows "\<forall>j < n. wpcs t j \<noteq> W_absent"
  using assms
proof (cases rule: worker_step.cases)
  case (pull_some a h' q' j w')
  have "wpcs t k = W_absent \<longrightarrow> wpcs s k = W_absent" for k
    using pull_some(1,2,5) by (auto simp: woken_def split: if_splits)
  with assms(2) show ?thesis by blast
qed (auto simp: pool_simps)

lemma worker_client: "worker_step i s t \<Longrightarrow> client t = client s \<or> client s = C_sleep \<and> client t = C_wait"
  by (erule worker_step.cases) (auto simp: pool_simps)

lemma worker_submitted: "worker_step i s t \<Longrightarrow> submitted t = submitted s"
  by (erule worker_step.cases) (auto simp: pool_simps)

text \<open>The client while it is in \<^verbatim>\<open>thpool_init\<close> or \<^verbatim>\<open>thpool_wait\<close>.\<close>

lemma client_inside:
  assumes "client_step s t" and "client s = C_init \<or> waiting (client s)"
  shows "t = s\<lparr>client := client t\<rparr>" and "client t = C_idle \<or> waiting (client t)"
  using assms by (auto elim!: client_step.cases split: if_splits)

lemma client_adds:
  assumes "client_step s t" and "client s = C_idle" and "submitted t \<noteq> submitted s"
  shows "\<exists>a g f x h' q' w'. thpool_add_work (Some a) g (heap s, queue s) f x = Inr (0, (h', q'))
     \<and> heap s a = None \<and> woken (nthreads s) (wpcs s) w'
     \<and> t = s\<lparr>heap := h', queue := q', wpcs := w', submitted := submitted s @ [(f, x)]\<rparr>"
  using assms(1)
proof (cases rule: client_step.cases)
  case (add_work a g f x h' q' w')
  then show ?thesis by blast
qed (use assms(2,3) in simp_all)

section \<open>Invariant and measure\<close>

primrec adds :: "call list \<Rightarrow> nat" where
  "adds [] = 0"
| "adds (c # cs) = (case c of Add f x \<Rightarrow> 1 | Wait \<Rightarrow> 0) + adds cs"

text \<open>Every job that was taken has returned or is run by a worker.\<close>

definition jobs_accounted :: "(nat \<Rightarrow> 'j \<Rightarrow> bool) \<Rightarrow> 'j joint \<Rightarrow> bool" where
  "jobs_accounted fin s \<longleftrightarrow> (let p = jpool s in
     (\<forall>i < nthreads p. running (wpcs p i) \<noteq> None \<longrightarrow> jobno s i < length (taken p))
   \<and> (\<forall>k < length (taken p). fin k (shared s)
        \<or> (\<exists>i < nthreads p. running (wpcs p i) \<noteq> None \<and> jobno s i = k)))"

text \<open>The last call is \<^verbatim>\<open>thpool_wait\<close>; after it no job is left.\<close>

definition waits_last :: "'j joint \<Rightarrow> bool" where
  "waits_last s \<longleftrightarrow> (let p = jpool s in
     if todo s \<noteq> [] then last (todo s) = Wait
     else waiting (client p)
       \<or> client p = C_idle \<and> len (queue p) = 0 \<and> (\<forall>i < nthreads p. running (wpcs p i) = None))"

definition joint_inv :: "(nat \<Rightarrow> 'j \<Rightarrow> bool) \<Rightarrow> ('j \<Rightarrow> bool) \<Rightarrow> nat \<Rightarrow> 'j joint \<Rightarrow> bool" where
  "joint_inv fin jinv N s \<longleftrightarrow> (let p = jpool s in
     inv_pool p \<and> (client p = C_init \<or> client p = C_idle \<or> waiting (client p)) \<and> 0 < nthreads p
   \<and> (\<forall>i < nthreads p. wpcs p i \<noteq> W_absent) \<and> (\<forall>i. \<not> held p i)
   \<and> length (submitted p) + adds (todo s) \<le> N \<and> jinv (shared s) \<and> jobs_accounted fin s \<and> waits_last s)"

fun call_weight :: "call \<Rightarrow> nat" where
  "call_weight (Add f x) = 27"
| "call_weight Wait = 5"

definition joint_measure :: "('j \<Rightarrow> nat) \<Rightarrow> 'j joint \<Rightarrow> nat" where
  "joint_measure jm s = nat (effort (jpool s)) + of_bool (client (jpool s) = C_init)
     + sum_list (map call_weight (todo s)) + jm (shared s)"

lemma effort_nonneg:
  assumes "inv_run s xs"
  shows "0 \<le> effort s"
proof -
  have "0 \<le> len (queue s)" using assms by (simp add: inv_run_def inv_mem_def queue_of_def)
  moreover have "0 \<le> sem_value s" using assms by (auto simp: inv_run_def inv_live_def sem_value_def)
  moreover have "0 \<le> total weight (nthreads s) (wpcs s)" unfolding total_def by (simp add: sum_nonneg weight_nonneg)
  moreover have "0 \<le> cweight (client s)" by (cases "client s") simp_all
  ultimately show ?thesis by (simp add: effort_def)
qed

lemma queue_length: "inv_run s xs \<Longrightarrow> len (queue s) = int (length xs)"
  by (simp add: inv_run_def inv_mem_def queue_of_def)

lemma add_work_effort:
  assumes "inv_run s xs" and "client s = C_idle" and "heap s a = None"
    and "thpool_add_work (Some a) g (heap s, queue s) f x = Inr (0, (h', q'))" and "woken (nthreads s) (wpcs s) w'"
  shows "effort (s\<lparr>heap := h', queue := q', wpcs := w', submitted := submitted s @ [(f, x)]\<rparr>) \<le> effort s + 26"
proof -
  note run = inv_run_add_work [OF assms]
  have "sem_value (s\<lparr>heap := h', queue := q', wpcs := w', submitted := submitted s @ [(f, x)]\<rparr>) \<le> 1"
    using run by (auto simp: inv_run_def inv_live_def sem_value_def)
  moreover have "0 \<le> sem_value s" using assms(1) by (auto simp: inv_run_def inv_live_def sem_value_def)
  ultimately show ?thesis
    using total_woken [OF assms(5)] queue_length [OF run] queue_length [OF assms(1)]
    by (simp add: effort_def sem_value_def)
qed

text \<open>A step of a worker, with the number of the job that it takes.\<close>

definition after_worker :: "nat \<Rightarrow> pool \<Rightarrow> 'j joint \<Rightarrow> 'j joint" where
  "after_worker i p s = s\<lparr>jpool := p,
     jobno := (if taken p = taken (jpool s) then jobno s else (jobno s)(i := length (taken (jpool s))))\<rparr>"

lemma accounted_worker:
  assumes "jobs_accounted fin s" and "worker_step i (jpool s) p" and "i < nthreads (jpool s)"
    and "running (wpcs (jpool s) i) = None \<or> fin (jobno s i) (shared s)"
  shows "jobs_accounted fin (after_worker i p s)"
proof (cases "taken p = taken (jpool s)")
  case True
  with worker_takes [OF assms(2)] have r: "running (wpcs p i) = None"
    "\<And>j. j \<noteq> i \<Longrightarrow> running (wpcs p j) = running (wpcs (jpool s) j)" by simp_all
  have "fin k (shared s) \<or> (\<exists>j < nthreads p. running (wpcs p j) \<noteq> None \<and> jobno s j = k)"
    if "k < length (taken p)" for k
    using assms(1,4) that True r worker_nthreads [OF assms(2)] unfolding jobs_accounted_def Let_def by metis
  moreover have "jobno s j < length (taken p)" if "j < nthreads p" "running (wpcs p j) \<noteq> None" for j
    using assms(1) that True r worker_nthreads [OF assms(2)] unfolding jobs_accounted_def Let_def by metis
  ultimately show ?thesis using True by (simp add: jobs_accounted_def after_worker_def)
next
  case False
  with worker_takes [OF assms(2)] obtain e where t: "taken p = taken (jpool s) @ [e]"
    and r: "running (wpcs (jpool s) i) = None" "running (wpcs p i) \<noteq> None"
      "\<And>j. j \<noteq> i \<Longrightarrow> running (wpcs p j) = running (wpcs (jpool s) j)" by auto
  let ?no = "(jobno s)(i := length (taken (jpool s)))"
  have n: "nthreads p = nthreads (jpool s)" by (rule worker_nthreads [OF assms(2)])
  have "fin k (shared s) \<or> (\<exists>j < nthreads p. running (wpcs p j) \<noteq> None \<and> ?no j = k)"
    if "k < length (taken p)" for k
  proof (cases "k = length (taken (jpool s))")
    case True
    then show ?thesis using assms(3) r(2) n by (intro disjI2 exI [of _ i]) simp
  next
    case False
    then have "k < length (taken (jpool s))" using that t by simp
    then have "fin k (shared s) \<or> (\<exists>j < nthreads p. running (wpcs (jpool s) j) \<noteq> None \<and> jobno s j = k)"
      using assms(1) n by (simp add: jobs_accounted_def Let_def)
    then show ?thesis using r by (metis fun_upd_other)
  qed
  moreover have "?no j < length (taken p)" if "j < nthreads p" "running (wpcs p j) \<noteq> None" for j
    using assms(1) that t r(3) n by (cases "j = i") (auto simp: jobs_accounted_def Let_def less_Suc_eq)
  ultimately show ?thesis using False by (simp add: jobs_accounted_def after_worker_def)
qed

lemma waits_last_worker:
  assumes "waits_last s" and "worker_step i (jpool s) p" and "i < nthreads (jpool s)" and "inv_ctl (jpool s)"
    and "inv_run (jpool s) xs"
  shows "waits_last (after_worker i p s)"
proof (cases "todo s = [] \<and> \<not> waiting (client (jpool s))")
  case True
  with assms(1) have q: "client (jpool s) = C_idle" "len (queue (jpool s)) = 0"
    "\<forall>j < nthreads (jpool s). running (wpcs (jpool s) j) = None" by (simp_all add: waits_last_def Let_def)
  have "taken p = taken (jpool s)" using worker_taken_queue [OF assms(2) _ assms(5)] q(2) by blast
  with worker_takes [OF assms(2)] q(3) worker_nthreads [OF assms(2)]
  have "\<forall>j < nthreads p. running (wpcs p j) = None" by metis
  moreover have "xs = []" using queue_length [OF assms(5)] q(2) by simp
  then have "(if wpcs (jpool s) i = W_pull then tl xs else xs) = []" by simp
  with inv_run_worker [OF assms(2,3,4,5)] have "inv_run p []" by metis
  from queue_length [OF this] have "len (queue p) = 0" by simp
  moreover have "client p = C_idle" using worker_client [OF assms(2)] q(1) by simp
  ultimately show ?thesis using True by (simp add: waits_last_def after_worker_def)
next
  case False
  with assms(1) worker_keeps_waiting [OF assms(2)] show ?thesis
    by (auto simp: waits_last_def after_worker_def Let_def)
qed

section \<open>The contract of the jobs\<close>

text \<open>
  What the pool relies on: up to \<open>N\<close> jobs keep an invariant of their shared state, each can move until
  it has returned, it stays returned, and a measure bounds the number of all their steps.
\<close>

locale pool_jobs =
  fixes job :: "nat \<Rightarrow> 'j \<Rightarrow> 'j \<Rightarrow> bool" and fin :: "nat \<Rightarrow> 'j \<Rightarrow> bool"
    and jinv :: "'j \<Rightarrow> bool" and jm :: "'j \<Rightarrow> nat" and N :: nat
  assumes job_inv: "jinv j \<Longrightarrow> k < N \<Longrightarrow> job k j j' \<Longrightarrow> jinv j'"
    and job_moves: "jinv j \<Longrightarrow> k < N \<Longrightarrow> \<not> fin k j \<Longrightarrow> \<exists>j'. job k j j'"
    and job_ends: "jinv j \<Longrightarrow> k < N \<Longrightarrow> job k j j' \<Longrightarrow> jm j' < jm j"
    and stays_ended: "jinv j \<Longrightarrow> k < N \<Longrightarrow> l < N \<Longrightarrow> fin l j \<Longrightarrow> job k j j' \<Longrightarrow> fin l j'"
begin

abbreviation inv :: "'j joint \<Rightarrow> bool" where "inv \<equiv> joint_inv fin jinv N"
abbreviation step :: "'j joint \<Rightarrow> 'j joint \<Rightarrow> bool" where "step \<equiv> joint_step job fin"

lemma pool_run: "inv s \<Longrightarrow> \<exists>xs. inv_run (jpool s) xs"
  by (auto simp: joint_inv_def inv_pool_def Let_def split: if_splits)

lemma taken_bound:
  assumes "inv s"
  shows "length (taken (jpool s)) \<le> N"
proof -
  from pool_run [OF assms] obtain xs where "inv_run (jpool s) xs" by blast
  then have "length (taken (jpool s)) \<le> length (submitted (jpool s))" by (simp add: inv_run_def inv_log_def)
  with assms show ?thesis by (simp add: joint_inv_def Let_def)
qed

lemma jobno_bound:
  assumes "inv s" and "i < nthreads (jpool s)" and "running (wpcs (jpool s) i) \<noteq> None"
  shows "jobno s i < N"
proof -
  have "jobno s i < length (taken (jpool s))" using assms by (simp add: joint_inv_def jobs_accounted_def Let_def)
  with taken_bound [OF assms(1)] show ?thesis by simp
qed

lemma inv_job:
  assumes "inv s" and "i < nthreads (jpool s)" and "wpcs (jpool s) i = W_run a" and "job (jobno s i) (shared s) j"
  shows "inv (s\<lparr>shared := j\<rparr>)"
proof -
  have k: "jobno s i < N" using jobno_bound [OF assms(1,2)] assms(3) by simp
  have ji: "jinv (shared s)" using assms(1) by (simp add: joint_inv_def Let_def)
  have "fin l (shared s) \<longrightarrow> fin l j" if "l < length (taken (jpool s))" for l
    using stays_ended [OF ji k _ _ assms(4)] that taken_bound [OF assms(1)] by simp
  then have "jobs_accounted fin (s\<lparr>shared := j\<rparr>)"
    using assms(1) by (auto simp: joint_inv_def jobs_accounted_def Let_def)
  with assms(1) job_inv [OF ji k assms(4)] show ?thesis
    by (simp add: joint_inv_def waits_last_def Let_def)
qed

lemma inv_worker:
  assumes "inv s" and "worker_step i (jpool s) p" and "i < nthreads (jpool s)"
    and "running (wpcs (jpool s) i) = None \<or> fin (jobno s i) (shared s)"
  shows "inv (after_worker i p s)"
proof -
  from pool_run [OF assms(1)] obtain xs where xs: "inv_run (jpool s) xs" by blast
  have p: "inv_pool (jpool s)" "jobs_accounted fin s" "waits_last s"
    "\<forall>j < nthreads (jpool s). wpcs (jpool s) j \<noteq> W_absent"
    using assms(1) by (simp_all add: joint_inv_def Let_def)
  then have c: "inv_ctl (jpool s)" by (simp add: inv_pool_def)
  note inv_pool_worker [OF assms(2,3) p(1)] accounted_worker [OF p(2) assms(2-4)]
    waits_last_worker [OF p(3) assms(2,3) c xs] worker_no_absent [OF assms(2) p(4)]
    worker_nthreads [OF assms(2)] worker_held [OF assms(2)] worker_submitted [OF assms(2)] worker_client [OF assms(2)]
  with assms(1) show ?thesis by (auto simp: joint_inv_def after_worker_def Let_def)
qed

lemma inv_client:
  assumes "inv s" and "client (jpool s) \<noteq> C_idle" and "client_step (jpool s) p"
  shows "inv (s\<lparr>jpool := p\<rparr>)"
proof -
  let ?p = "jpool s"
  have c: "client ?p = C_init \<or> waiting (client ?p)" and ip: "inv_pool ?p" and w: "waits_last s"
    using assms(1,2) by (auto simp: joint_inv_def Let_def)
  note p = client_inside [OF assms(3) c]
  have eq: "p = ?p\<lparr>client := client p\<rparr>" by (rule p(1))
  have "waits_last (s\<lparr>jpool := p\<rparr>)"
  proof (cases "todo s = [] \<and> \<not> waiting (client p)")
    case True
    with w assms(2) have "waiting (client ?p)" by (simp add: waits_last_def Let_def)
    note r = wait_return [OF assms(3) this] True
    have "len (queue ?p) = 0" using pool_run [OF assms(1)] r by (auto simp: inv_run_def inv_live_def)
    moreover have "running (wpcs ?p i) = None" if "i < nthreads ?p" for i
      using not_working_not_running [OF _ _ that] r ip by (simp add: inv_pool_def)
    ultimately show ?thesis using r by (simp add: waits_last_def)
  next
    case False
    with w show ?thesis by (auto simp: waits_last_def Let_def)
  qed
  moreover have "jobs_accounted fin (s\<lparr>jpool := p\<rparr>)"
    using assms(1) by (subst eq) (simp add: joint_inv_def jobs_accounted_def Let_def)
  moreover have "nthreads p = nthreads ?p" "wpcs p = wpcs ?p" "held p = held ?p" "submitted p = submitted ?p"
    by (subst eq, simp)+
  ultimately show ?thesis using assms(1) inv_pool_client [OF assms(3) ip] p(2) by (auto simp: joint_inv_def Let_def)
qed

lemma inv_add:
  assumes "inv s" and "client (jpool s) = C_idle" and "todo s = Add f x # cs" and "client_step (jpool s) p"
    and "submitted p = submitted (jpool s) @ [(f, x)]"
  shows "inv (s\<lparr>jpool := p, todo := cs\<rparr>)"
proof -
  let ?p = "jpool s"
  from client_adds [OF assms(4,2)] assms(5) obtain h' q' w' where w: "woken (nthreads ?p) (wpcs ?p) w'"
    and p: "p = ?p\<lparr>heap := h', queue := q', wpcs := w', submitted := submitted ?p @ [(f, x)]\<rparr>" by auto
  have r: "running (w' j) = running (wpcs ?p j)" for j by (rule wakes_classes(7) [OF wakes_intros(1) [OF w]])
  have a: "w' j = W_absent \<longrightarrow> wpcs ?p j = W_absent" for j using w by (auto simp: woken_def split: if_splits)
  have "cs \<noteq> []" using assms(1,3) by (auto simp: joint_inv_def waits_last_def Let_def)
  then have "waits_last (s\<lparr>jpool := p, todo := cs\<rparr>)"
    using assms(1,3) by (simp add: joint_inv_def waits_last_def Let_def)
  moreover have "jobs_accounted fin (s\<lparr>jpool := p, todo := cs\<rparr>)"
    using assms(1) r by (simp add: p joint_inv_def jobs_accounted_def Let_def)
  moreover have "inv_pool p" using inv_pool_client [OF assms(4)] assms(1) by (simp add: joint_inv_def Let_def)
  ultimately show ?thesis using assms(1,2,3) a by (auto simp: p joint_inv_def Let_def)
qed

lemma inv_add_fails:
  assumes "inv s" and "client (jpool s) = C_idle" and "todo s = Add f x # cs"
  shows "inv (s\<lparr>todo := cs\<rparr>)"
proof -
  have "cs \<noteq> []" using assms(1,3) by (auto simp: joint_inv_def waits_last_def Let_def)
  with assms show ?thesis by (auto simp: joint_inv_def waits_last_def jobs_accounted_def Let_def)
qed

lemma inv_wait:
  assumes "inv s" and "client (jpool s) = C_idle" and "todo s = Wait # cs"
  shows "inv (s\<lparr>jpool := (jpool s)\<lparr>client := C_wait\<rparr>, todo := cs\<rparr>)"
proof -
  have "inv_pool ((jpool s)\<lparr>client := C_wait\<rparr>)"
    using inv_pool_client [OF client_step.wait_call [OF assms(2)]] assms(1) by (simp add: joint_inv_def Let_def)
  with assms show ?thesis by (auto simp: joint_inv_def waits_last_def jobs_accounted_def Let_def)
qed

lemma inv_joint_step: "inv s \<Longrightarrow> step s t \<Longrightarrow> inv t"
  by (erule joint_step.cases)
    (simp_all add: inv_job inv_worker [unfolded after_worker_def] inv_client inv_add inv_add_fails inv_wait)

section \<open>Progress and termination\<close>

lemma worker_progress:
  assumes "inv s" and "worker_step i (jpool s) p" and "i < nthreads (jpool s)"
  shows "\<exists>t. step s t"
proof (cases "running (wpcs (jpool s) i) = None \<or> fin (jobno s i) (shared s)")
  case True
  have "\<not> held (jpool s) i" using assms(1) by (simp add: joint_inv_def Let_def)
  from j_worker [where fin = fin, OF assms(3) this assms(2) True] show ?thesis by blast
next
  case False
  then obtain a where a: "wpcs (jpool s) i = W_run a" by (cases "wpcs (jpool s) i") auto
  have "\<not> held (jpool s) i" "jinv (shared s)" using assms(1) by (simp_all add: joint_inv_def Let_def)
  moreover from this(2) obtain j where "job (jobno s i) (shared s) j"
    using job_moves [OF _ jobno_bound [OF assms(1,3)]] False by blast
  ultimately show ?thesis using j_job [OF assms(3) _ a] by blast
qed

lemma init_progress:
  assumes "inv s" and "client (jpool s) = C_init"
  shows "\<exists>t. step s t"
proof (cases "num_threads_alive (jpool s) = int (nthreads (jpool s))")
  case True
  with client_step.init_done [OF assms(2) True] j_client [of s] assms(2) show ?thesis by force
next
  case False
  let ?p = "jpool s"
  have c: "inv_ctl ?p" and ab: "\<forall>i < nthreads ?p. wpcs ?p i \<noteq> W_absent"
    using assms(1) by (simp_all add: joint_inv_def inv_pool_def Let_def)
  then have "cnt alive_pc (nthreads ?p) (wpcs ?p) \<noteq> int (nthreads ?p)" using False by (simp add: inv_ctl_def)
  then obtain i where i: "i < nthreads ?p" "\<not> alive_pc (wpcs ?p i)" by (auto simp: cnt_all_iff)
  moreover have "\<not> ending (wpcs ?p i)" using c assms(2) i(1) by (simp add: inv_ctl_def)
  ultimately have "wpcs ?p i = W_start" using ab by (cases "wpcs ?p i") auto
  then have "worker_step i ?p ((goto ?p i W_loop)\<lparr>num_threads_alive := num_threads_alive ?p + 1\<rparr>)"
    using assms(2) by (intro worker_step.start) (simp_all add: lock_free_def)
  from worker_progress [OF assms(1) this i(1)] show ?thesis .
qed

lemma joint_progress:
  assumes "inv s" and "\<not> joint_ended s"
  shows "\<exists>t. step s t"
proof -
  let ?p = "jpool s"
  consider "client ?p = C_init" | (idle) "client ?p = C_idle" | (waiting) "waiting (client ?p)"
    using assms(1) by (auto simp: joint_inv_def Let_def)
  then show ?thesis
  proof cases
    case idle
    with assms(2) obtain c cs where t: "todo s = c # cs" by (cases "todo s") (auto simp: joint_ended_def)
    show ?thesis
    proof (cases c)
      case (Add f x)
      have "thpool_add_work None None (heap ?p, queue ?p) f x = Inr (- 1, (heap ?p, queue ?p))"
        by (simp add: thpool_add_work_def)
      from j_add_fails [OF idle t [unfolded Add] this] show ?thesis by blast
    qed (use j_wait [OF idle] t in blast)
  next
    case waiting
    then have "wait_inv ?p" using assms(1) by (simp add: wait_inv_def joint_inv_def Let_def)
    from wait.progress [OF this] waiting obtain p where "wait_step ?p p" by blast
    then consider (w) i where "i < nthreads ?p" "worker_step i ?p p" | (c) "client_step ?p p"
      by (auto simp: wait_step_def)
    then show ?thesis
    proof cases
      case w
      then show ?thesis using worker_progress [OF assms(1)] by blast
    next
      case c
      have "client ?p \<noteq> C_idle" using waiting by auto
      from j_client [OF this c] show ?thesis by blast
    qed
  qed (rule init_progress [OF assms(1)])
qed

lemma joint_decreases:
  assumes "inv s" and "step s t"
  shows "joint_measure jm t < joint_measure jm s"
proof -
  from pool_run [OF assms(1)] obtain xs where xs: "inv_run (jpool s) xs" by blast
  note nonneg = effort_nonneg [OF xs]
  have nt: "0 \<le> effort (jpool t)" using effort_nonneg pool_run [OF inv_joint_step [OF assms]] by blast
  from assms(2) show ?thesis
  proof cases
    case (j_job i a j)
    have "jinv (shared s)" using assms(1) by (simp add: joint_inv_def Let_def)
    from job_ends [OF this jobno_bound [OF assms(1) j_job(2)] j_job(5)] j_job show ?thesis
      by (simp add: joint_measure_def)
  next
    case (j_worker i p)
    have "client p = C_init \<longrightarrow> client (jpool s) = C_init" using worker_client [OF j_worker(4)] by auto
    moreover have "effort p < effort (jpool s)" by (rule effort_worker [OF j_worker(4,2) xs])
    ultimately show ?thesis using nt j_worker(1) by (auto simp: joint_measure_def)
  next
    case (j_client p)
    show ?thesis
    proof (cases "waiting (client (jpool s))")
      case True
      have "client p \<noteq> C_init" using client_inside(2) [OF j_client(3)] True by auto
      with effort_client [OF j_client(3) True] nt j_client(1) show ?thesis by (auto simp: joint_measure_def)
    next
      case False
      with assms(1) j_client(2) have i: "client (jpool s) = C_init" by (auto simp: joint_inv_def Let_def)
      with j_client(3) have "p = (jpool s)\<lparr>client := C_idle\<rparr>" by (auto elim: client_step.cases)
      with i j_client(1) show ?thesis by (simp add: joint_measure_def effort_def sem_value_def)
    qed
  next
    case (j_add f x cs p)
    from client_adds [OF j_add(4,2)] j_add(5) obtain a g h' q' w' where
      p: "heap (jpool s) a = None" "thpool_add_work (Some a) g (heap (jpool s), queue (jpool s)) f x = Inr (0, (h', q'))"
        "woken (nthreads (jpool s)) (wpcs (jpool s)) w'"
        "p = (jpool s)\<lparr>heap := h', queue := q', wpcs := w', submitted := submitted (jpool s) @ [(f, x)]\<rparr>" by auto
    have "effort p \<le> effort (jpool s) + 26" unfolding p(4) by (rule add_work_effort [OF xs j_add(2) p(1-3)])
    moreover have "client p = C_idle" using j_add(2) by (simp add: p(4))
    ultimately show ?thesis using j_add(1-3) nonneg nt by (simp add: joint_measure_def)
  next
    case (j_wait cs)
    have "effort (jpool t) = effort (jpool s) + 4" using j_wait(1,2) by (simp add: effort_def sem_value_def)
    then show ?thesis using j_wait nonneg by (simp add: joint_measure_def)
  qed (simp add: joint_measure_def)
qed

end

text \<open>A program under the contract is a terminating system.\<close>

sublocale pool_jobs \<subseteq> joint: terminating_system "joint_inv fin jinv N" "joint_step job fin" "joint_inv fin jinv N" joint_ended "joint_measure jm"
  by unfold_locales (assumption, fact inv_joint_step, fact joint_progress, fact joint_decreases)

context pool_jobs
begin

text \<open>When it has ended, every job has been called once, and has returned.\<close>

lemma ended_result:
  assumes "joint_inv fin jinv N s" and "joint_ended s"
  shows "mset (map snd (executed (jpool s))) = mset (submitted (jpool s))"
    and "k < length (submitted (jpool s)) \<Longrightarrow> fin k (shared s)"
proof -
  from pool_run [OF assms(1)] obtain xs where xs: "inv_run (jpool s) xs" by blast
  have q: "len (queue (jpool s)) = 0" "\<And>i. i < nthreads (jpool s) \<Longrightarrow> running (wpcs (jpool s) i) = None"
    using assms by (simp_all add: joint_inv_def waits_last_def joint_ended_def Let_def)
  show "mset (map snd (executed (jpool s))) = mset (submitted (jpool s))" by (rule no_job_left(1) [OF xs q])
  assume "k < length (submitted (jpool s))"
  then have "k < length (taken (jpool s))" using no_job_left(2) [OF xs q] by simp
  then show "fin k (shared s)" using assms(1) q(2) by (auto simp: joint_inv_def jobs_accounted_def Let_def)
qed

end

section \<open>common/thpool\_test.c\<close>

definition increment_returned :: "nat \<Rightarrow> handle_t \<Rightarrow> bool" where
  "increment_returned k h \<longleftrightarrow> jpc h k = JDone"

text \<open>
  \<^verbatim>\<open>main\<close>, up to the point where \<^verbatim>\<open>thpool_init\<close> waits for its threads: the calls that follow are \<open>todo\<close>. When
  \<^verbatim>\<open>thpool_init\<close> returns \<^verbatim>\<open>NULL\<close>, the next call uses it. The number 1 stands for the address of \<^verbatim>\<open>handle\<close>.
\<close>

definition thpool_test_main :: "init_env \<Rightarrow> handle_t joint cres" where
  "thpool_test_main E =
     cbind (thpool_init E 8) (\<lambda>thpool.
     cbind (deref thpool) (\<lambda>p.
     Inr \<lparr>jpool = p, shared = handle_init 1000, jobno = (\<lambda>i. 0),
          todo = [Add ''increment'' 1, Add ''increment'' 1, Add ''increment'' 1, Wait]\<rparr>))"

lemma increment_jobs_step: "k < n_jobs \<Longrightarrow> increment k h h' \<Longrightarrow> jobs_step h h'"
  by (auto simp: jobs_step_def)

interpretation test: pool_jobs increment increment_returned jobs_inv jobs_measure n_jobs
proof
  fix h h' :: handle_t and k l :: nat
  assume h: "jobs_inv h" and k: "k < n_jobs"
  show "\<exists>h'. increment k h h'" if "\<not> increment_returned k h"
    using job_progress [OF h k] that by (simp add: increment_returned_def)
  assume st: "increment k h h'"
  show "jobs_inv h'" by (rule jobs_inv_step [OF h increment_jobs_step [OF k st]])
  show "jobs_measure h' < jobs_measure h" by (rule jobs_measure_step [OF increment_jobs_step [OF k st]])
  show "increment_returned l h'" if "increment_returned l h"
    using st that by (auto simp: increment_returned_def elim!: incrementE)
qed

lemma increment_limit: "joint_step increment fin s t \<Longrightarrow> limit (shared t) = limit (shared s)"
  by (erule joint_step.cases) (auto elim!: incrementE)

lemma increment_run_limit: "(joint_step increment fin)\<^sup>*\<^sup>* s t \<Longrightarrow> limit (shared t) = limit (shared s)"
  by (induction rule: rtranclp_induct) (simp_all add: increment_limit)

text \<open>The threads of the pool all exist.\<close>

definition all_created :: "init_env \<Rightarrow> bool" where
  "all_created E \<longleftrightarrow> (\<forall>i < 8. thread_init (thread_envs E i) = Inr (0, SlotLive, True))"

lemma thpool_test_start:
  assumes "thpool_test_main E = Inr s"
  obtains p where "thpool_init E 8 = Inr (Some p)" and "s = \<lparr>jpool = p, shared = handle_init 1000,
      jobno = (\<lambda>i. 0), todo = [Add ''increment'' 1, Add ''increment'' 1, Add ''increment'' 1, Wait]\<rparr>"
  using assms by (auto simp: thpool_test_main_def cbind_eq_Inr_iff deref_def split: option.splits)

lemma thpool_test_inv:
  assumes "thpool_test_main E = Inr s" and "all_created E"
  shows "joint_inv increment_returned jobs_inv n_jobs s" and "limit (shared s) = 1000"
proof -
  from assms(1) obtain p where p: "thpool_init E 8 = Inr (Some p)" and s: "s = \<lparr>jpool = p, shared = handle_init 1000,
      jobno = (\<lambda>i. 0), todo = [Add ''increment'' 1, Add ''increment'' 1, Add ''increment'' 1, Wait]\<rparr>"
    by (rule thpool_test_start)
  have "pool_init p" using p by (auto simp: pool_init_def)
  then have "inv_pool p" by (rule inv_pool_init)
  moreover have f: "client p = C_init" "nthreads p = 8" "held p = (\<lambda>i. False)" "submitted p = []" "taken p = []"
    using p by (auto simp: thpool_init_def Let_def cbind_eq_Inr_iff split: if_splits)
  moreover have "prepared (thread_envs E i)" if "i < 8" for i
    using assms(2) that by (auto simp: all_created_def thread_init_def prepared_def split: if_splits)
  then have "\<forall>i < 8. wpcs p i = W_start" using thpool_init_state(1,2) [OF p] by simp
  moreover have "jobs_inv (handle_init 1000)" by (rule handle_init_inv) simp_all
  ultimately show "joint_inv increment_returned jobs_inv n_jobs s"
    using assms(2) by (auto simp: s joint_inv_def jobs_accounted_def waits_last_def n_jobs_def)
  show "limit (shared s) = 1000" by (simp add: s handle_init_def)
qed

text \<open>
  The program seen as the pool alone and as its jobs alone: all its runs are runs of \<open>Thread_Pool\<close>, and
  of \<open>Thpool_Test\<close>.
\<close>

definition test_init :: "handle_t joint \<Rightarrow> bool" where
  "test_init s \<longleftrightarrow> (\<exists>E. thpool_test_main E = Inr s \<and> all_created E)"

lemma test_init_parts:
  assumes "test_init s"
  shows "joint_inv increment_returned jobs_inv n_jobs s" and "pool_init (jpool s)" and "shared s = handle_init 1000"
proof -
  from assms obtain E where E: "thpool_test_main E = Inr s" "all_created E" by (auto simp: test_init_def)
  show "joint_inv increment_returned jobs_inv n_jobs s" by (rule thpool_test_inv(1) [OF E])
  from E(1) show "pool_init (jpool s)" "shared s = handle_init 1000"
    by (rule thpool_test_start, auto simp: pool_init_def)+
qed

lemma joint_pool_step:
  assumes "joint_step job fin s t"
  shows "jpool t = jpool s \<or> pool_step (jpool s) (jpool t)"
  using assms
proof (rule joint_step.cases)
  fix u cs
  assume "client (jpool u) = C_idle" and "t = u\<lparr>jpool := (jpool u)\<lparr>client := C_wait\<rparr>, todo := cs\<rparr>" and "s = u"
  then show ?thesis using pool_step.client [OF client_step.wait_call] by simp
qed (simp_all add: pool_step.worker pool_step.client)

lemma joint_jobs_step:
  assumes "joint_inv increment_returned jobs_inv n_jobs s" and "joint_step increment increment_returned s t"
  shows "shared t = shared s \<or> jobs_step (shared s) (shared t)"
  using assms(2)
proof cases
  case (j_job i a j)
  with increment_jobs_step [OF test.jobno_bound [OF assms(1) j_job(2)]] show ?thesis by simp
qed simp_all

interpretation test_pool: refinement test_init "joint_step increment increment_returned"
    "joint_inv increment_returned jobs_inv n_jobs" pool_init pool_step jpool
  by unfold_locales (erule test_init_parts, erule (1) test.inv_joint_step, erule test_init_parts, erule joint_pool_step)

interpretation test_jobs: refinement test_init "joint_step increment increment_returned"
    "joint_inv increment_returned jobs_inv n_jobs" jobs_init jobs_step shared
proof
  show "jobs_init (shared s)" if "test_init s" for s
    using test_init_parts(3) [OF that] by (auto simp: jobs_init_def intro!: exI [of _ 1000])
qed (fact joint_jobs_step)

text \<open>
  The jobs that run are different ones, and those that no worker has taken yet have not made a step.
\<close>

definition one_worker_each :: "handle_t joint \<Rightarrow> bool" where
  "one_worker_each s \<longleftrightarrow> (let p = jpool s in
     (\<forall>i < nthreads p. \<forall>j < nthreads p. running (wpcs p i) \<noteq> None \<longrightarrow> running (wpcs p j) \<noteq> None \<longrightarrow>
        jobno s i = jobno s j \<longrightarrow> i = j)
   \<and> (\<forall>k \<ge> length (taken p). jpc (shared s) k = JCheck))"

lemma one_worker_client:
  assumes "one_worker_each s" and "nthreads p = nthreads (jpool s)" and "taken p = taken (jpool s)"
    and "\<forall>i. running (wpcs p i) = running (wpcs (jpool s) i)"
  shows "one_worker_each (s\<lparr>jpool := p, todo := cs\<rparr>)"
  using assms by (simp add: one_worker_each_def Let_def)

lemma one_worker_worker:
  assumes "one_worker_each s" and "jobs_accounted fin s" and "worker_step i (jpool s) p" and "i < nthreads (jpool s)"
  shows "one_worker_each (after_worker i p s)"
proof -
  note n = worker_nthreads [OF assms(3)] and w = worker_takes [OF assms(3)]
  have new: "jobno s j \<noteq> length (taken (jpool s))" if "running (wpcs (jpool s) j) = Some a" "j < nthreads (jpool s)" for j a
    using assms(2) that by (auto simp: jobs_accounted_def Let_def)
  show ?thesis
  proof (cases "taken p = taken (jpool s)")
    case True
    with w have "running (wpcs (jpool s) j) \<noteq> None" if "running (wpcs p j) \<noteq> None" for j using that by metis
    moreover have "after_worker i p s = s\<lparr>jpool := p\<rparr>" using True by (simp add: after_worker_def)
    ultimately show ?thesis using assms(1) n True by (simp add: one_worker_each_def Let_def del: not_None_eq)
  next
    case False
    with w obtain e where "taken p = taken (jpool s) @ [e]" "\<forall>j. j \<noteq> i \<longrightarrow> running (wpcs p j) = running (wpcs (jpool s) j)"
      by auto
    with assms(1) n False show ?thesis unfolding one_worker_each_def after_worker_def Let_def by (auto dest!: new split: if_splits)
  qed
qed

lemma one_worker_step:
  assumes "joint_inv increment_returned jobs_inv n_jobs s" and "one_worker_each s" and "joint_step increment increment_returned s t"
  shows "one_worker_each t"
  using assms(3)
proof cases
  case (j_job i a j)
  have "jobno s i < length (taken (jpool s))"
    using assms(1) j_job(2,4) by (simp add: joint_inv_def jobs_accounted_def Let_def)
  with j_job assms(2) show ?thesis by (auto simp: one_worker_each_def Let_def elim!: incrementE)
next
  case (j_worker i p)
  have "jobs_accounted increment_returned s" using assms(1) by (simp add: joint_inv_def Let_def)
  from one_worker_worker [OF assms(2) this j_worker(4,2)] show ?thesis unfolding j_worker(1) after_worker_def .
next
  case (j_client p)
  then have p: "p = (jpool s)\<lparr>client := client p\<rparr>"
    using client_inside(1) [OF j_client(3)] assms(1) by (auto simp: joint_inv_def Let_def)
  have "one_worker_each (s\<lparr>jpool := (jpool s)\<lparr>client := client p\<rparr>, todo := todo s\<rparr>)"
    by (rule one_worker_client [OF assms(2)]) simp_all
  with p j_client(1) show ?thesis by simp
next
  case (j_add f x cs p)
  from client_adds [OF j_add(4,2)] j_add(5) obtain w' where w: "woken (nthreads (jpool s)) (wpcs (jpool s)) w'"
    and p: "wpcs p = w'" "nthreads p = nthreads (jpool s)" "taken p = taken (jpool s)" by auto
  from one_worker_client [OF assms(2) p(2,3)] wakes_classes(7) [OF wakes_intros(1) [OF w]] p(1) j_add(1)
  show ?thesis by simp
next
  case (j_add_fails f x cs g hq)
  with one_worker_client [OF assms(2), of "jpool s" cs] show ?thesis by simp
next
  case (j_wait cs)
  with one_worker_client [OF assms(2), of "(jpool s)\<lparr>client := C_wait\<rparr>" cs] show ?thesis by simp
qed

interpretation test_each: invariant_system test_init "joint_step increment increment_returned"
    "\<lambda>s. joint_inv increment_returned jobs_inv n_jobs s \<and> one_worker_each s"
proof
  fix s assume s: "test_init s"
  then obtain E p where "thpool_init E 8 = Inr (Some p)" "jpool s = p"
    by (auto simp: test_init_def elim: thpool_test_start)
  then have "\<forall>i. running (wpcs (jpool s) i) = None" using thpool_init_state(1) by fastforce
  then show "joint_inv increment_returned jobs_inv n_jobs s \<and> one_worker_each s"
    using test_init_parts [OF s] by (simp add: one_worker_each_def handle_init_def)
next
  fix s t assume "joint_inv increment_returned jobs_inv n_jobs s \<and> one_worker_each s" and "joint_step increment increment_returned s t"
  then show "joint_inv increment_returned jobs_inv n_jobs t \<and> one_worker_each t"
    using one_worker_step test.inv_joint_step by blast
qed

lemma test_nthreads:
  assumes "thpool_test_main E = Inr s" and "all_created E" and "(joint_step increment increment_returned)\<^sup>*\<^sup>* s t"
  shows "nthreads (jpool t) = 8"
  using assms(3)
proof (induction rule: rtranclp_induct)
  case base
  from assms(1) show ?case by (rule thpool_test_start) (simp add: thpool_init_state(2))
next
  case (step t u)
  from joint_pool_step [OF step.hyps(2)] have "nthreads (jpool u) = nthreads (jpool t)" by (auto elim!: pool_step.cases simp: worker_nthreads client_nthreads env_nthreads)
  with step.IH show ?case by simp
qed

lemma job_has_one_worker:
  assumes "jobs_accounted increment_returned t" and "one_worker_each t" and "inv_mem (jpool t) xs"
    and "jpc (shared t) k \<noteq> JCheck" and "jpc (shared t) k \<noteq> JDone" and "nthreads (jpool t) = n"
  shows "\<exists>!i. i < n \<and> jobno t i = k \<and> (\<exists>a. wpcs (jpool t) i = W_run a \<and> a \<in> dom (heap (jpool t)))"
proof -
  let ?p = "jpool t"
  have "k < length (taken ?p)" using assms(2,4) by (auto simp: one_worker_each_def Let_def intro: leI)
  with assms(1,5,6) obtain i where i: "i < n" "running (wpcs ?p i) \<noteq> None" "jobno t i = k"
    by (auto simp: jobs_accounted_def increment_returned_def Let_def)
  then obtain a where a: "wpcs ?p i = W_run a" by (cases "wpcs ?p i") auto
  have "a \<in> dom (heap ?p)" unfolding inv_memD(3) [OF assms(3)] using a i(1) assms(6) by force
  with i a have i': "i < n \<and> jobno t i = k \<and> (\<exists>a. wpcs ?p i = W_run a \<and> a \<in> dom (heap ?p))" by blast
  show ?thesis
  proof (rule ex1I)
    show "i < n \<and> jobno t i = k \<and> (\<exists>a. wpcs ?p i = W_run a \<and> a \<in> dom (heap ?p))" by (rule i')
    fix j assume "j < n \<and> jobno t j = k \<and> (\<exists>a. wpcs ?p j = W_run a \<and> a \<in> dom (heap ?p))"
    then have j: "j < n" "jobno t j = k" "running (wpcs ?p j) \<noteq> None" by auto
    with i assms(2) show "j = i" unfolding one_worker_each_def Let_def assms(6) by blast
  qed
qed

text \<open>
  C15: the program \<^verbatim>\<open>thpool_test.c\<close> is safe in every state that it reaches when the threads of the pool can be
  created. The next access of each of the eight workers to the memory of the pool is defined (the pool is never freed); the jobs are taken in the order in which
  \<^verbatim>\<open>main\<close> added them; every job that has made a step and has not returned is executed by exactly one worker, whose
  job object is still allocated; no job that is not yet taken has made a step; and the number never exceeds 2001.
\<close>

theorem thpool_test_safe:
  assumes "thpool_test_main E = Inr s" and "all_created E"
    and "(joint_step increment increment_returned)\<^sup>*\<^sup>* s t"
  shows "(\<forall>i < 8. next_access (jpool t) i = Inr ())
    \<and> (\<exists>pending. submitted (jpool t) = map snd (taken (jpool t)) @ pending)
    \<and> (\<forall>k. jpc (shared t) k \<noteq> JCheck \<and> jpc (shared t) k \<noteq> JDone \<longrightarrow>
         (\<exists>!i. i < 8 \<and> jobno t i = k \<and> (\<exists>a. wpcs (jpool t) i = W_run a \<and> a \<in> dom (heap (jpool t)))))
    \<and> (\<forall>k. jpc (shared t) k \<noteq> JCheck \<longrightarrow> k < length (taken (jpool t)))
    \<and> 0 \<le> number (shared t) \<and> number (shared t) \<le> 2001"
proof -
  let ?p = "jpool t"
  have init: "test_init s" using assms(1,2) by (auto simp: test_init_def)
  then have r: "reach test_init (joint_step increment increment_returned) t"
    by (intro reach_run [OF assms(3)] reach_init)
  note inv = test_each.inv_reach [OF r]
  then have j: "jobs_inv (shared t)" and acc: "jobs_accounted increment_returned t"
    and one: "one_worker_each t" and c: "client ?p \<noteq> C_gone" by (auto simp: joint_inv_def Let_def)
  have n: "nthreads ?p = 8" by (rule test_nthreads [OF assms])
  from test.pool_run [OF conjunct1 [OF inv]] obtain xs where "inv_run ?p xs" by blast
  then have m: "inv_mem ?p xs" and l: "inv_log ?p xs" by (simp_all add: inv_run_def)
  have 1: "\<forall>i < 8. next_access ?p i = Inr ()"
    using access_result [OF test_pool.abs_reach [OF r]] c unfolding n by simp
  have 2: "\<exists>pending. submitted ?p = map snd (taken ?p) @ pending" using l by (auto simp: inv_log_def)
  have 3: "\<forall>k. jpc (shared t) k \<noteq> JCheck \<longrightarrow> k < length (taken ?p)"
    using one by (auto simp: one_worker_each_def Let_def intro: leI)
  have "limit (shared t) = 1000" using increment_run_limit [OF assms(3)] thpool_test_inv(2) [OF assms(1,2)] by simp
  then have 4: "0 \<le> number (shared t)" "number (shared t) \<le> 2001" using number_bound [OF j] j by (auto simp: jobs_inv_def)
  show ?thesis using 1 2 3 4 job_has_one_worker [OF acc one m _ _ n] by blast
qed

text \<open>
  C14: the program \<^verbatim>\<open>thpool_test.c\<close> as a whole. When the threads of the pool can be created, the number of
  steps of the main thread, the eight workers and the jobs is bounded under every schedule, and
  some step is possible as long as \<^verbatim>\<open>main\<close> is not past \<^verbatim>\<open>thpool_wait\<close>. When it is, every job that could be added has been
  called exactly once and has returned, and if all three were added, the number is at least the
  limit 1000 and at most 2001.
\<close>

theorem thpool_test_ends:
  assumes "thpool_test_main E = Inr s" and "all_created E"
  shows "(\<exists>b. \<forall>n t. (joint_step increment increment_returned ^^ n) s t \<longrightarrow> n \<le> b)
    \<and> (\<forall>t. (joint_step increment increment_returned)\<^sup>*\<^sup>* s t \<longrightarrow>
         (if joint_ended t
          then mset (map snd (executed (jpool t))) = mset (submitted (jpool t))
            \<and> (\<forall>k < length (submitted (jpool t)). increment_returned k (shared t))
            \<and> (length (submitted (jpool t)) = 3 \<longrightarrow> 1000 \<le> number (shared t) \<and> number (shared t) \<le> 2001)
          else \<exists>u. joint_step increment increment_returned t u))"
proof -
  note inv = thpool_test_inv [OF assms]
  have "\<forall>n t. (joint_step increment increment_returned ^^ n) s t \<longrightarrow> n \<le> joint_measure jobs_measure s"
    using test.joint.run_bounded [OF _ inv(1)] by fastforce
  moreover have "1000 \<le> number (shared t)" "number (shared t) \<le> 2001"
    if run: "(joint_step increment increment_returned)\<^sup>*\<^sup>* s t" and e: "joint_ended t" "length (submitted (jpool t)) = 3" for t
  proof -
    have t: "joint_inv increment_returned jobs_inv n_jobs t" by (rule test.joint.inv_run [OF run inv(1)])
    then have j: "jobs_inv (shared t)" by (simp add: joint_inv_def Let_def)
    have l: "limit (shared t) = 1000" using increment_run_limit [OF run] inv(2) by simp
    show "number (shared t) \<le> 2001" using number_bound [OF j] l by simp
    have "jobs_returned (shared t)"
      using test.ended_result(2) [OF t e(1)] e(2) by (simp add: jobs_returned_def increment_returned_def n_jobs_def)
    then show "1000 \<le> number (shared t)" using j l by (auto simp: jobs_inv_def)
  qed
  moreover have "if joint_ended t then mset (map snd (executed (jpool t))) = mset (submitted (jpool t))
        \<and> (\<forall>k < length (submitted (jpool t)). increment_returned k (shared t))
      else \<exists>u. joint_step increment increment_returned t u"
    if "(joint_step increment increment_returned)\<^sup>*\<^sup>* s t" for t
  proof -
    have t: "joint_inv increment_returned jobs_inv n_jobs t" by (rule test.joint.inv_run [OF that inv(1)])
    show ?thesis using test.joint.progress [OF t] test.ended_result [OF t] by simp
  qed
  ultimately show ?thesis by (metis (lifting))
qed

definition test_env :: init_env where
  "test_env = \<lparr>pool_malloc_ok = True, sem_malloc_ok = True, threads_calloc_ok = True,
     thread_envs = (\<lambda>i. \<lparr>malloc_ok = True, attr_init_ok = True, stacksize_ok = True, create_ok = True\<rparr>)\<rparr>"

lemma test_env_starts: "\<exists>s. thpool_test_main test_env = Inr s" "all_created test_env"
  by (simp_all add: thpool_test_main_def thpool_init_def test_env_def jobqueue_init_def bsem_init_def
      all_created_def thread_init_def create_threads_result)

theorem thpool_test_safe_witness:
  "\<exists>s t. thpool_test_main test_env = Inr s \<and> (joint_step increment increment_returned)\<^sup>*\<^sup>* s t \<and> joint_ended t
     \<and> next_access (jpool t) 0 = Inr () \<and> number (shared t) \<le> 2001"
proof -
  from test_env_starts(1) obtain s where s: "thpool_test_main test_env = Inr s" by blast
  from test.joint.reaches_final [OF thpool_test_inv(1) [OF s test_env_starts(2)]] obtain t where
    t: "(joint_step increment increment_returned)\<^sup>*\<^sup>* s t" "joint_ended t" by blast
  from thpool_test_safe [OF s test_env_starts(2) t(1)] s t show ?thesis by force
qed

theorem thpool_test_ends_witness:
  "\<exists>s t. thpool_test_main test_env = Inr s \<and> (joint_step increment increment_returned)\<^sup>*\<^sup>* s t
     \<and> joint_ended t \<and> mset (map snd (executed (jpool t))) = mset (submitted (jpool t))"
proof -
  from test_env_starts(1) obtain s where s: "thpool_test_main test_env = Inr s" by blast
  from test.joint.reaches_final [OF thpool_test_inv(1) [OF s test_env_starts(2)]] obtain t where
    t: "(joint_step increment increment_returned)\<^sup>*\<^sup>* s t" "joint_ended t" by blast
  from conjunct2 [OF thpool_test_ends [OF s test_env_starts(2)], rule_format, OF t(1)] t(2)
  have "mset (map snd (executed (jpool t))) = mset (submitted (jpool t))" by simp
  with s t show ?thesis by blast
qed

end
