(* ===== verification/Sockets.thy ===== *)
theory Sockets
  imports C_Prelude Step_Systems
begin

unbundle bit_operations_syntax

text \<open>
  The programs of \<^verbatim>\<open>Linux/Socket/\<close>: a server and a client that exchange one greeting over a TCP
  connection to port 8080 of the same machine. \<^verbatim>\<open>tcp_server.c\<close> and \<^verbatim>\<open>tcp_client.c\<close> are two processes;
  in \<^verbatim>\<open>tcp_standalone.c\<close> the two sides are jobs of two thread pools with one thread each.

  The network is what the manual pages promise of a connection on one machine: \<^verbatim>\<open>connect\<close> succeeds
  when the port is being listened on and fails otherwise, \<^verbatim>\<open>accept\<close> waits for a connection, the bytes
  sent arrive in order, \<^verbatim>\<open>read\<close> waits until some have arrived and takes at least one of them. Whether
  \<^verbatim>\<open>socket\<close>, \<^verbatim>\<open>setsockopt\<close>, \<^verbatim>\<open>bind\<close> and \<^verbatim>\<open>listen\<close> succeed, and whether there is memory for the two structures
  of \<^verbatim>\<open>tcp_standalone.c\<close>, is given by a record \<open>world\<close>.
\<close>

section \<open>The two sides\<close>

record world =
  s_socket :: int
  c_socket :: int
  opt_ok :: bool
  bind_ok :: bool
  listen_ok :: bool
  s_malloc :: bool
  c_malloc :: bool

text \<open>The next call of the server and of the client, or the end with a status.\<close>

datatype spos = S_socket | S_opt | S_bind | S_listen | S_accept | S_read | S_send | S_free | S_end int
datatype cpos = C_socket | C_connect | C_send | C_free | C_read | C_end int

text \<open>\<open>error\<close>: the undefined operation that has ended the process of \<^verbatim>\<open>tcp_standalone.c\<close>.\<close>

record sockets =
  spc :: spos
  cpc :: cpos
  listening :: bool
  connected :: bool
  to_server :: string
  to_client :: string
  server_got :: string
  client_got :: string
  error :: "cerr option"

definition server_greeting :: string where "server_greeting = ''Hello from server''"
definition client_greeting :: string where "client_greeting = ''Hello from client''"

definition net_init :: "sockets \<Rightarrow> bool" where
  "net_init s \<longleftrightarrow> s = \<lparr>spc = S_socket, cpc = C_socket, listening = False, connected = False,
     to_server = [], to_client = [], server_got = [], client_got = [], error = None\<rparr>"

text \<open>The options that \<^verbatim>\<open>setsockopt\<close> is given by number (Linux).\<close>

definition SO_REUSEADDR :: int where "SO_REUSEADDR = 2"
definition SO_REUSEPORT :: int where "SO_REUSEPORT = 15"
definition server_sockopt :: int where "server_sockopt = SO_REUSEADDR OR SO_REUSEPORT"

section \<open>tcp\_server.c and tcp\_client.c\<close>

text \<open>
  The test for a failure of \<^verbatim>\<open>socket\<close> compares with 0. The array that receives the greeting has 1024
  characters, all zero at first.
\<close>

inductive tcp_server_step :: "world \<Rightarrow> sockets \<Rightarrow> sockets \<Rightarrow> bool" for W where
  s_socket: "spc s = S_socket \<Longrightarrow> tcp_server_step W s (s\<lparr>spc := (if s_socket W = 0 then S_end 1 else S_opt)\<rparr>)"
| s_opt: "spc s = S_opt \<Longrightarrow>
    tcp_server_step W s (s\<lparr>spc := (if s_socket W < 0 \<or> \<not> opt_ok W then S_end 1 else S_bind)\<rparr>)"
| s_bind: "spc s = S_bind \<Longrightarrow> tcp_server_step W s (s\<lparr>spc := (if bind_ok W then S_listen else S_end 1)\<rparr>)"
| s_listen: "spc s = S_listen \<Longrightarrow>
    tcp_server_step W s (if listen_ok W then s\<lparr>listening := True, spc := S_accept\<rparr> else s\<lparr>spc := S_end 1\<rparr>)"
| s_accept: "spc s = S_accept \<Longrightarrow> connected s \<Longrightarrow> tcp_server_step W s (s\<lparr>spc := S_read\<rparr>)"
| s_read: "spc s = S_read \<Longrightarrow> 0 < n \<Longrightarrow> n \<le> 1024 \<Longrightarrow> n \<le> length (to_server s) \<Longrightarrow>
    tcp_server_step W s (s\<lparr>server_got := take n (to_server s), to_server := drop n (to_server s), spc := S_send\<rparr>)"
| s_send: "spc s = S_send \<Longrightarrow>
    tcp_server_step W s (s\<lparr>to_client := to_client s @ server_greeting, spc := S_end 0\<rparr>)"

inductive tcp_client_step :: "world \<Rightarrow> sockets \<Rightarrow> sockets \<Rightarrow> bool" for W where
  c_socket: "cpc s = C_socket \<Longrightarrow> tcp_client_step W s (s\<lparr>cpc := (if c_socket W < 0 then C_end (- 1) else C_connect)\<rparr>)"
| c_connect: "cpc s = C_connect \<Longrightarrow>
    tcp_client_step W s (if listening s then s\<lparr>connected := True, cpc := C_send\<rparr> else s\<lparr>cpc := C_end (- 1)\<rparr>)"
| c_send: "cpc s = C_send \<Longrightarrow>
    tcp_client_step W s (s\<lparr>to_server := to_server s @ client_greeting, cpc := C_read\<rparr>)"
| c_read: "cpc s = C_read \<Longrightarrow> 0 < n \<Longrightarrow> n \<le> 1024 \<Longrightarrow> n \<le> length (to_client s) \<Longrightarrow>
    tcp_client_step W s (s\<lparr>client_got := take n (to_client s), to_client := drop n (to_client s), cpc := C_end 0\<rparr>)"

definition pair_step :: "world \<Rightarrow> sockets \<Rightarrow> sockets \<Rightarrow> bool" where
  "pair_step W s t \<longleftrightarrow> tcp_server_step W s t \<or> tcp_client_step W s t"

section \<open>tcp\_standalone.c\<close>

text \<open>
  \<^verbatim>\<open>create_socket\<close> stores the result of \<^verbatim>\<open>socket\<close> without a test, in a structure that \<^verbatim>\<open>main\<close> has allocated
  without a test; \<^verbatim>\<open>main\<close> waits for both of these
  jobs before it adds the jobs \<^verbatim>\<open>socket_server\<close> and \<^verbatim>\<open>socket_client\<close>. The greeting that is released
  with \<^verbatim>\<open>free\<close> is a string literal.
\<close>

definition create_socket :: "bool \<Rightarrow> int \<Rightarrow> int cres" where
  "create_socket malloc_ok fd = (if malloc_ok then Inr fd else Inl NullDeref)"

definition both_created :: "sockets \<Rightarrow> bool" where
  "both_created s \<longleftrightarrow> spc s \<noteq> S_socket \<and> cpc s \<noteq> C_socket"

inductive socket_server :: "world \<Rightarrow> sockets \<Rightarrow> sockets \<Rightarrow> bool" for W where
  ss_create: "spc s = S_socket \<Longrightarrow> create_socket (s_malloc W) (s_socket W) = Inr fd \<Longrightarrow>
    socket_server W s (s\<lparr>spc := S_opt\<rparr>)"
| ss_create_bad: "spc s = S_socket \<Longrightarrow> create_socket (s_malloc W) (s_socket W) = Inl e \<Longrightarrow>
    socket_server W s (s\<lparr>error := Some e\<rparr>)"
| ss_opt: "spc s = S_opt \<Longrightarrow> both_created s \<Longrightarrow>
    socket_server W s (s\<lparr>spc := (if s_socket W < 0 \<or> \<not> opt_ok W then S_end 1 else S_bind)\<rparr>)"
| ss_bind: "spc s = S_bind \<Longrightarrow> socket_server W s (s\<lparr>spc := (if bind_ok W then S_listen else S_end 1)\<rparr>)"
| ss_listen: "spc s = S_listen \<Longrightarrow>
    socket_server W s (if listen_ok W then s\<lparr>listening := True, spc := S_accept\<rparr> else s\<lparr>spc := S_end 1\<rparr>)"
| ss_accept: "spc s = S_accept \<Longrightarrow> connected s \<Longrightarrow> socket_server W s (s\<lparr>spc := S_read\<rparr>)"
| ss_read: "spc s = S_read \<Longrightarrow> 0 < n \<Longrightarrow> n \<le> 1024 \<Longrightarrow> n \<le> length (to_server s) \<Longrightarrow>
    socket_server W s (s\<lparr>server_got := take n (to_server s), to_server := drop n (to_server s), spc := S_send\<rparr>)"
| ss_send: "spc s = S_send \<Longrightarrow>
    socket_server W s (s\<lparr>to_client := to_client s @ server_greeting, spc := S_free\<rparr>)"
| ss_free: "spc s = S_free \<Longrightarrow> socket_server W s (s\<lparr>error := Some InvalidFree\<rparr>)"

inductive socket_client :: "world \<Rightarrow> sockets \<Rightarrow> sockets \<Rightarrow> bool" for W where
  sc_create: "cpc s = C_socket \<Longrightarrow> create_socket (c_malloc W) (c_socket W) = Inr fd \<Longrightarrow>
    socket_client W s (s\<lparr>cpc := C_connect\<rparr>)"
| sc_create_bad: "cpc s = C_socket \<Longrightarrow> create_socket (c_malloc W) (c_socket W) = Inl e \<Longrightarrow>
    socket_client W s (s\<lparr>error := Some e\<rparr>)"
| sc_connect: "cpc s = C_connect \<Longrightarrow> both_created s \<Longrightarrow>
    socket_client W s (if c_socket W \<ge> 0 \<and> listening s then s\<lparr>connected := True, cpc := C_send\<rparr>
                       else s\<lparr>cpc := C_end 1\<rparr>)"
| sc_send: "cpc s = C_send \<Longrightarrow>
    socket_client W s (s\<lparr>to_server := to_server s @ client_greeting, cpc := C_free\<rparr>)"
| sc_free: "cpc s = C_free \<Longrightarrow> socket_client W s (s\<lparr>error := Some InvalidFree\<rparr>)"

text \<open>Undefined behaviour is the end of the whole process.\<close>

definition standalone_step :: "world \<Rightarrow> sockets \<Rightarrow> sockets \<Rightarrow> bool" where
  "standalone_step W s t \<longleftrightarrow> error s = None \<and> (socket_server W s t \<or> socket_client W s t)"

text \<open>\<^verbatim>\<open>main\<close> gets past \<^verbatim>\<open>thpool_wait\<close> when both jobs have returned.\<close>

definition both_ended :: "sockets \<Rightarrow> bool" where
  "both_ended s \<longleftrightarrow> (\<exists>i. spc s = S_end i) \<and> (\<exists>i. cpc s = C_end i)"

inductive_cases tcp_server_stepE: "tcp_server_step W s t"
inductive_cases tcp_client_stepE: "tcp_client_step W s t"
inductive_cases socket_serverE: "socket_server W s t"
inductive_cases socket_clientE: "socket_client W s t"

section \<open>Termination\<close>

fun sv_weight :: "spos \<Rightarrow> nat" where
  "sv_weight S_socket = 8" | "sv_weight S_opt = 7" | "sv_weight S_bind = 6" | "sv_weight S_listen = 5"
| "sv_weight S_accept = 4" | "sv_weight S_read = 3" | "sv_weight S_send = 2" | "sv_weight S_free = 1"
| "sv_weight (S_end i) = 0"

fun cl_weight :: "cpos \<Rightarrow> nat" where
  "cl_weight C_socket = 5" | "cl_weight C_connect = 4" | "cl_weight C_send = 3" | "cl_weight C_free = 2"
| "cl_weight C_read = 1" | "cl_weight (C_end i) = 0"

definition net_measure :: "sockets \<Rightarrow> nat" where
  "net_measure s = sv_weight (spc s) + cl_weight (cpc s) + (if error s = None then 1 else 0)"

section \<open>Invariants\<close>

definition s_listens :: "spos \<Rightarrow> bool" where
  "s_listens p \<longleftrightarrow> p \<in> {S_accept, S_read, S_send, S_free, S_end 0}"

definition s_has_peer :: "spos \<Rightarrow> bool" where
  "s_has_peer p \<longleftrightarrow> p \<in> {S_read, S_send, S_free, S_end 0}"

definition s_has_read :: "spos \<Rightarrow> bool" where "s_has_read p \<longleftrightarrow> p \<in> {S_send, S_free, S_end 0}"
definition s_has_sent :: "spos \<Rightarrow> bool" where "s_has_sent p \<longleftrightarrow> p \<in> {S_free, S_end 0}"

definition c_has_peer :: "cpos \<Rightarrow> bool" where
  "c_has_peer p \<longleftrightarrow> p \<in> {C_send, C_free, C_read, C_end 0}"

definition c_has_sent :: "cpos \<Rightarrow> bool" where "c_has_sent p \<longleftrightarrow> p \<in> {C_free, C_read, C_end 0}"

lemmas pos_defs = s_listens_def s_has_peer_def s_has_read_def s_has_sent_def c_has_peer_def c_has_sent_def

text \<open>A greeting or the first part of it.\<close>

definition part :: "string \<Rightarrow> string \<Rightarrow> bool" where
  "part g m \<longleftrightarrow> m \<noteq> [] \<and> (\<exists>n. m = take n g)"

lemma part_take [simp]: "0 < n \<Longrightarrow> g \<noteq> [] \<Longrightarrow> part g (take n g)"
  by (auto simp: part_def)

text \<open>Who is connected, and the bytes on their way.\<close>

definition inv_conn :: "sockets \<Rightarrow> bool" where
  "inv_conn s \<longleftrightarrow> listening s = s_listens (spc s) \<and> connected s = c_has_peer (cpc s)
     \<and> (connected s \<longrightarrow> listening s) \<and> (s_has_peer (spc s) \<longrightarrow> connected s)
     \<and> (s_has_read (spc s) \<longrightarrow> c_has_sent (cpc s)) \<and> (cpc s = C_end 0 \<longrightarrow> s_has_sent (spc s))"

definition inv_bytes :: "sockets \<Rightarrow> bool" where
  "inv_bytes s \<longleftrightarrow> (\<not> s_has_read (spc s) \<longrightarrow> to_server s = (if c_has_sent (cpc s) then client_greeting else []))
     \<and> (cpc s \<noteq> C_end 0 \<longrightarrow> to_client s = (if s_has_sent (spc s) then server_greeting else []))
     \<and> (s_has_read (spc s) \<longrightarrow> part client_greeting (server_got s))
     \<and> (cpc s = C_end 0 \<longrightarrow> part server_greeting (client_got s))"

definition pair_inv :: "sockets \<Rightarrow> bool" where
  "pair_inv s \<longleftrightarrow> inv_conn s \<and> inv_bytes s \<and> error s = None \<and> spc s \<noteq> S_free \<and> cpc s \<noteq> C_free
     \<and> (\<forall>i. spc s = S_end i \<longrightarrow> i = 0 \<or> i = 1) \<and> (\<forall>i. cpc s = C_end i \<longrightarrow> i = 0 \<or> i = - 1)"

definition standalone_inv :: "sockets \<Rightarrow> bool" where
  "standalone_inv s \<longleftrightarrow> inv_conn s \<and> inv_bytes s \<and> (error s = None \<or> error s = Some InvalidFree \<or> error s = Some NullDeref)
     \<and> (\<forall>i. spc s = S_end i \<longrightarrow> i = 1) \<and> cpc s \<noteq> C_read \<and> (\<forall>i. cpc s = C_end i \<longrightarrow> i = 1)"

lemma greetings_nonempty [simp]: "server_greeting \<noteq> []" "client_greeting \<noteq> []"
  by (simp_all add: server_greeting_def client_greeting_def)

lemma inv_conn_server: "tcp_server_step W s t \<Longrightarrow> pair_inv s \<Longrightarrow> inv_conn t"
  by (erule tcp_server_step.cases) (auto simp: pair_inv_def inv_conn_def inv_bytes_def pos_defs split: if_splits)

lemma inv_bytes_server: "tcp_server_step W s t \<Longrightarrow> pair_inv s \<Longrightarrow> inv_bytes t"
  by (erule tcp_server_step.cases) (auto simp: pair_inv_def inv_conn_def inv_bytes_def pos_defs split: if_splits)

lemma inv_conn_client: "tcp_client_step W s t \<Longrightarrow> pair_inv s \<Longrightarrow> inv_conn t"
  by (erule tcp_client_step.cases) (auto simp: pair_inv_def inv_conn_def inv_bytes_def pos_defs split: if_splits)

lemma inv_bytes_client: "tcp_client_step W s t \<Longrightarrow> pair_inv s \<Longrightarrow> inv_bytes t"
  by (erule tcp_client_step.cases) (auto simp: pair_inv_def inv_conn_def inv_bytes_def pos_defs split: if_splits)

lemma pair_inv_step:
  assumes "pair_inv s" and "pair_step W s t"
  shows "pair_inv t"
  using assms(2) unfolding pair_step_def
proof
  assume st: "tcp_server_step W s t"
  from inv_conn_server [OF st assms(1)] inv_bytes_server [OF st assms(1)] st assms(1) show ?thesis
    by (auto simp: pair_inv_def elim!: tcp_server_stepE split: if_splits)
next
  assume st: "tcp_client_step W s t"
  from inv_conn_client [OF st assms(1)] inv_bytes_client [OF st assms(1)] st assms(1) show ?thesis
    by (auto simp: pair_inv_def elim!: tcp_client_stepE split: if_splits)
qed

lemma standalone_conn_server: "socket_server W s t \<Longrightarrow> standalone_inv s \<Longrightarrow> inv_conn t"
  by (erule socket_server.cases)
    (auto simp: standalone_inv_def inv_conn_def inv_bytes_def pos_defs split: if_splits)

lemma standalone_bytes_server: "socket_server W s t \<Longrightarrow> standalone_inv s \<Longrightarrow> inv_bytes t"
  by (erule socket_server.cases)
    (auto simp: standalone_inv_def inv_conn_def inv_bytes_def pos_defs split: if_splits)

lemma standalone_conn_client: "socket_client W s t \<Longrightarrow> standalone_inv s \<Longrightarrow> inv_conn t"
  by (erule socket_client.cases)
    (auto simp: standalone_inv_def inv_conn_def inv_bytes_def pos_defs split: if_splits)

lemma standalone_bytes_client: "socket_client W s t \<Longrightarrow> standalone_inv s \<Longrightarrow> inv_bytes t"
  by (erule socket_client.cases)
    (auto simp: standalone_inv_def inv_conn_def inv_bytes_def pos_defs split: if_splits)

lemma standalone_inv_step:
  assumes "standalone_inv s" and "standalone_step W s t"
  shows "standalone_inv t"
proof -
  from assms(2) consider "socket_server W s t" | "socket_client W s t" by (auto simp: standalone_step_def)
  then show ?thesis
  proof cases
    case 1
    from standalone_conn_server [OF 1 assms(1)] standalone_bytes_server [OF 1 assms(1)] 1 assms(1) show ?thesis
      by (auto simp: standalone_inv_def create_socket_def elim!: socket_serverE split: if_splits)
  next
    case 2
    from standalone_conn_client [OF 2 assms(1)] standalone_bytes_client [OF 2 assms(1)] 2 assms(1) show ?thesis
      by (auto simp: standalone_inv_def create_socket_def elim!: socket_clientE split: if_splits)
  qed
qed

lemma net_init_inv:
  assumes "net_init s"
  shows "pair_inv s" and "standalone_inv s" and "net_measure s = 14"
  using assms by (auto simp: net_init_def pair_inv_def standalone_inv_def inv_conn_def inv_bytes_def
      pos_defs net_measure_def)

section \<open>Progress and termination\<close>

text \<open>The server waits for a client that has given up.\<close>

definition server_hangs :: "sockets \<Rightarrow> bool" where
  "server_hangs s \<longleftrightarrow> spc s = S_accept \<and> (\<exists>i. cpc s = C_end i) \<and> \<not> connected s"

definition pair_final :: "sockets \<Rightarrow> bool" where
  "pair_final s \<longleftrightarrow> both_ended s \<or> server_hangs s"

definition standalone_final :: "sockets \<Rightarrow> bool" where
  "standalone_final s \<longleftrightarrow> error s \<noteq> None \<or> both_ended s \<or> server_hangs s"

lemma server_reads:
  assumes "spc s = S_read" and "inv_bytes s" and "c_has_sent (cpc s)"
  shows "\<exists>t. tcp_server_step W s t" and "\<exists>t. socket_server W s t"
proof -
  have "Suc 0 \<le> length (to_server s)"
    using assms by (auto simp: inv_bytes_def pos_defs client_greeting_def)
  then show "\<exists>t. tcp_server_step W s t" and "\<exists>t. socket_server W s t"
    using s_read [OF assms(1), of 1] ss_read [OF assms(1), of 1] by auto
qed

lemma client_reads:
  assumes "cpc s = C_read" and "inv_bytes s" and "s_has_sent (spc s)"
  shows "\<exists>t. tcp_client_step W s t"
proof -
  have "Suc 0 \<le> length (to_client s)"
    using assms by (auto simp: inv_bytes_def server_greeting_def)
  then show ?thesis using c_read [OF assms(1), of 1] by auto
qed

lemma c_peer_sent: "c_has_peer p \<Longrightarrow> p \<noteq> C_send \<Longrightarrow> c_has_sent p"
  by (auto simp: pos_defs)

lemma client_starts:
  "cpc s = C_socket \<or> cpc s = C_connect \<or> cpc s = C_send \<Longrightarrow> \<exists>t. tcp_client_step W s t"
  by (blast intro: tcp_client_step.intros(1-3))

lemma pair_progress:
  assumes "pair_inv s" and "\<not> pair_final s"
  shows "\<exists>t. pair_step W s t"
proof (cases "cpc s = C_socket \<or> cpc s = C_connect \<or> cpc s = C_send")
  case True
  then show ?thesis using client_starts by (auto simp: pair_step_def)
next
  case False
  then have *: "cpc s = C_read \<or> (\<exists>i. cpc s = C_end i)"
    using assms(1) by (cases "cpc s") (auto simp: pair_inv_def)
  have conn: "connected s = c_has_peer (cpc s)" using assms(1) by (simp add: pair_inv_def inv_conn_def)
  then have sent: "connected s \<Longrightarrow> c_has_sent (cpc s)" using False c_peer_sent by auto
  show ?thesis
  proof (cases "spc s")
    case S_accept
    then have "connected s" using * assms(2) conn by (auto simp: pair_final_def server_hangs_def c_has_peer_def)
    with S_accept show ?thesis using s_accept by (auto simp: pair_step_def)
  next
    case S_read
    then have "connected s" using assms(1) by (auto simp: pair_inv_def inv_conn_def s_has_peer_def)
    then have "c_has_sent (cpc s)" by (rule sent)
    moreover have "inv_bytes s" using assms(1) by (simp add: pair_inv_def)
    ultimately show ?thesis using server_reads(1) [OF S_read] unfolding pair_step_def by blast
  next
    case (S_end i)
    then have r: "cpc s = C_read" using * assms(2) by (auto simp: pair_final_def both_ended_def)
    have "s_has_sent (spc s)"
      using assms(1) S_end r by (auto simp: pair_inv_def inv_conn_def pos_defs)
    moreover have "inv_bytes s" using assms(1) by (simp add: pair_inv_def)
    ultimately show ?thesis using client_reads [OF r] unfolding pair_step_def by blast
  qed (use assms(1) in \<open>auto simp: pair_step_def pair_inv_def intro: tcp_server_step.intros\<close>)
qed

lemma create_moves:
  "spc s = S_socket \<Longrightarrow> \<exists>t. socket_server W s t" "cpc s = C_socket \<Longrightarrow> \<exists>t. socket_client W s t"
  using ss_create [of s W "s_socket W"] ss_create_bad [of s W NullDeref]
    sc_create [of s W "c_socket W"] sc_create_bad [of s W NullDeref]
  by (cases "s_malloc W"; cases "c_malloc W"; auto simp: create_socket_def)+

lemma standalone_progress:
  assumes "standalone_inv s" and "\<not> standalone_final s"
  shows "\<exists>t. standalone_step W s t"
proof -
  have e: "error s = None" using assms(2) by (auto simp: standalone_final_def)
  have "(\<exists>t. socket_server W s t) \<or> (\<exists>t. socket_client W s t)"
  proof (cases "cpc s = C_socket \<or> cpc s = C_send \<or> cpc s = C_free \<or> cpc s = C_connect \<and> spc s \<noteq> S_socket")
    case True
    then have "cpc s = C_connect \<Longrightarrow> both_created s" by (auto simp: both_created_def)
    with True show ?thesis using create_moves(2) [of s] by (blast intro: socket_client.intros)
  next
    case False
    then have c: "cpc s = C_connect \<and> spc s = S_socket \<or> (\<exists>i. cpc s = C_end i)"
      using assms(1) by (cases "cpc s") (auto simp: standalone_inv_def)
    show ?thesis
    proof (cases "spc s")
      case S_accept
      then show ?thesis using c assms(2) ss_accept by (auto simp: standalone_final_def server_hangs_def)
    next
      case S_read
      then have "connected s" using assms(1) by (auto simp: standalone_inv_def inv_conn_def s_has_peer_def)
      moreover have "connected s = c_has_peer (cpc s)" using assms(1) by (simp add: standalone_inv_def inv_conn_def)
      moreover have "\<not> c_has_peer (cpc s)" using c assms(1) by (auto simp: standalone_inv_def c_has_peer_def)
      ultimately show ?thesis by simp
    next
      case (S_end i)
      then show ?thesis using c assms(2) by (auto simp: standalone_final_def both_ended_def)
    next
      case S_opt
      then have "both_created s" using c by (auto simp: both_created_def)
      then show ?thesis using ss_opt [OF S_opt] by blast
    qed (auto intro: socket_server.intros create_moves)
  qed
  with e show ?thesis by (auto simp: standalone_step_def)
qed

lemma pair_measure: "pair_inv s \<Longrightarrow> pair_step W s t \<Longrightarrow> net_measure t < net_measure s"
  by (auto simp: pair_step_def net_measure_def elim!: tcp_server_stepE tcp_client_stepE split: if_splits)

lemma standalone_measure: "standalone_step W s t \<Longrightarrow> net_measure t < net_measure s"
  by (auto simp: standalone_step_def net_measure_def elim!: socket_serverE socket_clientE split: if_splits)

interpretation pair: terminating_system net_init "pair_step W" pair_inv pair_final net_measure for W
  by unfold_locales (auto intro: net_init_inv pair_inv_step pair_progress pair_measure)

interpretation standalone: terminating_system net_init "standalone_step W" standalone_inv standalone_final
    net_measure for W
  by unfold_locales (auto intro: net_init_inv standalone_inv_step standalone_progress standalone_measure)

section \<open>Properties\<close>

lemma pair_outcome:
  assumes "pair_inv t" and "\<nexists>u. pair_step W t u"
  shows "spc t = S_end 0 \<and> cpc t = C_end 0 \<and> part client_greeting (server_got t) \<and> part server_greeting (client_got t)
     \<or> spc t = S_end 1 \<and> cpc t = C_end (- 1) \<or> spc t = S_accept \<and> cpc t = C_end (- 1)"
proof -
  have "both_ended t \<or> server_hangs t" using pair_progress [OF assms(1)] assms(2) by (auto simp: pair_final_def)
  then show ?thesis
  proof
    assume "both_ended t"
    then obtain i k where ik: "spc t = S_end i" "cpc t = C_end k" by (auto simp: both_ended_def)
    then have "i = 0 \<or> i = 1" "k = 0 \<or> k = - 1" using assms(1) by (auto simp: pair_inv_def)
    with ik assms(1) show ?thesis by (auto simp: pair_inv_def inv_conn_def inv_bytes_def pos_defs)
  next
    assume h: "server_hangs t"
    then obtain k where k: "spc t = S_accept" "cpc t = C_end k" "\<not> connected t" by (auto simp: server_hangs_def)
    then have "k = - 1" using assms(1) by (auto simp: pair_inv_def inv_conn_def c_has_peer_def)
    with k show ?thesis by simp
  qed
qed

text \<open>
  C35: server and client as two processes, started in any order: at most 14 steps are possible, and
  when none is, either both have ended with status 0 and each has received the other's greeting or
  a first part of it, or the set-up of the server failed and both report failures, or the client came
  too early and the server waits in \<^verbatim>\<open>accept\<close>.
\<close>

theorem socket_pair_outcomes:
  assumes "net_init s"
  shows "(\<forall>n t. (pair_step W ^^ n) s t \<longrightarrow> n \<le> 14)
    \<and> (\<forall>t. (pair_step W)\<^sup>*\<^sup>* s t \<longrightarrow> (\<exists>u. pair_step W t u)
       \<or> spc t = S_end 0 \<and> cpc t = C_end 0 \<and> part client_greeting (server_got t) \<and> part server_greeting (client_got t)
       \<or> spc t = S_end 1 \<and> cpc t = C_end (- 1) \<or> spc t = S_accept \<and> cpc t = C_end (- 1))"
proof -
  have "n \<le> 14" if "(pair_step W ^^ n) s t" for n t
    using pair.run_bounded [OF that net_init_inv(1) [OF assms]] net_init_inv(3) [OF assms] by simp
  moreover have "(\<exists>u. pair_step W t u)
       \<or> spc t = S_end 0 \<and> cpc t = C_end 0 \<and> part client_greeting (server_got t) \<and> part server_greeting (client_got t)
       \<or> spc t = S_end 1 \<and> cpc t = C_end (- 1) \<or> spc t = S_accept \<and> cpc t = C_end (- 1)"
    if "(pair_step W)\<^sup>*\<^sup>* s t" for t
    using pair_outcome [OF pair.inv_run [OF that net_init_inv(1) [OF assms]]] by blast
  ultimately show ?thesis by blast
qed

definition good_world :: world where
  "good_world = \<lparr>s_socket = 3, c_socket = 3, opt_ok = True, bind_ok = True, listen_ok = True,
     s_malloc = True, c_malloc = True\<rparr>"

lemma pair_end_exists:
  assumes "pair_inv s"
  shows "\<exists>t. (pair_step W)\<^sup>*\<^sup>* s t \<and> (\<nexists>u. pair_step W t u)"
proof -
  from pair.reaches_final [OF assms] obtain t where t: "(pair_step W)\<^sup>*\<^sup>* s t" "pair_final t" by blast
  then have "\<nexists>u. pair_step W t u"
    by (auto simp: pair_final_def both_ended_def server_hangs_def pair_step_def elim!: tcp_server_stepE tcp_client_stepE)
  with t(1) show ?thesis by blast
qed

theorem socket_pair_outcomes_witness:
  "\<exists>s t. net_init s \<and> (pair_step good_world)\<^sup>*\<^sup>* s t
    \<and> (spc t = S_end 0 \<and> cpc t = C_end 0 \<and> part client_greeting (server_got t) \<and> part server_greeting (client_got t)
       \<or> spc t = S_end 1 \<and> cpc t = C_end (- 1) \<or> spc t = S_accept \<and> cpc t = C_end (- 1))"
proof -
  obtain s where s: "net_init s" by (simp add: net_init_def)
  from pair_end_exists [OF net_init_inv(1) [OF s]] obtain t where
    "(pair_step good_world)\<^sup>*\<^sup>* s t" "\<nexists>u. pair_step good_world t u" by blast
  with socket_pair_outcomes [OF s, of good_world] s show ?thesis by blast
qed

text \<open>A server that listens keeps listening, and a client that can connect then does.\<close>

definition exchange_inv :: "sockets \<Rightarrow> bool" where
  "exchange_inv s \<longleftrightarrow> pair_inv s \<and> listening s \<and> cpc s \<noteq> C_end (- 1)"

lemma exchange_inv_step:
  assumes "exchange_inv s" and "pair_step W s t" and "0 \<le> c_socket W"
  shows "exchange_inv t"
  using pair_inv_step [of s W t] assms
  by (auto simp: exchange_inv_def pair_step_def elim!: tcp_server_stepE tcp_client_stepE split: if_splits)

lemma exchange_inv_run:
  "(pair_step W)\<^sup>*\<^sup>* s t \<Longrightarrow> exchange_inv s \<Longrightarrow> 0 \<le> c_socket W \<Longrightarrow> exchange_inv t"
  by (induction rule: rtranclp_induct) (auto intro: exchange_inv_step)

text \<open>
  C36: a client started when the server waits in \<^verbatim>\<open>accept\<close> completes the exchange under every schedule:
  both processes end with status 0, and each has received the other's greeting or a first part of it.
\<close>

theorem started_in_order_exchange:
  assumes "net_init r" and "(pair_step W)\<^sup>*\<^sup>* r s" and "spc s = S_accept" and "cpc s = C_socket"
    and "0 \<le> c_socket W" and "(pair_step W)\<^sup>*\<^sup>* s t"
  shows "(\<exists>u. pair_step W t u) \<or> spc t = S_end 0 \<and> cpc t = C_end 0
     \<and> part client_greeting (server_got t) \<and> part server_greeting (client_got t)"
proof -
  have s: "pair_inv s" by (rule pair.inv_run [OF assms(2) net_init_inv(1) [OF assms(1)]])
  then have "listening s" using assms(3) by (simp add: pair_inv_def inv_conn_def s_listens_def)
  with s assms(4) have "exchange_inv s" by (simp add: exchange_inv_def)
  from exchange_inv_run [OF assms(6) this assms(5)] have t: "exchange_inv t" .
  then have "pair_inv t" by (simp add: exchange_inv_def)
  from pair_outcome [OF this, of W] t show ?thesis by (auto simp: exchange_inv_def)
qed

theorem started_in_order_exchange_witness:
  "\<exists>r s t. net_init r \<and> (pair_step good_world)\<^sup>*\<^sup>* r s \<and> spc s = S_accept \<and> (pair_step good_world)\<^sup>*\<^sup>* s t
     \<and> spc t = S_end 0 \<and> cpc t = C_end 0"
proof -
  obtain r where r: "net_init r" by (simp add: net_init_def)
  let ?s = "r\<lparr>listening := True, spc := S_accept\<rparr>"
  let ?a = "r\<lparr>spc := S_opt\<rparr>" and ?b = "r\<lparr>spc := S_bind\<rparr>" and ?c = "r\<lparr>spc := S_listen\<rparr>"
  have g: "s_socket good_world = 3" "c_socket good_world = 3" "opt_ok good_world" "bind_ok good_world" "listen_ok good_world"
    by (simp_all add: good_world_def)
  have "spc r = S_socket" using r by (simp add: net_init_def)
  then have "pair_step good_world r ?a" "pair_step good_world ?a ?b" "pair_step good_world ?b ?c" "pair_step good_world ?c ?s"
    using s_socket [of r good_world] s_opt [of ?a good_world] s_bind [of ?b good_world] s_listen [of ?c good_world] g
    by (simp_all add: pair_step_def)
  then have run: "(pair_step good_world)\<^sup>*\<^sup>* r ?s" by (meson rtranclp.rtrancl_refl rtranclp.rtrancl_into_rtrancl)
  from pair_end_exists [OF pair.inv_run [OF run net_init_inv(1) [OF r]]] obtain t where
    t: "(pair_step good_world)\<^sup>*\<^sup>* ?s t" "\<nexists>u. pair_step good_world t u" by blast
  have "cpc ?s = C_socket" "0 \<le> c_socket good_world" using r g by (simp_all add: net_init_def)
  from started_in_order_exchange [OF r run _ this t(1)] t r run show ?thesis by (intro exI [of _ r] exI [of _ ?s] exI [of _ t]) simp
qed

lemma null_error:
  assumes "net_init s" and "(standalone_step W)\<^sup>*\<^sup>* s t" and "error t = Some NullDeref"
  shows "\<not> (s_malloc W \<and> c_malloc W)"
  using assms(2,1,3)
  by (induction rule: rtranclp_induct)
    (auto simp: net_init_def standalone_step_def create_socket_def elim!: socket_serverE socket_clientE split: if_splits)

text \<open>
  C37: \<^verbatim>\<open>tcp_standalone.c\<close> never completes an exchange. When no step is possible any more, either
  the process has released a string literal with \<^verbatim>\<open>free\<close> (which happens whenever a connection was
  made), or one of the two structures could not be allocated and is used all the same, or the client
  came too early and \<^verbatim>\<open>main\<close> waits forever for the server in \<^verbatim>\<open>accept\<close>, or the
  set-up of the server failed, and only then \<^verbatim>\<open>main\<close> returns. The client has received nothing.
\<close>

theorem standalone_never_exchanges:
  assumes "net_init s" and "(standalone_step W)\<^sup>*\<^sup>* s t"
  shows "client_got t = [] \<and> ((\<exists>u. standalone_step W t u) \<or> error t = Some InvalidFree
     \<or> error t = Some NullDeref \<and> \<not> (s_malloc W \<and> c_malloc W)
     \<or> error t = None \<and> \<not> connected t \<and> cpc t = C_end 1 \<and> (spc t = S_accept \<or> spc t = S_end 1))"
proof -
  have t: "standalone_inv t" by (rule standalone.inv_run [OF assms(2) net_init_inv(2) [OF assms(1)]])
  have "client_got t = []"
    using assms(2,1) by (induction rule: rtranclp_induct)
      (auto simp: net_init_def standalone_step_def elim!: socket_serverE socket_clientE)
  moreover have "error t = Some InvalidFree \<or> error t = Some NullDeref \<and> \<not> (s_malloc W \<and> c_malloc W)
     \<or> error t = None \<and> \<not> connected t \<and> cpc t = C_end 1 \<and> (spc t = S_accept \<or> spc t = S_end 1)"
    if "\<nexists>u. standalone_step W t u"
  proof -
    have "standalone_final t" using standalone_progress [OF t] that by blast
    then consider "error t \<noteq> None" | i k where "error t = None" "cpc t = C_end k" "spc t = S_end i"
      | k where "error t = None" "cpc t = C_end k" "spc t = S_accept"
      by (auto simp: standalone_final_def both_ended_def server_hangs_def)
    then show ?thesis
    proof cases
      case 1
      then show ?thesis using t null_error [OF assms] by (auto simp: standalone_inv_def)
    next
      case (2 i k)
      then have "i = 1" "k = 1" "connected t = c_has_peer (cpc t)" using t by (auto simp: standalone_inv_def inv_conn_def)
      with 2 show ?thesis by (simp add: c_has_peer_def)
    next
      case (3 k)
      then have "k = 1" "connected t = c_has_peer (cpc t)" using t by (auto simp: standalone_inv_def inv_conn_def)
      with 3 show ?thesis by (simp add: c_has_peer_def)
    qed
  qed
  ultimately show ?thesis by blast
qed

theorem standalone_never_exchanges_witness:
  "\<exists>s t. net_init s \<and> (standalone_step good_world)\<^sup>*\<^sup>* s t \<and> (error t = Some InvalidFree
     \<or> error t = None \<and> \<not> connected t \<and> cpc t = C_end 1 \<and> (spc t = S_accept \<or> spc t = S_end 1))"
proof -
  obtain s where s: "net_init s" by (simp add: net_init_def)
  from standalone.reaches_final [OF net_init_inv(2) [OF s]] obtain t where
    t: "(standalone_step good_world)\<^sup>*\<^sup>* s t" "standalone_final t" by blast
  then have "\<nexists>u. standalone_step good_world t u"
    by (auto simp: standalone_final_def both_ended_def server_hangs_def standalone_step_def
        elim!: socket_serverE socket_clientE)
  moreover have "s_malloc good_world \<and> c_malloc good_world" by (simp add: good_world_def)
  ultimately show ?thesis using standalone_never_exchanges [OF s t(1)] s t(1) by blast
qed

text \<open>
  The two flags of \<^verbatim>\<open>setsockopt\<close> are numbers of options, not bits: their disjunction is the number
  of the second one, and \<^verbatim>\<open>SO_REUSEADDR\<close> is never set. And a failure of \<^verbatim>\<open>socket\<close> passes the server's
  test, while the valid descriptor 0 does not.
\<close>

lemma sockopt_is_reuseport: "server_sockopt = SO_REUSEPORT"
  by (simp add: server_sockopt_def SO_REUSEADDR_def SO_REUSEPORT_def)

lemma socket_test_inverted:
  assumes "spc s = S_socket"
  shows "s_socket W = - 1 \<Longrightarrow> tcp_server_step W s (s\<lparr>spc := S_opt\<rparr>)"
    and "s_socket W = 0 \<Longrightarrow> tcp_server_step W s (s\<lparr>spc := S_end 1\<rparr>)"
  using tcp_server_step.s_socket [OF assms, of W] by simp_all

end
