(* ===== verification/Daemon.thy ===== *)
theory Daemon
  imports Posix_Files
begin

unbundle bit_operations_syntax

text \<open>
  \<^verbatim>\<open>Linux/Daemon/simple_daemon.c\<close> and \<^verbatim>\<open>Linux/Syslog/syslog_example.c\<close>: the system log with its
  mask, and the daemon from \<^verbatim>\<open>fork\<close> to its end over the descriptors of theory \<open>Posix_Files\<close>. The
  results of \<^verbatim>\<open>fork\<close>, \<^verbatim>\<open>setsid\<close> and \<^verbatim>\<open>chdir\<close> and the signals that arrive are inputs.
\<close>

section \<open>The system log\<close>

definition LOG_EMERG :: nat where "LOG_EMERG = 0"
definition LOG_NOTICE :: nat where "LOG_NOTICE = 5"
definition LOG_INFO :: nat where "LOG_INFO = 6"
definition LOG_DEBUG :: nat where "LOG_DEBUG = 7"

lemmas priorities = LOG_EMERG_def LOG_NOTICE_def LOG_INFO_def LOG_DEBUG_def

definition LOG_MASK :: "nat \<Rightarrow> int" where "LOG_MASK pri = push_bit pri 1"

text \<open>At first the mask lets all eight priorities through. A message is stored with its priority.\<close>

record slog =
  log_ident :: "string option"
  log_mask :: int
  log_lines :: "(nat \<times> string) list"

definition initial_slog :: slog where
  "initial_slog = \<lparr>log_ident = None, log_mask = 255, log_lines = []\<rparr>"

definition openlog :: "string \<Rightarrow> slog \<Rightarrow> slog" where
  "openlog ident l = l\<lparr>log_ident := Some ident\<rparr>"

definition setlogmask :: "int \<Rightarrow> slog \<Rightarrow> slog" where
  "setlogmask m l = (if m = 0 then l else l\<lparr>log_mask := m\<rparr>)"

definition syslog :: "nat \<Rightarrow> string \<Rightarrow> slog \<Rightarrow> slog" where
  "syslog pri msg l = (if LOG_MASK pri AND log_mask l = 0 then l else l\<lparr>log_lines := log_lines l @ [(pri, msg)]\<rparr>)"

definition closelog :: "slog \<Rightarrow> slog" where
  "closelog l = l\<lparr>log_ident := None\<rparr>"

text \<open>\<^verbatim>\<open>syslog_example.c\<close>.\<close>

definition syslog_main :: "slog \<Rightarrow> int \<times> slog" where
  "syslog_main l =
     (let l = openlog ''hello syslog'' l;
          l = setlogmask (LOG_MASK LOG_NOTICE OR LOG_MASK LOG_INFO) l;
          l = syslog LOG_EMERG ''LOG_EMERG for test'' l;
          l = syslog LOG_NOTICE ''LOG_NOTICE for test'' l;
          l = syslog LOG_INFO ''LOG_INFO for test'' l;
          l = syslog LOG_DEBUG ''LOG_DEBUG for test'' l in
      (0, closelog l))"

section \<open>The daemon\<close>

definition SIGINT :: nat where "SIGINT = 2"
definition SIGSEGV :: nat where "SIGSEGV = 11"
definition SIGTERM :: nat where "SIGTERM = 15"

record daemon =
  keep_alive :: bool
  dlog :: slog
  handlers :: "nat list"
  dfs :: fsys

text \<open>A signal that arrives, with the process and the user that sent it.\<close>

record siginfo =
  signo :: nat
  si_pid :: int
  si_uid :: int

text \<open>In the \<^verbatim>\<open>switch\<close>, the case of \<^verbatim>\<open>SIGINT\<close> falls through to the others.\<close>

definition signal_handler :: "siginfo \<Rightarrow> daemon \<Rightarrow> daemon" where
  "signal_handler g d =
     (let d = d\<lparr>dlog := syslog LOG_NOTICE (''Sending PID:'' @ dec_int (si_pid g) @ '', UID:'' @ dec_int (si_uid g)) (dlog d)\<rparr>;
          d = (if signo g = SIGINT then d\<lparr>dlog := syslog LOG_INFO ''Receiving SIGINT, start exiting the daemon...'' (dlog d)\<rparr>
               else d) in
      d\<lparr>keep_alive := False\<rparr>)"

text \<open>
  Signals that arrive one after the other. A signal without a handler ends the process
  (\<open>Inl\<close> its number); only signals with this default action are considered.
\<close>

fun deliver_signals :: "siginfo list \<Rightarrow> daemon \<Rightarrow> nat + daemon" where
  "deliver_signals [] d = Inr d"
| "deliver_signals (g # gs) d = (if signo g \<in> set (handlers d) then deliver_signals gs (signal_handler g d) else Inl (signo g))"

definition and_then :: "nat + daemon \<Rightarrow> (daemon \<Rightarrow> nat + 'a) \<Rightarrow> nat + 'a" where
  "and_then m f = (case m of Inl g \<Rightarrow> Inl g | Inr d \<Rightarrow> f d)"

definition log_notice :: "string \<Rightarrow> daemon \<Rightarrow> daemon" where
  "log_notice msg d = d\<lparr>dlog := syslog LOG_NOTICE msg (dlog d)\<rparr>"

text \<open>
  Signals can arrive between any two statements: \<open>sg k\<close> are those that arrive at the \<open>k\<close>-th place, in the
  order of the text. First the places between the calls of \<^verbatim>\<open>sigaction\<close>.
\<close>

definition sigaction :: "nat \<Rightarrow> daemon \<Rightarrow> daemon" where
  "sigaction g d = d\<lparr>handlers := handlers d @ [g]\<rparr>"

definition catch_signal :: "(nat \<Rightarrow> siginfo list) \<Rightarrow> daemon \<Rightarrow> nat + daemon" where
  "catch_signal sg d =
     and_then (deliver_signals (sg 1) (sigaction SIGINT d)) (\<lambda>d.
     and_then (deliver_signals (sg 2) (sigaction SIGSEGV d)) (\<lambda>d.
     Inr (sigaction SIGTERM d)))"

text \<open>
  The loop: its body ends with \<^verbatim>\<open>break\<close>; \<open>sg 8\<close> arrive between the test and the message, \<open>sg 9\<close> during \<^verbatim>\<open>sleep\<close>.
\<close>

definition big_loop :: "(nat \<Rightarrow> siginfo list) \<Rightarrow> daemon \<Rightarrow> nat + daemon" where
  "big_loop sg d =
     (if keep_alive d
      then and_then (deliver_signals (sg 8) d) (\<lambda>d. deliver_signals (sg 9) (log_notice ''simple daemon is running.'' d))
      else Inr d)"

text \<open>The three calls of \<^verbatim>\<open>open\<close>: the second argument is a number of a descriptor, used as the access mode.\<close>

definition null_flags :: "access \<Rightarrow> oflags" where
  "null_flags a = \<lparr>o_access = a, o_creat = False, o_excl = False\<rparr>"

definition redirect :: "fsys \<Rightarrow> fsys" where
  "redirect s =
     (let s = snd (open_file s ''/dev/null'' (null_flags O_RDONLY) (False, False));
          s = snd (open_file s ''/dev/null'' (null_flags O_WRONLY) (False, False)) in
      snd (open_file s ''/dev/null'' (null_flags O_RDWR) (False, False)))"

text \<open>
  \<^verbatim>\<open>main\<close>. The calls of \<^verbatim>\<open>umask\<close> and \<^verbatim>\<open>openlog\<close> count as one statement, and so do the three calls of
  \<^verbatim>\<open>open\<close>: the handler touches neither the settings nor the descriptors.
\<close>

definition daemon_main :: "int \<Rightarrow> int \<Rightarrow> int \<Rightarrow> (nat \<Rightarrow> siginfo list) \<Rightarrow> daemon \<Rightarrow> nat + int \<times> daemon" where
  "daemon_main pid sid cd sg d =
     (if pid < 0 then Inr (1, d)
      else if pid > 0 then Inr (0, d)
      else
        and_then (deliver_signals (sg 0) (d\<lparr>dlog := openlog ''simple daemon'' (dlog d)\<rparr>)) (\<lambda>d.
        and_then (catch_signal sg d) (\<lambda>d.
        and_then (deliver_signals (sg 3) d) (\<lambda>d.
        if sid < 0 then Inr (1, d)
        else and_then (deliver_signals (sg 4) d) (\<lambda>d.
        if cd < 0 then Inr (1, d)
        else and_then (deliver_signals (sg 5) d) (\<lambda>d.
        and_then (deliver_signals (sg 6) (d\<lparr>dfs := redirect (dfs d)\<rparr>)) (\<lambda>d.
        and_then (deliver_signals (sg 7) (log_notice ''simple daemon started.'' d)) (\<lambda>d.
        and_then (big_loop sg d) (\<lambda>d.
        and_then (deliver_signals (sg 10) d) (\<lambda>d.
        and_then (deliver_signals (sg 11) (log_notice ''simple daemon terminated.'' d)) (\<lambda>d.
        and_then (deliver_signals (sg 12) (d\<lparr>dlog := closelog (dlog d)\<rparr>)) (\<lambda>d.
        Inr (0, d)))))))))))))"

section \<open>The filter of the log\<close>

lemma mask_bit: "LOG_MASK pri AND m = 0 \<longleftrightarrow> \<not> bit m pri"
proof -
  have b: "bit (LOG_MASK pri AND m) n \<longleftrightarrow> n = pri \<and> bit m n" for n
    by (auto simp: LOG_MASK_def bit_and_iff bit_push_bit_iff bit_exp_iff)
  show ?thesis
  proof
    assume "LOG_MASK pri AND m = 0"
    with b [of pri] show "\<not> bit m pri" by simp
  next
    assume "\<not> bit m pri"
    with b show "LOG_MASK pri AND m = 0" by (intro bit_eqI) simp
  qed
qed

lemma syslog_lines:
  "log_lines (syslog pri msg l) = log_lines l @ (if bit (log_mask l) pri then [(pri, msg)] else [])"
  and syslog_mask: "log_mask (syslog pri msg l) = log_mask l"
  and syslog_ident: "log_ident (syslog pri msg l) = log_ident l"
  by (simp_all add: syslog_def mask_bit)

definition syslog_all :: "(nat \<times> string) list \<Rightarrow> slog \<Rightarrow> slog" where
  "syslog_all ms l = fold (\<lambda>(p, m). syslog p m) ms l"

lemma syslog_all_lines: "log_lines (syslog_all ms l) = log_lines l @ filter (\<lambda>(p, m). bit (log_mask l) p) ms"
  and syslog_all_mask: "log_mask (syslog_all ms l) = log_mask l"
  unfolding syslog_all_def
  by (induction ms arbitrary: l) (auto simp: syslog_lines syslog_mask)

lemma bit_mask: "bit (LOG_MASK p) q \<longleftrightarrow> p = q"
  by (auto simp: LOG_MASK_def bit_push_bit_iff bit_1_iff bit_exp_iff)

text \<open>
  \<^verbatim>\<open>syslog_example.c\<close> logs its messages of the priorities \<^verbatim>\<open>LOG_NOTICE\<close> and \<^verbatim>\<open>LOG_INFO\<close> and neither
  the emergency nor the debug message; the mask outlives \<^verbatim>\<open>closelog\<close> and filters everything that is
  logged later in the process.
\<close>

theorem syslog_example_filters:
  "fst (syslog_main l) = 0 \<and> log_lines (syslog_all ms (snd (syslog_main l))) =
     log_lines l @ [(LOG_NOTICE, ''LOG_NOTICE for test''), (LOG_INFO, ''LOG_INFO for test'')]
       @ filter (\<lambda>(p, m). p = LOG_NOTICE \<or> p = LOG_INFO) ms"
proof -
  let ?m = "LOG_MASK LOG_NOTICE OR LOG_MASK LOG_INFO"
  have b: "bit ?m p \<longleftrightarrow> p = LOG_NOTICE \<or> p = LOG_INFO" for p by (auto simp: bit_or_iff bit_mask)
  then have "?m \<noteq> 0" by (metis bit_0_eq bot_apply bot_bool_def)
  then have "log_mask (snd (syslog_main l)) = ?m"
    by (simp add: syslog_main_def closelog_def syslog_mask setlogmask_def openlog_def)
  moreover have "log_lines (snd (syslog_main l)) =
      log_lines l @ [(LOG_NOTICE, ''LOG_NOTICE for test''), (LOG_INFO, ''LOG_INFO for test'')]"
    using \<open>?m \<noteq> 0\<close>
    by (simp add: syslog_main_def closelog_def syslog_lines syslog_mask setlogmask_def openlog_def b)
      (simp add: priorities)
  ultimately show ?thesis by (simp add: syslog_all_lines b syslog_main_def)
qed

section \<open>Descriptors of the daemon\<close>

lemma new_fd_keeps: "fds s n = Some k \<Longrightarrow> fds (snd (new_fd s name a)) n = Some k"
  by (auto simp: new_fd_def split: option.splits dest: lowest_fd_free)

lemma open_file_keeps: "fds s n = Some k \<Longrightarrow> fds (snd (open_file s name fl perm)) n = Some k"
  by (auto simp: open_file_def new_fd_keeps split: option.splits inode.splits)

lemma lowest_fd_is:
  assumes "fds s n = None" and "n < 1024" and "\<And>m. m < n \<Longrightarrow> fds s m \<noteq> None"
  shows "lowest_fd s 0 = Some n"
proof -
  obtain m where m: "lowest_fd s 0 = Some m"
    using assms(1,2) lowest_fd_None [of s 0] by (cases "lowest_fd s 0") auto
  have "\<not> n < m"
  proof
    assume "n < m"
    with m assms(1) show False by (auto simp: lowest_fd_def find_Some_iff)
  qed
  moreover have "\<not> m < n" using assms(3) [of m] lowest_fd_free [OF m] by auto
  ultimately show ?thesis using m by simp
qed

text \<open>Opening the null device when \<open>n\<close> is the lowest free descriptor.\<close>

lemma open_null:
  assumes "files s ''/dev/null'' = Some (Reg c True True)" and "lowest_fd s 0 = Some n"
  shows "snd (open_file s ''/dev/null'' (null_flags a) p)
    = s\<lparr>ofds := ofds s @ [\<lparr>fname = ''/dev/null'', offset = 0, acc = a\<rparr>], fds := (fds s)(n \<mapsto> length (ofds s))\<rparr>"
  using assms by (simp add: open_file_def null_flags_def new_fd_def)

definition std_open :: "fsys \<Rightarrow> bool" where
  "std_open s \<longleftrightarrow> fds s 0 \<noteq> None \<and> fds s 1 \<noteq> None \<and> fds s 2 \<noteq> None"

lemma redirect_opens:
  assumes "files s ''/dev/null'' = Some (Reg c True True)" and "std_open s"
    and "fds s 3 = None" and "fds s 4 = None" and "fds s 5 = None"
  shows "redirect s = s\<lparr>ofds := ofds s @ [\<lparr>fname = ''/dev/null'', offset = 0, acc = O_RDONLY\<rparr>,
        \<lparr>fname = ''/dev/null'', offset = 0, acc = O_WRONLY\<rparr>, \<lparr>fname = ''/dev/null'', offset = 0, acc = O_RDWR\<rparr>],
      fds := (fds s)(3 \<mapsto> length (ofds s), 4 \<mapsto> length (ofds s) + 1, 5 \<mapsto> length (ofds s) + 2)\<rparr>"
proof -
  have below: "fds s m \<noteq> None" if "m < 3" for m
  proof -
    from that have "m = 0 \<or> m = 1 \<or> m = 2" by auto
    then show ?thesis using assms(2) by (auto simp: std_open_def)
  qed
  define s1 where "s1 = s\<lparr>ofds := ofds s @ [\<lparr>fname = ''/dev/null'', offset = 0, acc = O_RDONLY\<rparr>],
      fds := (fds s)(3 \<mapsto> length (ofds s))\<rparr>"
  define s2 where "s2 = s1\<lparr>ofds := ofds s1 @ [\<lparr>fname = ''/dev/null'', offset = 0, acc = O_WRONLY\<rparr>],
      fds := (fds s1)(4 \<mapsto> length (ofds s1))\<rparr>"
  have l1: "lowest_fd s 0 = Some 3" by (rule lowest_fd_is) (use assms(3) below in auto)
  have "m < 4 \<Longrightarrow> m = 3 \<or> m < 3" for m :: nat by auto
  then have l2: "lowest_fd s1 0 = Some 4"
    by (intro lowest_fd_is) (use assms(4) below in \<open>auto simp: s1_def\<close>)
  have "m < 5 \<Longrightarrow> m = 4 \<or> m = 3 \<or> m < 3" for m :: nat by auto
  then have l3: "lowest_fd s2 0 = Some 5"
    by (intro lowest_fd_is) (use assms(5) below in \<open>auto simp: s1_def s2_def\<close>)
  have o1: "snd (open_file s ''/dev/null'' (null_flags O_RDONLY) p) = s1" for p
    unfolding s1_def by (rule open_null [OF assms(1) l1])
  have f1: "files s1 ''/dev/null'' = Some (Reg c True True)" using assms(1) by (simp add: s1_def)
  have o2: "snd (open_file s1 ''/dev/null'' (null_flags O_WRONLY) p) = s2" for p
    unfolding s2_def by (rule open_null [OF f1 l2])
  have f2: "files s2 ''/dev/null'' = Some (Reg c True True)" using f1 by (simp add: s2_def)
  show ?thesis
    by (simp add: redirect_def o1 o2 open_null [OF f2 l3]) (simp add: s1_def s2_def)
qed

section \<open>A run of the daemon\<close>

definition handled :: "nat set \<Rightarrow> siginfo list \<Rightarrow> bool" where
  "handled G gs \<longleftrightarrow> list_all (\<lambda>g. signo g \<in> G) gs"

definition handler_lines :: "siginfo list \<Rightarrow> (nat \<times> string) list" where
  "handler_lines gs = concat (map (\<lambda>g. (LOG_NOTICE, ''Sending PID:'' @ dec_int (si_pid g) @ '', UID:'' @ dec_int (si_uid g))
     # (if signo g = SIGINT then [(LOG_INFO, ''Receiving SIGINT, start exiting the daemon...'')] else [])) gs)"

lemma handler_lines_append: "handler_lines (gs @ hs) = handler_lines gs @ handler_lines hs" "handler_lines [] = []"
  by (simp_all add: handler_lines_def)

text \<open>
  What a daemon has come to: the signals that were handled, what it has logged since its start in state \<open>d\<close>, with
  a log that takes all messages, and its descriptors.
\<close>

definition came_to :: "daemon \<Rightarrow> nat set \<Rightarrow> bool \<Rightarrow> (nat \<times> string) list \<Rightarrow> fsys \<Rightarrow> daemon \<Rightarrow> bool" where
  "came_to d G alive ls f t \<longleftrightarrow> bit (log_mask (dlog t)) LOG_NOTICE \<and> bit (log_mask (dlog t)) LOG_INFO
     \<and> set (handlers t) = G \<and> keep_alive t = alive \<and> log_lines (dlog t) = log_lines (dlog d) @ ls \<and> dfs t = f"

lemma came_notice: "came_to d G a ls f t \<Longrightarrow> came_to d G a (ls @ [(LOG_NOTICE, m)]) f (log_notice m t)"
  by (simp add: came_to_def log_notice_def syslog_mask syslog_lines)

lemma came_sigaction: "came_to d G a ls f t \<Longrightarrow> came_to d (insert g G) a ls f (sigaction g t)"
  by (auto simp: came_to_def sigaction_def)

lemma came_redirect: "came_to d G a ls f t \<Longrightarrow> came_to d G a ls (redirect (dfs t)) (t\<lparr>dfs := redirect (dfs t)\<rparr>)"
  by (simp add: came_to_def)

lemma came_closelog: "came_to d G a ls f t \<Longrightarrow> came_to d G a ls f (t\<lparr>dlog := closelog (dlog t)\<rparr>)"
  by (simp add: came_to_def closelog_def)

lemma came_handler: "came_to d G a ls f t \<Longrightarrow> came_to d G False (ls @ handler_lines [g]) f (signal_handler g t)"
  by (simp add: came_to_def signal_handler_def Let_def syslog_mask syslog_lines handler_lines_def)

text \<open>Handled signals at one place: the daemon goes on, no longer to be kept alive if there was one.\<close>

lemma came_deliver:
  assumes "came_to d G a ls f t" and "handled G gs"
  shows "\<exists>u. deliver_signals gs t = Inr u \<and> came_to d G (a \<and> gs = []) (ls @ handler_lines gs) f u"
  using assms
proof (induction gs arbitrary: t a ls)
  case Nil
  then show ?case by (simp add: handler_lines_append)
next
  case (Cons g gs)
  have "handled G gs" "signo g \<in> set (handlers t)" using Cons.prems by (auto simp: handled_def came_to_def)
  with Cons.IH [OF came_handler [OF Cons.prems(1), of g]] show ?case
    by (simp add: handler_lines_append(1) [of "[g]" gs, simplified])
qed

definition std_signals :: "nat set" where "std_signals = {SIGINT, SIGSEGV, SIGTERM}"

text \<open>The signals that a run can take: those with a handler at the place where they arrive.\<close>

definition taken_signals :: "(nat \<Rightarrow> siginfo list) \<Rightarrow> bool" where
  "taken_signals sg \<longleftrightarrow> sg 0 = [] \<and> handled {SIGINT} (sg 1) \<and> handled {SIGINT, SIGSEGV} (sg 2)
     \<and> list_all (\<lambda>k. handled std_signals (sg k)) [3..<13]"

definition quiet :: "(nat \<Rightarrow> siginfo list) \<Rightarrow> nat \<Rightarrow> bool" where
  "quiet sg n \<longleftrightarrow> list_all (\<lambda>k. sg k = []) [0..<n]"

text \<open>The lines of the handler for the places from \<open>m\<close> up to \<open>n\<close>, exclusively.\<close>

definition signal_lines :: "(nat \<Rightarrow> siginfo list) \<Rightarrow> nat \<Rightarrow> nat \<Rightarrow> (nat \<times> string) list" where
  "signal_lines sg m n = handler_lines (concat (map sg [m..<n]))"

lemma signal_lines_Suc: "m \<le> n \<Longrightarrow> signal_lines sg m (Suc n) = signal_lines sg m n @ handler_lines (sg n)"
  "signal_lines sg m m = []"
  by (simp_all add: signal_lines_def handler_lines_append)

lemma quiet_Suc: "quiet sg (Suc n) \<longleftrightarrow> quiet sg n \<and> sg n = []" "quiet sg 0"
  by (auto simp: quiet_def)

definition daemon_ready :: "daemon \<Rightarrow> bool" where
  "daemon_ready d \<longleftrightarrow> keep_alive d \<and> handlers d = [] \<and> bit (log_mask (dlog d)) LOG_NOTICE \<and> bit (log_mask (dlog d)) LOG_INFO"

text \<open>One place of the text, as long as \<^verbatim>\<open>keep_alive\<close> tells whether there has been a signal.\<close>

lemma place:
  assumes "came_to d G (quiet sg n) (ls @ signal_lines sg m n) f t" and "handled G (sg n)" and "m \<le> n"
  obtains u where "deliver_signals (sg n) t = Inr u"
    and "came_to d G (quiet sg (Suc n)) (ls @ signal_lines sg m (Suc n)) f u"
  using came_deliver [OF assms(1,2)] assms(3) by (auto simp: quiet_Suc signal_lines_Suc)

lemma caught:
  assumes "daemon_ready d" and "taken_signals sg"
  shows "\<exists>t u v. deliver_signals (sg 0) (d\<lparr>dlog := openlog ''simple daemon'' (dlog d)\<rparr>) = Inr t
    \<and> catch_signal sg t = Inr u \<and> deliver_signals (sg 3) u = Inr v
    \<and> came_to d std_signals (quiet sg 4) ([] @ signal_lines sg 0 4) (dfs d) v"
proof -
  let ?d = "d\<lparr>dlog := openlog ''simple daemon'' (dlog d)\<rparr>"
  have g: "sg 0 = []" "handled {SIGINT} (sg 1)" "handled {SIGINT, SIGSEGV} (sg 2)" "handled std_signals (sg 3)"
    using assms(2) by (simp_all add: taken_signals_def)
  have "came_to d {} (quiet sg 1) ([] @ signal_lines sg 0 1) (dfs d) ?d"
    using assms(1) g(1) by (simp add: came_to_def daemon_ready_def openlog_def quiet_def signal_lines_def handler_lines_def)
  from place [OF came_sigaction [OF this] g(2)] obtain t1 where t1: "deliver_signals (sg 1) (sigaction SIGINT ?d) = Inr t1"
    "came_to d {SIGINT} (quiet sg 2) ([] @ signal_lines sg 0 2) (dfs d) t1" by (auto simp: numeral_2_eq_2)
  have "came_to d {SIGINT, SIGSEGV} (quiet sg 2) ([] @ signal_lines sg 0 2) (dfs d) (sigaction SIGSEGV t1)"
    using came_sigaction [OF t1(2), of SIGSEGV] by (simp add: insert_commute)
  from place [OF this g(3)] obtain t2 where t2: "deliver_signals (sg 2) (sigaction SIGSEGV t1) = Inr t2"
    "came_to d {SIGINT, SIGSEGV} (quiet sg 3) ([] @ signal_lines sg 0 3) (dfs d) t2" by (auto simp: numeral_3_eq_3)
  have "came_to d std_signals (quiet sg 3) ([] @ signal_lines sg 0 3) (dfs d) (sigaction SIGTERM t2)"
    using came_sigaction [OF t2(2), of SIGTERM] by (simp add: std_signals_def insert_commute)
  from place [OF this g(4)] obtain t3 where "deliver_signals (sg 3) (sigaction SIGTERM t2) = Inr t3"
    "came_to d std_signals (quiet sg 4) ([] @ signal_lines sg 0 4) (dfs d) t3" by auto
  with g(1) t1(1) t2(1) show ?thesis by (simp add: catch_signal_def and_then_def)
qed

lemma looped:
  assumes "came_to d std_signals (quiet sg 8) ls f t" and "handled std_signals (sg 8)" and "handled std_signals (sg 9)"
  shows "\<exists>u a. big_loop sg t = Inr u \<and> came_to d std_signals a (ls @ (if quiet sg 8 then handler_lines (sg 8)
         @ [(LOG_NOTICE, ''simple daemon is running.'')] @ handler_lines (sg 9) else [])) f u"
proof (cases "quiet sg 8")
  case True
  from came_deliver [OF assms(1,2)] obtain u where
    u: "deliver_signals (sg 8) t = Inr u" "came_to d std_signals (sg 8 = []) (ls @ handler_lines (sg 8)) f u"
    using True by auto
  from came_deliver [OF came_notice [OF u(2)] assms(3)] obtain v where
    v: "deliver_signals (sg 9) (log_notice ''simple daemon is running.'' u) = Inr v"
      "came_to d std_signals (sg 8 = [] \<and> sg 9 = [])
        ((ls @ handler_lines (sg 8)) @ [(LOG_NOTICE, ''simple daemon is running.'')] @ handler_lines (sg 9)) f v" by auto
  have "keep_alive t" using assms(1) True by (simp add: came_to_def)
  with u(1) v True show ?thesis by (auto simp: big_loop_def and_then_def)
next
  case False
  then have "\<not> keep_alive t" using assms(1) by (simp add: came_to_def)
  with assms(1) False show ?thesis by (auto simp: big_loop_def)
qed

lemma taken_later:
  assumes "taken_signals sg"
  shows "handled std_signals (sg 4)" "handled std_signals (sg 5)" "handled std_signals (sg 6)" "handled std_signals (sg 7)"
    "handled std_signals (sg 8)" "handled std_signals (sg 9)" "handled std_signals (sg 10)" "handled std_signals (sg 11)"
    "handled std_signals (sg 12)"
  using assms by (simp_all add: taken_signals_def)

text \<open>From \<^verbatim>\<open>setsid\<close> to the loop, and from the loop to the end.\<close>

lemma started:
  assumes "came_to d std_signals (quiet sg 4) ([] @ signal_lines sg 0 4) f t" and "taken_signals sg"
  obtains d4 d5 d6 d7 where "deliver_signals (sg 4) t = Inr d4" and "deliver_signals (sg 5) d4 = Inr d5"
    and "deliver_signals (sg 6) (d5\<lparr>dfs := redirect (dfs d5)\<rparr>) = Inr d6"
    and "deliver_signals (sg 7) (log_notice ''simple daemon started.'' d6) = Inr d7"
    and "came_to d std_signals (quiet sg 8)
      (signal_lines sg 0 7 @ [(LOG_NOTICE, ''simple daemon started.'')] @ handler_lines (sg 7)) (redirect f) d7"
proof -
  note g = taken_later [OF assms(2)]
  from place [OF assms(1) g(1)] obtain d4 where d4: "deliver_signals (sg 4) t = Inr d4"
    "came_to d std_signals (quiet sg 5) ([] @ signal_lines sg 0 5) f d4" by auto
  from place [OF d4(2) g(2)] obtain d5 where d5: "deliver_signals (sg 5) d4 = Inr d5"
    "came_to d std_signals (quiet sg 6) ([] @ signal_lines sg 0 6) f d5" by auto
  have f: "dfs d5 = f" using d5(2) by (simp add: came_to_def)
  from place [OF came_redirect [OF d5(2)] g(3)] obtain d6 where d6: "deliver_signals (sg 6) (d5\<lparr>dfs := redirect (dfs d5)\<rparr>) = Inr d6"
    "came_to d std_signals (quiet sg 7) (signal_lines sg 0 7) (redirect f) d6" unfolding f by auto
  from came_deliver [OF came_notice [OF d6(2)] g(4)] obtain d7 where
    d7: "deliver_signals (sg 7) (log_notice ''simple daemon started.'' d6) = Inr d7"
      "came_to d std_signals (quiet sg 7 \<and> sg 7 = [])
        (signal_lines sg 0 7 @ [(LOG_NOTICE, ''simple daemon started.'')] @ handler_lines (sg 7)) (redirect f) d7" by auto
  moreover have "quiet sg 8 = (quiet sg 7 \<and> sg 7 = [])" using quiet_Suc(1) [of sg 7] by simp
  ultimately show thesis using that d4(1) d5(1) d6(1) by simp
qed

lemma ended:
  assumes "came_to d std_signals a ls f t" and "taken_signals sg"
  obtains d10 d11 d12 b where "deliver_signals (sg 10) t = Inr d10"
    and "deliver_signals (sg 11) (log_notice ''simple daemon terminated.'' d10) = Inr d11"
    and "deliver_signals (sg 12) (d11\<lparr>dlog := closelog (dlog d11)\<rparr>) = Inr d12"
    and "came_to d std_signals b (ls @ handler_lines (sg 10) @ [(LOG_NOTICE, ''simple daemon terminated.'')]
       @ handler_lines (sg 11) @ handler_lines (sg 12)) f d12"
proof -
  note g = taken_later [OF assms(2)]
  from came_deliver [OF assms(1) g(7)] obtain d10 where d10: "deliver_signals (sg 10) t = Inr d10"
    "came_to d std_signals (a \<and> sg 10 = []) (ls @ handler_lines (sg 10)) f d10" by auto
  from came_deliver [OF came_notice [OF d10(2)] g(8)] obtain d11 where
    d11: "deliver_signals (sg 11) (log_notice ''simple daemon terminated.'' d10) = Inr d11"
      "came_to d std_signals ((a \<and> sg 10 = []) \<and> sg 11 = [])
        (((ls @ handler_lines (sg 10)) @ [(LOG_NOTICE, ''simple daemon terminated.'')]) @ handler_lines (sg 11)) f d11" by blast
  from came_deliver [OF came_closelog [OF d11(2)] g(9)] d10(1) d11(1) that show thesis by auto
qed

lemma daemon_main_effect:
  assumes "daemon_ready d" and "0 \<le> sid" and "0 \<le> cd" and "taken_signals sg"
  shows "\<exists>t. daemon_main 0 sid cd sg d = Inr (0, t) \<and> dfs t = redirect (dfs d)
    \<and> log_lines (dlog t) = log_lines (dlog d) @ signal_lines sg 0 7 @ [(LOG_NOTICE, ''simple daemon started.'')]
        @ handler_lines (sg 7)
        @ (if quiet sg 8 then handler_lines (sg 8) @ [(LOG_NOTICE, ''simple daemon is running.'')] @ handler_lines (sg 9) else [])
        @ handler_lines (sg 10) @ [(LOG_NOTICE, ''simple daemon terminated.'')] @ handler_lines (sg 11) @ handler_lines (sg 12)"
proof -
  from caught [OF assms(1,4)] obtain d0 d1 d3 where
    d3: "deliver_signals (sg 0) (d\<lparr>dlog := openlog ''simple daemon'' (dlog d)\<rparr>) = Inr d0" "catch_signal sg d0 = Inr d1"
      "deliver_signals (sg 3) d1 = Inr d3" "came_to d std_signals (quiet sg 4) ([] @ signal_lines sg 0 4) (dfs d) d3" by blast
  from started [OF d3(4) assms(4)] obtain d4 d5 d6 d7 where
    d7: "deliver_signals (sg 4) d3 = Inr d4" "deliver_signals (sg 5) d4 = Inr d5"
      "deliver_signals (sg 6) (d5\<lparr>dfs := redirect (dfs d5)\<rparr>) = Inr d6"
      "deliver_signals (sg 7) (log_notice ''simple daemon started.'' d6) = Inr d7"
      "came_to d std_signals (quiet sg 8)
        (signal_lines sg 0 7 @ [(LOG_NOTICE, ''simple daemon started.'')] @ handler_lines (sg 7)) (redirect (dfs d)) d7" .
  from looped [OF d7(5) taken_later(5,6) [OF assms(4)]] obtain d9 a where d9: "big_loop sg d7 = Inr d9"
    "came_to d std_signals a ((signal_lines sg 0 7 @ [(LOG_NOTICE, ''simple daemon started.'')] @ handler_lines (sg 7))
       @ (if quiet sg 8 then handler_lines (sg 8) @ [(LOG_NOTICE, ''simple daemon is running.'')] @ handler_lines (sg 9) else []))
       (redirect (dfs d)) d9" by blast
  from ended [OF d9(2) assms(4)] obtain d10 d11 d12 b where
    d12: "deliver_signals (sg 10) d9 = Inr d10" "deliver_signals (sg 11) (log_notice ''simple daemon terminated.'' d10) = Inr d11"
      "deliver_signals (sg 12) (d11\<lparr>dlog := closelog (dlog d11)\<rparr>) = Inr d12"
    and e: "came_to d std_signals b (((signal_lines sg 0 7 @ [(LOG_NOTICE, ''simple daemon started.'')] @ handler_lines (sg 7))
       @ (if quiet sg 8 then handler_lines (sg 8) @ [(LOG_NOTICE, ''simple daemon is running.'')] @ handler_lines (sg 9) else []))
       @ handler_lines (sg 10) @ [(LOG_NOTICE, ''simple daemon terminated.'')] @ handler_lines (sg 11) @ handler_lines (sg 12))
       (redirect (dfs d)) d12" .
  have "daemon_main 0 sid cd sg d = Inr (0, d12)"
    using assms(2,3) d3(1-3) d7(1-4) d9(1) d12 by (simp add: daemon_main_def and_then_def)
  with e show ?thesis by (simp add: came_to_def)
qed

text \<open>
  C38: the daemon does not stay alive. \<^verbatim>\<open>README.md\<close> says that it goes on in the background until it is killed; but the
  loop ends with \<^verbatim>\<open>break\<close>, so that the process ends by itself with status 0, whatever handled signals
  arrive at whatever places of the text. It logs its start, \<open>simple daemon is running\<close> at most once (and not at all if a signal
  arrived before the test of the loop), its end, and in between the lines of the handler
  for every signal at the place where it arrives.
\<close>

theorem daemon_runs_once:
  assumes "daemon_ready d" and "0 \<le> sid" and "0 \<le> cd" and "taken_signals sg"
  shows "\<exists>t. daemon_main 0 sid cd sg d = Inr (0, t)
    \<and> log_lines (dlog t) = log_lines (dlog d) @ signal_lines sg 0 7 @ [(LOG_NOTICE, ''simple daemon started.'')]
        @ handler_lines (sg 7)
        @ (if quiet sg 8 then handler_lines (sg 8) @ [(LOG_NOTICE, ''simple daemon is running.'')] @ handler_lines (sg 9) else [])
        @ handler_lines (sg 10) @ [(LOG_NOTICE, ''simple daemon terminated.'')] @ handler_lines (sg 11) @ handler_lines (sg 12)"
  using daemon_main_effect [OF assms] by blast

definition demo_daemon :: daemon where
  "demo_daemon = \<lparr>keep_alive = True, dlog = initial_slog, handlers = [],
     dfs = \<lparr>files = [''/dev/null'' \<mapsto> Reg [] True True], ofds = [], fds = [0 \<mapsto> 0, 1 \<mapsto> 0, 2 \<mapsto> 0]\<rparr>\<rparr>"

lemma demo_daemon_ready: "daemon_ready demo_daemon"
proof -
  have "bit (255 :: int) LOG_NOTICE" "bit (255 :: int) LOG_INFO" by (simp_all add: priorities)
  then show ?thesis by (simp add: demo_daemon_def daemon_ready_def initial_slog_def)
qed

theorem daemon_runs_once_witness:
  "\<exists>t. daemon_main 0 1 0 (\<lambda>k. if k = 8 then [\<lparr>signo = 15, si_pid = 7, si_uid = 0\<rparr>] else []) demo_daemon = Inr (0, t)
     \<and> map snd (log_lines (dlog t)) = [''simple daemon started.'', ''Sending PID:7, UID:0'', ''simple daemon is running.'',
          ''simple daemon terminated.'']"
proof -
  let ?sg = "\<lambda>k :: nat. if k = 8 then [\<lparr>signo = 15, si_pid = 7, si_uid = 0\<rparr>] else []"
  have t: "taken_signals ?sg" by (simp add: taken_signals_def handled_def std_signals_def SIGTERM_def)
  have q: "quiet ?sg 8" "signal_lines ?sg 0 7 = []" by (simp_all add: quiet_def list_all_iff signal_lines_def handler_lines_def)
  have h: "handler_lines [\<lparr>signo = 15, si_pid = 7, si_uid = 0\<rparr>] = [(LOG_NOTICE, ''Sending PID:7, UID:0'')]"
    by (simp add: handler_lines_def SIGINT_def dec_int_def dec_nat.simps digit_chars)
  from daemon_runs_once [OF demo_daemon_ready, of 1 0 ?sg, simplified, OF t] q h show ?thesis
    by (auto simp: handler_lines_append(2) demo_daemon_def initial_slog_def)
qed

text \<open>
  The calls of \<^verbatim>\<open>open\<close> in \<^verbatim>\<open>simple_daemon.c\<close> do not redirect anything: a daemon started with the
  three standard descriptors open keeps them where they were, and \<^verbatim>\<open>/dev/null\<close> occupies the
  descriptors 3, 4 and 5 until its end, opened for reading, for writing and for both.
\<close>

theorem daemon_keeps_std_descriptors:
  assumes "daemon_ready d" and "0 \<le> sid" and "0 \<le> cd" and "taken_signals sg"
    and "files (dfs d) ''/dev/null'' = Some (Reg c True True)" and "std_open (dfs d)"
    and "fds (dfs d) 3 = None" and "fds (dfs d) 4 = None" and "fds (dfs d) 5 = None"
  shows "\<exists>t. daemon_main 0 sid cd sg d = Inr (0, t)
    \<and> fds (dfs t) 0 = fds (dfs d) 0 \<and> fds (dfs t) 1 = fds (dfs d) 1 \<and> fds (dfs t) 2 = fds (dfs d) 2
    \<and> (\<exists>k. fds (dfs t) = (fds (dfs d))(3 \<mapsto> k, 4 \<mapsto> k + 1, 5 \<mapsto> k + 2)
         \<and> map acc (take 3 (drop k (ofds (dfs t)))) = [O_RDONLY, O_WRONLY, O_RDWR]
         \<and> map fname (take 3 (drop k (ofds (dfs t)))) = [''/dev/null'', ''/dev/null'', ''/dev/null''])"
proof -
  from daemon_main_effect [OF assms(1-4)] obtain t where
    t: "daemon_main 0 sid cd sg d = Inr (0, t)" "dfs t = redirect (dfs d)" by blast
  then show ?thesis
    by (intro exI [of _ t] conjI exI [of _ "length (ofds (dfs d))"])
      (simp_all add: redirect_opens [OF assms(5-9)])
qed

theorem daemon_keeps_std_descriptors_witness:
  "\<exists>t. daemon_main 0 1 0 (\<lambda>k. []) demo_daemon = Inr (0, t) \<and> fds (dfs t) 0 = Some 0 \<and> fds (dfs t) 1 = Some 0"
proof -
  have "taken_signals (\<lambda>k. [])" by (simp add: taken_signals_def handled_def)
  from daemon_keeps_std_descriptors [OF demo_daemon_ready _ _ this, of 1 0 "[]"] show ?thesis
    by (auto simp: demo_daemon_def std_open_def)
qed

end
