(* ===== verification/Stdio_Streams.thy ===== *)
theory Stdio_Streams
  imports Logger
begin

text \<open>
  The programs of \<^verbatim>\<open>FileIO/\<close> that read streams: \<^verbatim>\<open>ptr_struct_file.c\<close>, which gives the library an
  array of its own as the buffer of a stream, and \<^verbatim>\<open>file_pointer_test.c\<close>, a sequence of \<^verbatim>\<open>fseek\<close>,
  \<^verbatim>\<open>fread\<close> and \<^verbatim>\<open>fgets\<close>. Both print the private pointers of the streams, whose values are up to the C
  library: what they are at each of the places where they are printed is a parameter.
\<close>

section \<open>The private part of a stream\<close>

text \<open>The pointers in a \<^verbatim>\<open>FILE\<close> that the programs print, as addresses.\<close>

record file_ptrs =
  IO_read_ptr :: nat
  IO_read_end :: nat
  IO_read_base :: nat
  IO_write_ptr :: nat
  IO_write_end :: nat
  IO_write_base :: nat
  IO_buf_base :: nat
  IO_buf_end :: nat
  IO_save_base :: nat
  IO_backup_base :: nat
  IO_save_end :: nat

section \<open>ptr\_struct\_file.c\<close>

definition RBUF_SIZE :: nat where "RBUF_SIZE = 10"
definition WBUF_SIZE :: nat where "WBUF_SIZE = 128"

text \<open>
  The source stream: what the file holds, how far it has been read into the buffer, and the
  part of the buffer that has not been delivered yet. The buffer is the array \<^verbatim>\<open>rbuffer\<close>.
\<close>

record src_stream =
  src_content :: string
  src_pos :: nat
  bptr :: nat
  bend :: nat

text \<open>
  \<^verbatim>\<open>fread(rbuffer, 1, want, fp_src)\<close> when \<open>d\<close> characters have been delivered: an empty buffer is
  filled with one \<^verbatim>\<open>read\<close> of the size that \<^verbatim>\<open>setvbuf\<close> was told.
\<close>

function fread_own :: "src_stream \<Rightarrow> char list \<Rightarrow> nat \<Rightarrow> nat \<Rightarrow> (nat \<times> src_stream \<times> char list) cres" where
  "fread_own st rb d want =
     (if want = 0 then Inr (d, st, rb)
      else if bptr st < bend st then
        (let m = min want (bend st - bptr st) in
         cbind (peek rb (int (bptr st)) m) (\<lambda>bs.
         cbind (poke rb (int d) bs) (\<lambda>rb.
         fread_own (st\<lparr>bptr := bptr st + m\<rparr>) rb (d + m) (want - m))))
      else
        (let bs = take WBUF_SIZE (drop (src_pos st) (src_content st)) in
         if bs = [] then Inr (d, st, rb)
         else cbind (poke rb 0 bs) (\<lambda>rb.
              fread_own (st\<lparr>src_pos := src_pos st + length bs, bptr := 0, bend := length bs\<rparr>) rb d want)))"
  by pat_completeness auto
termination
  by (relation "measure (\<lambda>(st, rb, d, want). 2 * want + (if bptr st < bend st then 0 else 1))") auto

declare fread_own.simps [simp del]

text \<open>The macro \<^verbatim>\<open>print\<close>, and what one round of the loop prints before and after the data are copied.\<close>

definition print_position :: "string \<Rightarrow> nat \<Rightarrow> string" where
  "print_position content msg = pad_right 20 content @ '':'' @ pad_left 3 (pointer_text msg) @ newline"

definition print_source :: "file_ptrs \<Rightarrow> string" where
  "print_source fp_src =
     ''[Read position]'' @ newline
   @ print_position ''src_IO_read_ptr'' (IO_read_ptr fp_src)
   @ print_position ''_IO_read_end'' (IO_read_end fp_src)
   @ print_position ''_IO_read_base'' (IO_read_base fp_src)
   @ ''[Write position]'' @ newline
   @ print_position ''src_IO_write_ptr'' (IO_write_ptr fp_src)
   @ print_position ''_IO_write_end'' (IO_write_end fp_src)
   @ print_position ''_IO_write_base'' (IO_write_base fp_src)
   @ ''[Buffer position]'' @ newline
   @ print_position ''_IO_buf_base'' (IO_buf_base fp_src)
   @ print_position ''_IO_buf_end'' (IO_buf_end fp_src)
   @ ''[Read & Write data]'' @ newline"

definition print_target :: "file_ptrs \<Rightarrow> string" where
  "print_target fp_des =
     ''[Target position]'' @ newline
   @ print_position ''des_IO_read_ptr'' (IO_read_ptr fp_des)
   @ print_position ''des_IO_write_ptr'' (IO_write_ptr fp_des)"

text \<open>
  The loop from round \<open>k\<close> on; \<open>out\<close> is what has been written to the target and \<open>shown\<close> what has been
  printed. \<open>src k\<close> and \<open>des k\<close> are the pointers of the two streams when round \<open>k\<close> prints them.
\<close>

partial_function (option) ptr_copy ::
  "(nat \<Rightarrow> file_ptrs) \<Rightarrow> (nat \<Rightarrow> file_ptrs) \<Rightarrow> nat \<Rightarrow> src_stream \<Rightarrow> string \<Rightarrow> string \<Rightarrow> (string \<times> string) cres option" where
  "ptr_copy src des k st out shown =
     (case fread_own st (replicate RBUF_SIZE NUL) 0 RBUF_SIZE of
        Inl e \<Rightarrow> Some (Inl e)
      | Inr (i, st, rb) \<Rightarrow>
          (let shown = shown @ print_source (src k) @ print_target (des k) in
           if i = RBUF_SIZE then ptr_copy src des (Suc k) st (out @ take i rb) shown
           else Some (Inr (out @ take i rb, shown))))"

text \<open>
  \<^verbatim>\<open>main\<close>, on the contents of the files; \<open>can_open\<close> tells for which names \<^verbatim>\<open>fopen\<close> is permitted. The
  target is truncated when it is opened, also if it is the source. A missing argument is a
  null pointer. The result is the files and what has been printed.
\<close>

definition ptr_struct_main ::
  "(string \<Rightarrow> bool) \<Rightarrow> (nat \<Rightarrow> file_ptrs) \<Rightarrow> (nat \<Rightarrow> file_ptrs) \<Rightarrow> (string \<rightharpoonup> string) \<Rightarrow> string list \<Rightarrow>
   ((string \<rightharpoonup> string) \<times> string) cres" where
  "ptr_struct_main can_open src des fls argv =
     (if length argv < 2 then Inl NullDeref
      else if fls (argv ! 1) = None \<or> \<not> can_open (argv ! 1) then Inl (ExitProcess 1)
      else if length argv < 3 then Inl NullDeref
      else if \<not> can_open (argv ! 2) then Inl (ExitProcess 1)
      else
        (let fls = fls(argv ! 2 \<mapsto> []);
             st = \<lparr>src_content = the (fls (argv ! 1)), src_pos = 0, bptr = 0, bend = 0\<rparr> in
         cbind (run_loop (ptr_copy src des 0 st [] [])) (\<lambda>(out, shown). Inr (fls(argv ! 2 \<mapsto> out), shown))))"

section \<open>file\_pointer\_test.c\<close>

text \<open>A stream for reading, and the array \<^verbatim>\<open>buffer\<close> of 128 characters, of which some are not set.\<close>

record rstream =
  content :: string
  pos :: nat

datatype seek_whence = SEEK_SET | SEEK_CUR | SEEK_END | SEEK_HOLE | SEEK_DATA

text \<open>\<^verbatim>\<open>fseek\<close> accepts the first three only, and no position before the start.\<close>

definition fseek :: "rstream \<Rightarrow> int \<Rightarrow> seek_whence \<Rightarrow> int \<times> rstream" where
  "fseek fp off wh =
     (let new = (case wh of SEEK_SET \<Rightarrow> off | SEEK_CUR \<Rightarrow> int (pos fp) + off
                 | SEEK_END \<Rightarrow> int (length (content fp)) + off | _ \<Rightarrow> - 1) in
      if new < 0 then (- 1, fp) else (0, fp\<lparr>pos := nat new\<rparr>))"

type_synonym cells = "char option list"

definition fread :: "rstream \<Rightarrow> cells \<Rightarrow> nat \<Rightarrow> (int \<times> rstream \<times> cells) cres" where
  "fread fp buffer n =
     (let bs = take n (drop (pos fp) (content fp)) in
      cbind (poke buffer 0 (map Some bs)) (\<lambda>buffer.
      Inr (int (length bs), fp\<lparr>pos := pos fp + length bs\<rparr>, buffer)))"

text \<open>\<^verbatim>\<open>fgets\<close>: up to a line end or \<open>n - 1\<close> characters; \<open>None\<close> (a null pointer) at the end of the file.\<close>

definition line_part :: "string \<Rightarrow> string" where
  "line_part cs = (let l = takeWhile (\<lambda>c. c \<noteq> CHR 0x0A) cs in
     if length l < length cs then l @ [CHR 0x0A] else l)"

definition fgets :: "rstream \<Rightarrow> cells \<Rightarrow> nat \<Rightarrow> (string option \<times> rstream \<times> cells) cres" where
  "fgets fp buffer n =
     (let bs = line_part (take (n - 1) (drop (pos fp) (content fp))) in
      if bs = [] then Inr (None, fp, buffer)
      else cbind (poke buffer 0 (map Some bs @ [Some NUL])) (\<lambda>buffer.
           Inr (Some (c_string bs), fp\<lparr>pos := pos fp + length bs\<rparr>, buffer)))"

text \<open>The string at the start of an array with characters that may not have been set.\<close>

fun set_string :: "cells \<Rightarrow> string cres" where
  "set_string [] = Inl OutOfBounds"
| "set_string (None # cs) = Inl Uninitialised"
| "set_string (Some c # cs) = (if c = NUL then Inr [] else cbind (set_string cs) (\<lambda>s. Inr (c # s)))"

definition print_buffer_content :: "cells \<Rightarrow> int \<Rightarrow> (string \<times> cells) cres" where
  "print_buffer_content buffer end_pos =
     (let e = (if end_pos < 0 then 0 else end_pos) in
      cbind (poke buffer e [Some NUL]) (\<lambda>buffer.
      cbind (set_string buffer) (\<lambda>s. Inr (s, buffer))))"

fun fseeks :: "rstream \<Rightarrow> (int \<times> seek_whence) list \<Rightarrow> int list \<times> rstream" where
  "fseeks fp [] = ([], fp)"
| "fseeks fp ((off, wh) # ops) = (let (r, fp) = fseek fp off wh; (rs, fp) = fseeks fp ops in (r # rs, fp))"

text \<open>
  \<^verbatim>\<open>main\<close> from the first \<^verbatim>\<open>fseek\<close> on: the results that are printed and the three strings. \<open>lorem\<close> is
  the content of \<^verbatim>\<open>lorem.txt\<close>, if the file can be opened. The result of \<^verbatim>\<open>fgets\<close> is printed with \<^verbatim>\<open>%s\<close>.
\<close>

definition file_pointer_main :: "allocator \<Rightarrow> string option \<Rightarrow> (int \<times> int list \<times> string list) cres" where
  "file_pointer_main A lorem =
     (if \<not> alloc_ok A 128 then Inr (1, [], [])
      else case lorem of None \<Rightarrow> Inr (0, [], [])
      | Some body \<Rightarrow>
        (let (rs1, fp) = fseeks \<lparr>content = body, pos = 0\<rparr>
               [(0, SEEK_SET), (8, SEEK_SET), (- 8, SEEK_SET), (0, SEEK_END), (- 8, SEEK_END),
                (4, SEEK_SET), (4, SEEK_CUR), (0, SEEK_SET)] in
         cbind (fread fp (replicate 128 None) 16) (\<lambda>(r2, fp, buffer).
         cbind (print_buffer_content buffer 16) (\<lambda>(t1, buffer).
         let (rs3, fp) = fseeks fp [(50, SEEK_HOLE), (50, SEEK_DATA)] in
         cbind (fread fp buffer 16) (\<lambda>(r4, fp, buffer).
         cbind (print_buffer_content buffer 16) (\<lambda>(t2, buffer).
         cbind (fgets fp buffer 16) (\<lambda>(get_val, fp, buffer).
         cbind (deref get_val) (\<lambda>t3. Inr (0, rs1 @ [r2] @ rs3 @ [r4], [t1, t2, t3])))))))))"

section \<open>Copying through the borrowed buffer\<close>

lemma poke_take: "length bs \<le> length rb \<Longrightarrow> poke rb 0 bs = Inr (bs @ drop (length bs) rb)"
  by (simp add: poke_def)

lemma peek_start: "m \<le> length rb \<Longrightarrow> peek rb 0 m = Inr (take m rb)"
  by (simp add: peek_def)

lemma fread_own_eof:
  "\<not> bptr st < bend st \<Longrightarrow> length (src_content st) \<le> src_pos st \<Longrightarrow> fread_own st rb d want = Inr (d, st, rb)"
  by (simp add: fread_own.simps [of st])

text \<open>The first \<^verbatim>\<open>fread\<close> of a file that fits the array delivers all of it.\<close>

lemma fread_own_short:
  assumes "length body \<le> RBUF_SIZE" and "length rb = RBUF_SIZE"
  shows "\<exists>st rb'. fread_own \<lparr>src_content = body, src_pos = 0, bptr = 0, bend = 0\<rparr> rb 0 RBUF_SIZE = Inr (length body, st, rb')
    \<and> take (length body) rb' = body \<and> src_content st = body \<and> src_pos st = length body \<and> \<not> bptr st < bend st"
proof (cases "body = []")
  case True
  then show ?thesis by (simp add: fread_own.simps)
next
  case False
  let ?n = "length body" and ?rb = "body @ drop (length body) rb"
  let ?st0 = "\<lparr>src_content = body, src_pos = 0, bptr = 0, bend = 0\<rparr>"
  let ?st1 = "\<lparr>src_content = body, src_pos = ?n, bptr = 0, bend = ?n\<rparr>"
  let ?st2 = "\<lparr>src_content = body, src_pos = ?n, bptr = ?n, bend = ?n\<rparr>"
  have t: "take WBUF_SIZE body = body" using assms(1) by (simp add: RBUF_SIZE_def WBUF_SIZE_def)
  have "fread_own ?st0 rb 0 RBUF_SIZE = fread_own ?st1 ?rb 0 RBUF_SIZE"
    using False assms t by (subst fread_own.simps) (simp add: poke_take RBUF_SIZE_def)
  also have "\<dots> = fread_own ?st2 ?rb ?n (RBUF_SIZE - ?n)"
    using False assms by (subst fread_own.simps) (simp add: peek_start poke_take RBUF_SIZE_def min_def Let_def)
  also have "\<dots> = Inr (?n, ?st2, ?rb)"
    by (rule fread_own_eof) simp_all
  finally show ?thesis using assms by (intro exI [of _ ?st2] exI [of _ ?rb]) simp
qed

lemma fread_own_long:
  assumes "RBUF_SIZE < length body" and "length rb = RBUF_SIZE"
  shows "fread_own \<lparr>src_content = body, src_pos = 0, bptr = 0, bend = 0\<rparr> rb 0 RBUF_SIZE = Inl OutOfBounds"
  using assms by (subst fread_own.simps) (auto simp: poke_def RBUF_SIZE_def WBUF_SIZE_def Let_def)

definition print_round :: "(nat \<Rightarrow> file_ptrs) \<Rightarrow> (nat \<Rightarrow> file_ptrs) \<Rightarrow> nat \<Rightarrow> string" where
  "print_round src des k = print_source (src k) @ print_target (des k)"

lemma ptr_copy_short:
  assumes "length body \<le> RBUF_SIZE"
  shows "ptr_copy src des 0 \<lparr>src_content = body, src_pos = 0, bptr = 0, bend = 0\<rparr> out shown =
    Some (Inr (out @ body, shown @ print_round src des 0
      @ (if length body = RBUF_SIZE then print_round src des 1 else [])))"
proof -
  from fread_own_short [OF assms, of "replicate RBUF_SIZE NUL"] obtain st rb where
    r: "fread_own \<lparr>src_content = body, src_pos = 0, bptr = 0, bend = 0\<rparr> (replicate RBUF_SIZE NUL) 0 RBUF_SIZE = Inr (length body, st, rb)"
      "take (length body) rb = body" "src_content st = body" "src_pos st = length body" "\<not> bptr st < bend st" by auto
  show ?thesis
  proof (cases "length body = RBUF_SIZE")
    case True
    have "fread_own st (replicate RBUF_SIZE NUL) 0 RBUF_SIZE = Inr (0, st, replicate RBUF_SIZE NUL)"
      using r by (intro fread_own_eof) simp_all
    then have "ptr_copy src des (Suc 0) st (out @ body) (shown @ print_round src des 0)
        = Some (Inr (out @ body, shown @ print_round src des 0 @ print_round src des 1))"
      by (subst ptr_copy.simps) (simp add: RBUF_SIZE_def print_round_def)
    with True r show ?thesis by (subst ptr_copy.simps) (simp add: print_round_def)
  qed (use r in \<open>subst ptr_copy.simps, simp add: print_round_def\<close>)
qed

text \<open>
  What \<^verbatim>\<open>ptr_struct_file.c\<close> does with a source and a different target: a file of at most 10
  characters is copied, and the positions are printed once, or twice if it has exactly 10; for
  any longer file the library, told that the buffer has 128 characters, writes outside the array of 10.
\<close>

theorem ptr_struct_copies_short_files:
  assumes "fls src = Some body" and "can_open src" and "can_open des" and "src \<noteq> des"
  shows "ptr_struct_main can_open sp dp fls [p, src, des] =
    (if length body \<le> 10
     then Inr (fls(des \<mapsto> body), print_round sp dp 0 @ (if length body = 10 then print_round sp dp 1 else []))
     else Inl OutOfBounds)"
proof (cases "length body \<le> 10")
  case True
  with assms show ?thesis using ptr_copy_short [of body sp dp "[]" "[]"]
    by (simp add: ptr_struct_main_def RBUF_SIZE_def)
next
  case False
  then have "ptr_copy sp dp 0 \<lparr>src_content = body, src_pos = 0, bptr = 0, bend = 0\<rparr> [] [] = Some (Inl OutOfBounds)"
    using fread_own_long [of body "replicate RBUF_SIZE NUL"] by (subst ptr_copy.simps) (simp add: RBUF_SIZE_def)
  with False assms show ?thesis by (simp add: ptr_struct_main_def)
qed

definition null_ptrs :: file_ptrs where
  "null_ptrs = \<lparr>IO_read_ptr = 0, IO_read_end = 0, IO_read_base = 0, IO_write_ptr = 0, IO_write_end = 0,
     IO_write_base = 0, IO_buf_base = 0, IO_buf_end = 0, IO_save_base = 0, IO_backup_base = 0, IO_save_end = 0\<rparr>"

theorem ptr_struct_copies_short_files_witness:
  "ptr_struct_main (\<lambda>n. True) (\<lambda>k. null_ptrs) (\<lambda>k. null_ptrs) [''a'' \<mapsto> ''text''] [''p'', ''a'', ''b'']
     = Inr ([''a'' \<mapsto> ''text'', ''b'' \<mapsto> ''text''], print_source null_ptrs @ print_target null_ptrs)
   \<and> ptr_struct_main (\<lambda>n. True) (\<lambda>k. null_ptrs) (\<lambda>k. null_ptrs) [''a'' \<mapsto> ''longer than ten''] [''p'', ''a'', ''b'']
     = Inl OutOfBounds"
  using ptr_struct_copies_short_files [of "[''a'' \<mapsto> ''text'']" "''a''" "''text''" "\<lambda>n. True" "''b''"
      "\<lambda>k. null_ptrs" "\<lambda>k. null_ptrs" "''p''"]
    ptr_struct_copies_short_files [of "[''a'' \<mapsto> ''longer than ten'']" "''a''" "''longer than ten''" "\<lambda>n. True" "''b''"
      "\<lambda>k. null_ptrs" "\<lambda>k. null_ptrs" "''p''"]
  by (simp add: print_round_def)

section \<open>Reading with and without enough text\<close>

lemma set_string_full:
  "no_nul s \<Longrightarrow> set_string (map Some s @ Some NUL # cs) = Inr s"
  by (induction s) (auto simp: no_nul_def)

lemma set_string_unset: "no_nul s \<Longrightarrow> set_string (map Some s @ None # cs) = Inl Uninitialised"
  by (induction s) (auto simp: no_nul_def)

definition after_seeks :: "string \<Rightarrow> int list" where
  "after_seeks body = [0, 0, - 1, 0, if length body < 8 then - 1 else 0, 0, 0, 0]"

lemma first_seeks:
  "fseeks \<lparr>content = body, pos = 0\<rparr>
     [(0, SEEK_SET), (8, SEEK_SET), (- 8, SEEK_SET), (0, SEEK_END), (- 8, SEEK_END), (4, SEEK_SET), (4, SEEK_CUR), (0, SEEK_SET)]
   = (after_seeks body, \<lparr>content = body, pos = 0\<rparr>)"
  by (auto simp: fseek_def after_seeks_def)

lemma special_seeks: "fseeks fp [(50, SEEK_HOLE), (50, SEEK_DATA)] = ([- 1, - 1], fp)"
  by (simp add: fseek_def)

lemma no_nul_part: "no_nul body \<Longrightarrow> no_nul (take n (drop p body))"
  by (auto simp: no_nul_def dest: in_set_takeD in_set_dropD)

lemma print_16:
  assumes "length t = 16" and "no_nul t" and "length cs = 112"
  shows "\<exists>cs'. print_buffer_content (map Some t @ cs) 16 = Inr (t, map Some t @ Some NUL # cs') \<and> length cs' = 111"
proof -
  have "poke (map Some t @ cs) 16 [Some NUL] = Inr (map Some t @ Some NUL # drop 1 cs)"
    using assms(1,3) by (simp add: poke_def)
  with set_string_full [OF assms(2)] assms(3) show ?thesis by (simp add: print_buffer_content_def)
qed

text \<open>The first block, into the array of which nothing is set.\<close>

lemma first_read:
  "fread \<lparr>content = body, pos = 0\<rparr> (replicate 128 None) 16
     = Inr (int (min (length body) 16), \<lparr>content = body, pos = min (length body) 16\<rparr>,
            map Some (take 16 body) @ replicate (128 - min (length body) 16) None)"
  by (simp add: fread_def poke_take)

text \<open>The second block, over the first one; what it does not reach stays.\<close>

lemma second_read:
  assumes "length t = 16" and "length cs = 112" and "16 \<le> length body"
  defines "new \<equiv> take 16 (drop 16 body)"
  shows "fread \<lparr>content = body, pos = 16\<rparr> (map Some t @ cs) 16
     = Inr (int (length new), \<lparr>content = body, pos = 16 + length new\<rparr>, map Some (new @ drop (length new) t) @ cs)"
  using assms by (simp add: fread_def poke_take drop_map)

lemma line_part_nonempty: "cs \<noteq> [] \<Longrightarrow> line_part cs \<noteq> []"
  by (cases cs) (auto simp: line_part_def Let_def)

lemma line_part_length: "length (line_part cs) \<le> length cs"
proof -
  have "length (takeWhile (\<lambda>c. c \<noteq> CHR 0x0A) cs) \<le> length cs" by (rule length_takeWhile_le)
  then show ?thesis by (auto simp: line_part_def Let_def)
qed

lemma line_part_no_nul: "no_nul cs \<Longrightarrow> no_nul (line_part cs)"
  by (auto simp: line_part_def Let_def no_nul_def NUL_def dest: set_takeWhileD)

lemma c_string_no_nul: "no_nul s \<Longrightarrow> c_string s = s"
  unfolding c_string_def no_nul_def by (auto simp: takeWhile_eq_all_conv)

text \<open>
  What \<^verbatim>\<open>file_pointer_test.c\<close> prints, by the length of \<^verbatim>\<open>lorem.txt\<close>: with at least 33 characters the
  results of the calls (a position before the start is refused, and so are \<^verbatim>\<open>SEEK_HOLE\<close> and
  \<^verbatim>\<open>SEEK_DATA\<close>), two blocks of 16 characters, and a line of at most 15. With 16 to 32 the null pointer
  from \<^verbatim>\<open>fgets\<close> is printed as a string, and with fewer, characters that were never set are printed.
\<close>

theorem file_pointer_test_results:
  assumes "no_nul body" and "grants A 128"
  shows "file_pointer_main A (Some body) =
    (if length body < 16 then Inl Uninitialised
     else if length body < 33 then Inl NullDeref
     else Inr (0, [0, 0, - 1, 0, 0, 0, 0, 0, 16, - 1, - 1, 16],
            [take 16 body, take 16 (drop 16 body), line_part (take 15 (drop 32 body))]))"
proof -
  have ok: "alloc_ok A 128" using assms(2) by simp
  note start = file_pointer_main_def ok first_seeks first_read special_seeks
  show ?thesis
  proof (cases "length body < 16")
    case True
    then have "poke (map Some body @ replicate (128 - length body) None) 16 [Some NUL]
        = Inr (map Some body @ None # (replicate (15 - length body) None @ Some NUL # replicate 111 None))"
      by (simp add: poke_def flip: replicate_Suc)
    then have "print_buffer_content (map Some body @ replicate (128 - length body) None) 16 = Inl Uninitialised"
      using set_string_unset [OF assms(1)] by (simp add: print_buffer_content_def)
    with True show ?thesis by (simp add: start del: fseeks.simps)
  next
    case False
    let ?t = "take 16 body"
    define new where "new = take 16 (drop 16 body)"
    define u where "u = new @ drop (length new) ?t"
    have len: "length ?t = 16" "length u = 16" using False by (simp_all add: u_def new_def)
    have nn: "no_nul ?t" "no_nul u"
      using assms(1) by (auto simp: u_def new_def no_nul_def dest: in_set_takeD in_set_dropD)
    from print_16 [OF len(1) nn(1), of "replicate 112 None"] obtain cs where
      p1: "print_buffer_content (map Some ?t @ replicate 112 None) 16 = Inr (?t, map Some ?t @ Some NUL # cs)"
        "length cs = 111" by auto
    have r2: "fread \<lparr>content = body, pos = 16\<rparr> (map Some ?t @ Some NUL # cs) 16
       = Inr (int (length new), \<lparr>content = body, pos = 16 + length new\<rparr>, map Some u @ Some NUL # cs)"
      using second_read [OF len(1), of "Some NUL # cs" body] p1(2) False
      by (simp add: u_def new_def del: take_drop)
    from print_16 [OF len(2) nn(2), of "Some NUL # cs"] p1(2) obtain cs2 where
      p2: "print_buffer_content (map Some u @ Some NUL # cs) 16 = Inr (u, map Some u @ Some NUL # cs2)"
        "length cs2 = 111" by auto
    have m: "min (length body) 16 = 16" using False by simp
    let ?l = "line_part (take 15 (drop (16 + length new) body))"
    have main: "file_pointer_main A (Some body) =
      cbind (fgets \<lparr>content = body, pos = 16 + length new\<rparr> (map Some u @ Some NUL # cs2) 16) (\<lambda>(get_val, fp, buffer).
      cbind (deref get_val) (\<lambda>t3. Inr (0, after_seeks body @ [16] @ [- 1, - 1] @ [int (length new)], [?t, u, t3])))"
      using m by (simp add: start p1(1) r2 p2(1) del: fseeks.simps)
    show ?thesis
    proof (cases "length body < 33")
      case True
      then have "drop (16 + length new) body = []" using False by (simp add: new_def)
      then have "?l = []" by (simp add: line_part_def)
      with main True False show ?thesis by (simp add: fgets_def Let_def)
    next
      case long: False
      then have n: "length new = 16" by (simp add: new_def)
      have ne: "?l \<noteq> []" using long n by (intro line_part_nonempty) simp
      have nl: "length ?l \<le> 15" using line_part_length [of "take 15 (drop (16 + length new) body)"] by simp
      have "c_string ?l = ?l" using assms(1) by (intro c_string_no_nul line_part_no_nul no_nul_part)
      then have "fgets \<lparr>content = body, pos = 32\<rparr> (map Some u @ Some NUL # cs2) 16
          = Inr (Some ?l, \<lparr>content = body, pos = 32 + length ?l\<rparr>,
                 map Some ?l @ Some NUL # drop (Suc (length ?l)) (map Some u @ Some NUL # cs2))"
        using ne nl n p2(2) len(2) by (simp add: fgets_def poke_take Let_def)
      with main n long show ?thesis by (simp add: after_seeks_def u_def new_def)
    qed
  qed
qed

theorem file_pointer_test_results_witness:
  "file_pointer_main generous (Some ''too short'') = Inl Uninitialised
   \<and> file_pointer_main generous (Some ''Lorem ipsum dolor sit amet, conse'')
     = Inr (0, [0, 0, - 1, 0, 0, 0, 0, 0, 16, - 1, - 1, 16], [''Lorem ipsum dolo'', ''r sit amet, cons'', ''e''])"
  using file_pointer_test_results [of "''too short''" generous]
    file_pointer_test_results [of "''Lorem ipsum dolor sit amet, conse''" generous]
  by (simp add: no_nul_def NUL_def line_part_def)

end
