(* ===== verification/Stdio_Logs.thy ===== *)
theory Stdio_Logs
  imports Stdio_Streams
begin

text \<open>
  \<^verbatim>\<open>FileIO/file_pointer_test.c\<close> with all its messages: the calls of \<open>Stdio_Streams\<close> in their order, each
  followed by the messages that it sends through the logger. The log is determined by the results
  alone, which \<open>file_pointer_main\<close> computes without any logging; theory \<open>Log_Reading\<close> shows that it determines them.
\<close>

section \<open>The functions of the program\<close>

definition fpt :: string where "fpt = ''file_pointer_test.c''"

abbreviation info :: "log_state \<Rightarrow> int \<Rightarrow> string \<Rightarrow> string \<Rightarrow> log_state cres" where
  "info st line func m \<equiv> LOGGING LOG_LEVEL_INFO st fpt line func m"

text \<open>\<open>lst\<close> is the size that \<^verbatim>\<open>lstat\<close> stores, unless it fails; its result is not tested.\<close>

definition get_file_size :: "int option \<Rightarrow> int cres" where
  "get_file_size lst = (case lst of None \<Rightarrow> Inl Uninitialised | Some n \<Rightarrow> Inr n)"

text \<open>The difference of the two pointers is printed with \<^verbatim>\<open>%lu\<close>, as a number without sign.\<close>

definition get_buffer_size :: "log_state \<Rightarrow> file_ptrs \<Rightarrow> (int \<times> log_state) cres" where
  "get_buffer_size st fp =
     (let diff = int (IO_buf_end fp) - int (IO_buf_base fp) in
      cbind (info st 30 ''get_buffer_size'' (''Buffer size = '' @ dec_int (diff mod 2 ^ 64))) (\<lambda>st.
      Inr (if diff > 0 then diff else - diff, st)))"

definition print_file_info :: "log_state \<Rightarrow> string \<Rightarrow> int \<Rightarrow> log_state cres" where
  "print_file_info st fname fsize =
     cbind (info st 40 ''print_file_info'' (''File name = '' @ pad_right 20 fname)) (\<lambda>st.
     info st 41 ''print_file_info'' (''File size = '' @ pad_right 10 (dec_int fsize)))"

definition all_info_calls :: "file_ptrs \<Rightarrow> log_call list" where
  "all_info_calls fp =
     (let call = (\<lambda>(line, m). (LOG_LEVEL_INFO, fpt, line, ''print_all_info'', m));
          p = (\<lambda>a. pad_left 10 (pointer_text a)) in
      map call
       [(47, ''===================[START]===================''),
        (48, ''_IO_read_ptr    = '' @ p (IO_read_ptr fp)),
        (49, ''_IO_read_end    = '' @ p (IO_read_end fp)),
        (50, ''_IO_read_base   = '' @ p (IO_read_base fp)),
        (51, ''_IO_write_ptr   = '' @ p (IO_write_ptr fp)),
        (52, ''_IO_write_base  = '' @ p (IO_write_base fp)),
        (53, ''_IO_write_end   = '' @ p (IO_write_end fp)),
        (54, ''_IO_buf_base    = '' @ p (IO_buf_base fp)),
        (55, ''_IO_buf_end     = '' @ p (IO_buf_end fp)),
        (56, ''_IO_save_base   = '' @ p (IO_save_base fp)),
        (57, ''_IO_backup_base = '' @ p (IO_backup_base fp)),
        (58, ''_IO_save_end    = '' @ p (IO_save_end fp)),
        (59, ''====================[END]===================='')])"

definition print_all_info :: "log_state \<Rightarrow> file_ptrs \<Rightarrow> log_state cres" where
  "print_all_info st fp = log_all st (all_info_calls fp)"

definition log_buffer_content :: "log_state \<Rightarrow> cells \<Rightarrow> int \<Rightarrow> (log_state \<times> cells) cres" where
  "log_buffer_content st buffer end_pos =
     cbind (print_buffer_content buffer end_pos) (\<lambda>(s, buffer).
     cbind (info st 14 ''print_buffer_content'' (''buffer_content = '' @ s)) (\<lambda>st. Inr (st, buffer)))"

text \<open>
  One numbered step of \<^verbatim>\<open>main\<close>: the message about the call with its result, and the pointers. \<open>ptrs k\<close> are
  the private pointers of the stream when they are looked at for the \<open>k\<close>-th time, counted from 0.
\<close>

definition step_message :: "nat \<Rightarrow> string \<Rightarrow> string \<Rightarrow> string" where
  "step_message steps call result = ''[#'' @ pad_left 3 (dec_nat steps) @ ''] '' @ call @ '' = '' @ result"

definition log_step ::
  "(nat \<Rightarrow> file_ptrs) \<Rightarrow> log_state \<Rightarrow> nat \<Rightarrow> int \<Rightarrow> string \<Rightarrow> string \<Rightarrow> (log_state \<times> nat) cres" where
  "log_step ptrs st steps line call result =
     cbind (info st line ''main'' (step_message steps call result)) (\<lambda>st.
     cbind (print_all_info st (ptrs (Suc steps))) (\<lambda>st. Inr (st, Suc steps)))"

fun seek_steps ::
  "(nat \<Rightarrow> file_ptrs) \<Rightarrow> log_state \<Rightarrow> nat \<Rightarrow> rstream \<Rightarrow> (int \<times> seek_whence \<times> int \<times> string) list \<Rightarrow>
   (log_state \<times> nat \<times> rstream) cres" where
  "seek_steps ptrs st steps fp [] = Inr (st, steps, fp)"
| "seek_steps ptrs st steps fp ((off, wh, line, call) # ops) =
     (let (retval, fp) = fseek fp off wh in
      cbind (log_step ptrs st steps line call (dec_int retval)) (\<lambda>(st, steps).
      seek_steps ptrs st steps fp ops))"

definition first_ops :: "(int \<times> seek_whence \<times> int \<times> string) list" where
  "first_ops =
     [(0, SEEK_SET, 91, ''fseek(fp, 0, SEEK_SET)''),
      (8, SEEK_SET, 95, ''fseek(fp, 8, SEEK_SET)''),
      (- 8, SEEK_SET, 99, ''fseek(fp, -8, SEEK_SET)''),
      (0, SEEK_END, 103, ''fseek(fp, 0, SEEK_END)''),
      (- 8, SEEK_END, 107, ''feesk(fp, -8, SEEK_END)''),
      (4, SEEK_SET, 111, ''fseek(fp, 4, SEEK_SET)''),
      (4, SEEK_CUR, 115, ''fseek(fp, 4, SEEK_CUR)''),
      (0, SEEK_SET, 119, ''fseek(fp, 0, SEEK_SET)'')]"

definition special_ops :: "(int \<times> seek_whence \<times> int \<times> string) list" where
  "special_ops =
     [(50, SEEK_HOLE, 130, ''fseek(fp, 50, SEEK_HOLE)''),
      (50, SEEK_DATA, 136, ''fseek(fp, 50, SEEK_DATA)'')]"

definition fread_call :: string where "fread_call = ''fread(buffer, sizeof(char), 16, fp)''"

definition file_pointer_log ::
  "allocator \<Rightarrow> int option \<Rightarrow> (nat \<Rightarrow> file_ptrs) \<Rightarrow> string option \<Rightarrow> log_state \<Rightarrow> (int \<times> log_state) cres" where
  "file_pointer_log A lst ptrs lorem st =
     (if \<not> alloc_ok A 128
      then cbind (fprint st stderr ''Failed to malloc for the creating buffer'') (\<lambda>st. Inr (1, st))
      else
        (let st = snd (setup_logger st None LOG_LEVEL_INFO) in
         cbind (case lorem of
             None \<Rightarrow> LOGGING LOG_LEVEL_ERROR st fpt 78 ''main'' ''Failed to find lorem.txt in this dir...''
           | Some body \<Rightarrow>
               cbind (get_file_size lst) (\<lambda>fsize.
               cbind (print_file_info st ''lorem.txt'' fsize) (\<lambda>st.
               cbind (get_buffer_size st (ptrs 0)) (\<lambda>(stream_buffer_size, st).
               cbind (seek_steps ptrs st 0 \<lparr>content = body, pos = 0\<rparr> first_ops) (\<lambda>(st, steps, fp).
               cbind (fread fp (replicate 128 None) 16) (\<lambda>(retval, fp, buffer).
               cbind (log_step ptrs st steps 124 fread_call (dec_int retval)) (\<lambda>(st, steps).
               cbind (log_buffer_content st buffer 16) (\<lambda>(st, buffer).
               cbind (seek_steps ptrs st steps fp special_ops) (\<lambda>(st, steps, fp).
               cbind (fread fp buffer 16) (\<lambda>(retval, fp, buffer).
               cbind (log_step ptrs st steps 141 fread_call (dec_int retval)) (\<lambda>(st, steps).
               cbind (log_buffer_content st buffer 16) (\<lambda>(st, buffer).
               cbind (fgets fp buffer 16) (\<lambda>(get_val, fp, buffer).
               cbind (deref get_val) (\<lambda>s.
               cbind (log_step ptrs st steps 146 ''fgets(buffer, 16, fp)'' s) (\<lambda>(st, steps). Inr st)))))))))))))))
         (\<lambda>st. cbind (close_logger st None) (\<lambda>st. Inr (0, st)))))"

section \<open>The log as a list of calls\<close>

text \<open>The calls behind the functions, for given results.\<close>

definition file_info_calls :: "string \<Rightarrow> int \<Rightarrow> log_call list" where
  "file_info_calls fname fsize =
     [(LOG_LEVEL_INFO, fpt, 40, ''print_file_info'', ''File name = '' @ pad_right 20 fname),
      (LOG_LEVEL_INFO, fpt, 41, ''print_file_info'', ''File size = '' @ pad_right 10 (dec_int fsize))]"

definition buffer_size_call :: "file_ptrs \<Rightarrow> log_call" where
  "buffer_size_call fp = (LOG_LEVEL_INFO, fpt, 30, ''get_buffer_size'',
     ''Buffer size = '' @ dec_int ((int (IO_buf_end fp) - int (IO_buf_base fp)) mod 2 ^ 64))"

definition content_call :: "string \<Rightarrow> log_call" where
  "content_call s = (LOG_LEVEL_INFO, fpt, 14, ''print_buffer_content'', ''buffer_content = '' @ s)"

definition step_calls :: "(nat \<Rightarrow> file_ptrs) \<Rightarrow> nat \<Rightarrow> int \<Rightarrow> string \<Rightarrow> string \<Rightarrow> log_call list" where
  "step_calls ptrs k line call result =
     (LOG_LEVEL_INFO, fpt, line, ''main'', step_message k call result) # all_info_calls (ptrs (Suc k))"

fun seek_calls ::
  "(nat \<Rightarrow> file_ptrs) \<Rightarrow> nat \<Rightarrow> (int \<times> seek_whence \<times> int \<times> string) list \<Rightarrow> int list \<Rightarrow> log_call list" where
  "seek_calls ptrs k ((off, wh, line, call) # ops) (r # rs) =
     step_calls ptrs k line call (dec_int r) @ seek_calls ptrs (Suc k) ops rs"
| "seek_calls ptrs k _ _ = []"

definition results_log :: "int \<Rightarrow> (nat \<Rightarrow> file_ptrs) \<Rightarrow> int list \<Rightarrow> string list \<Rightarrow> log_call list" where
  "results_log fsize ptrs rs ts =
     file_info_calls ''lorem.txt'' fsize @ buffer_size_call (ptrs 0)
     # seek_calls ptrs 0 first_ops (take 8 rs)
     @ step_calls ptrs 8 124 fread_call (dec_int (rs ! 8)) @ content_call (ts ! 0)
     # seek_calls ptrs 9 special_ops (take 2 (drop 9 rs))
     @ step_calls ptrs 11 141 fread_call (dec_int (rs ! 11)) @ content_call (ts ! 1)
     # step_calls ptrs 12 146 ''fgets(buffer, 16, fp)'' (ts ! 2)"

text \<open>A logger that is ready to print, and the state after some calls.\<close>

definition ready :: "log_state \<Rightarrow> bool" where
  "ready st \<longleftrightarrow> is_open st stderr \<and> default_log_stream st = Some stderr \<and> default_log_level st = LOG_LEVEL_INFO"

definition emit :: "log_state \<Rightarrow> log_call list \<Rightarrow> log_state" where
  "emit st cs = st\<lparr>text_of := (text_of st)(stderr := text_of st stderr @ concat (map log_line cs))\<rparr>"

lemma emit_emit [simp]: "emit (emit st cs) ds = emit st (cs @ ds)"
  by (simp add: emit_def)

lemma ready_emit [simp]: "ready (emit st cs) = ready st"
  by (simp add: emit_def ready_def)

lemma ready_setup: "is_open st stderr \<Longrightarrow> ready (snd (setup_logger st None LOG_LEVEL_INFO))"
  by (simp add: ready_def setup_logger_def)

lemma log_all_emit:
  assumes "ready st" and "\<forall>c \<in> set cs. short_call c \<and> fst c = LOG_LEVEL_INFO"
  shows "log_all st cs = Inr (emit st cs)"
proof -
  have "filter (\<lambda>c. fst c \<le> default_log_level st) cs = cs"
    using assms by (simp add: ready_def filter_id_conv)
  with log_all_result [of cs st stderr] assms show ?thesis by (simp add: emit_def ready_def target_def)
qed

lemma info_emit:
  assumes "ready st" and "short_call (LOG_LEVEL_INFO, fpt, line, func, m)"
  shows "info st line func m = Inr (emit st [(LOG_LEVEL_INFO, fpt, line, func, m)])"
  using log_all_emit [of st "[(LOG_LEVEL_INFO, fpt, line, func, m)]"] assms
  by (cases "info st line func m") (simp_all del: short_call.simps)

text \<open>All messages of the program are far from the end of the logger's buffer.\<close>

lemma info_short:
  assumes "no_nul m" and "length m \<le> 500" and "no_nul func" and "length func \<le> 30" and "0 < line" and "line < 1000"
  shows "short_call (LOG_LEVEL_INFO, fpt, line, func, m)"
proof -
  have "length (dec_int line) \<le> 21" using assms by (intro dec_int_length) simp_all
  moreover have "known_level LOG_LEVEL_INFO" by (simp add: known_level_def log_levels)
  moreover have "no_nul fpt" by (simp add: fpt_def no_nul_def NUL_def)
  ultimately show ?thesis
    using assms log_prefix_facts(1) [of LOG_LEVEL_INFO] by (simp add: location_def fpt_def)
qed

definition ptr_range :: "file_ptrs \<Rightarrow> bool" where
  "ptr_range fp \<longleftrightarrow> (\<forall>f \<in> {IO_read_ptr, IO_read_end, IO_read_base, IO_write_ptr, IO_write_end, IO_write_base,
     IO_buf_base, IO_buf_end, IO_save_base, IO_backup_base, IO_save_end}. f fp < 2 ^ 64)"

lemma no_nul_Cons: "no_nul (c # s) \<longleftrightarrow> c \<noteq> NUL \<and> no_nul s" "no_nul []"
  by (auto simp: no_nul_def)

lemma pointer_line_short:
  assumes "a < 2 ^ 64" and "length t = 18" and "no_nul t" and "0 < line" and "line < 1000"
  shows "short_call (LOG_LEVEL_INFO, fpt, line, ''print_all_info'', t @ pad_left 10 (pointer_text a))"
  using assms pointer_text_length [OF assms(1)]
  by (intro info_short) (simp_all add: no_nul_Cons NUL_def)

lemma all_info_short:
  assumes "ptr_range fp"
  shows "\<forall>c \<in> set (all_info_calls fp). short_call c \<and> fst c = LOG_LEVEL_INFO"
proof -
  have "\<forall>c \<in> set (all_info_calls fp). short_call c"
    unfolding list_all_iff [symmetric] all_info_calls_def Let_def list.map prod.case list.pred_inject
    by (intro conjI list.pred_inject(1); (rule pointer_line_short | rule info_short);
        (use assms in \<open>simp add: ptr_range_def no_nul_Cons NUL_def\<close>))
  moreover have "\<forall>c \<in> set (all_info_calls fp). fst c = LOG_LEVEL_INFO"
    by (simp add: all_info_calls_def Let_def)
  ultimately show ?thesis by blast
qed

section \<open>Each function adds its messages\<close>

definition good_text :: "string \<Rightarrow> bool" where
  "good_text s \<longleftrightarrow> no_nul s \<and> length s \<le> 200"

lemma good_text_dec: "- (2 ^ 63) \<le> x \<Longrightarrow> x < 2 ^ 64 \<Longrightarrow> good_text (dec_int x)"
  using dec_int_length [of x] by (simp add: good_text_def)

lemma log_step_emit:
  assumes "ready st" and "ptr_range (ptrs (Suc k))" and "k < 1000" and "good_text call" and "good_text result"
    and "0 < line" and "line < 1000"
  shows "log_step ptrs st k line call result = Inr (emit st (step_calls ptrs k line call result), Suc k)"
proof -
  have k: "no_nul (dec_nat k)" "length (dec_nat k) \<le> 3"
    using no_nul_dec_int [of "int k"] dec_nat_length [of 3 k] assms(3) by (simp_all add: dec_int_def)
  have "short_call (LOG_LEVEL_INFO, fpt, line, ''main'', step_message k call result)"
    using assms(4-7) k by (intro info_short) (simp_all add: step_message_def good_text_def no_nul_Cons NUL_def)
  with assms(1) log_all_emit [OF _ all_info_short [OF assms(2)]] show ?thesis
    by (simp add: log_step_def info_emit print_all_info_def step_calls_def del: short_call.simps)
qed

lemma set_string_good: "set_string cs = Inr s \<Longrightarrow> no_nul s \<and> length s < length cs"
proof (induction cs arbitrary: s)
  case (Cons c cs)
  then show ?case by (cases c) (auto simp: no_nul_Cons split: if_splits)
qed simp

lemma print_buffer_content_good:
  assumes "print_buffer_content buffer e = Inr (s, buffer')" and "length buffer = 128"
  shows "good_text s" and "length buffer' = 128"
proof -
  from assms(1) obtain b where b: "poke buffer (if e < 0 then 0 else e) [Some NUL] = Inr b"
    "set_string b = Inr s" "buffer' = b"
    by (auto simp: print_buffer_content_def cbind_eq_Inr_iff)
  have "length b = 128" using poke_length [OF b(1)] assms(2) by simp
  with set_string_good [OF b(2)] b(3) show "good_text s" "length buffer' = 128"
    by (simp_all add: good_text_def)
qed

lemma cbind_cong_Inr: "(\<And>x. m = Inr x \<Longrightarrow> f x = g x) \<Longrightarrow> cbind m f = cbind m g"
  by (cases m) simp_all

lemma log_buffer_content_emit:
  assumes "ready st" and "length buffer = 128"
  shows "log_buffer_content st buffer e =
    cbind (print_buffer_content buffer e) (\<lambda>(s, buffer). Inr (emit st [content_call s], buffer))"
  unfolding log_buffer_content_def
proof (rule cbind_cong_Inr, clarify)
  fix s b
  assume "print_buffer_content buffer e = Inr (s, b)"
  then have "good_text s" by (rule print_buffer_content_good) (fact assms(2))
  then have "short_call (LOG_LEVEL_INFO, fpt, 14, ''print_buffer_content'', ''buffer_content = '' @ s)"
    by (intro info_short) (simp_all add: good_text_def no_nul_Cons NUL_def)
  with assms(1) show "cbind (info st 14 ''print_buffer_content'' (''buffer_content = '' @ s)) (\<lambda>st. Inr (st, b))
      = Inr (emit st [content_call s], b)"
    by (simp add: info_emit content_call_def del: short_call.simps)
qed

lemma fread_good:
  assumes "fread fp buffer n = Inr (r, fp', buffer')" and "n \<le> 128"
  shows "good_text (dec_int r)" and "length buffer' = length buffer"
proof -
  from assms have "0 \<le> r" "r \<le> 128" "length buffer' = length buffer"
    by (auto simp: fread_def Let_def dest!: poke_length)
  then show "good_text (dec_int r)" "length buffer' = length buffer" by (simp_all add: good_text_dec)
qed

lemma fgets_good:
  assumes "fgets fp buffer n = Inr (Some s, fp', buffer')" and "n \<le> 128"
  shows "good_text s"
proof -
  let ?l = "line_part (take (n - 1) (drop (pos fp) (content fp)))"
  have "s = c_string ?l" using assms(1) by (auto simp: fgets_def Let_def split: if_splits)
  moreover have "length ?l \<le> 128"
    using line_part_length [of "take (n - 1) (drop (pos fp) (content fp))"] assms(2) by (auto intro: order_trans)
  moreover have "length (c_string ?l) \<le> length ?l" unfolding c_string_def by (rule length_takeWhile_le)
  ultimately show ?thesis by (auto simp: good_text_def no_nul_def c_string_def dest: set_takeWhileD)
qed

fun good_ops :: "(int \<times> seek_whence \<times> int \<times> string) list \<Rightarrow> bool" where
  "good_ops [] = True"
| "good_ops ((off, wh, line, call) # ops) \<longleftrightarrow> good_text call \<and> 0 < line \<and> line < 1000 \<and> good_ops ops"

lemma fseek_result: "fst (fseek fp off wh) \<in> {- 1, 0}"
  by (simp add: fseek_def Let_def)

lemma seek_steps_emit:
  assumes "ready st" and "\<forall>k. ptr_range (ptrs k)" and "good_ops ops" and "k + length ops < 1000"
  shows "seek_steps ptrs st k fp ops =
    (let (rs, fp) = fseeks fp (map (\<lambda>(off, wh, line, call). (off, wh)) ops)
     in Inr (emit st (seek_calls ptrs k ops rs), k + length ops, fp))"
  using assms
proof (induction ops arbitrary: st k fp)
  case Nil
  then show ?case by (simp add: emit_def)
next
  case (Cons op ops)
  obtain off wh line call where op: "op = (off, wh, line, call)" by (cases op)
  obtain r fp' where r: "fseek fp off wh = (r, fp')" by fastforce
  have "good_text (dec_int r)" using fseek_result [of fp off wh] r by (intro good_text_dec) auto
  with Cons.prems op have "log_step ptrs st k line call (dec_int r)
      = Inr (emit st (step_calls ptrs k line call (dec_int r)), Suc k)"
    by (intro log_step_emit) simp_all
  with Cons.IH [of "emit st (step_calls ptrs k line call (dec_int r))" "Suc k" fp'] Cons.prems op r
  show ?case by (simp split: prod.splits)
qed

lemma print_file_info_emit:
  assumes "ready st" and "good_text fname" and "good_text (dec_int fsize)"
  shows "print_file_info st fname fsize = Inr (emit st (file_info_calls fname fsize))"
proof -
  have "short_call (LOG_LEVEL_INFO, fpt, 40, ''print_file_info'', ''File name = '' @ pad_right 20 fname)"
    "short_call (LOG_LEVEL_INFO, fpt, 41, ''print_file_info'', ''File size = '' @ pad_right 10 (dec_int fsize))"
    using assms(2,3) by (intro info_short; simp add: good_text_def no_nul_Cons NUL_def)+
  with assms(1) show ?thesis
    by (simp add: print_file_info_def info_emit file_info_calls_def del: short_call.simps)
qed

lemma get_buffer_size_emit:
  assumes "ready st"
  shows "\<exists>n. get_buffer_size st fp = Inr (n, emit st [buffer_size_call fp])"
proof -
  let ?d = "(int (IO_buf_end fp) - int (IO_buf_base fp)) mod 2 ^ 64"
  have "0 \<le> ?d" "?d < 2 ^ 64" by simp_all
  then have "good_text (dec_int ?d)" by (intro good_text_dec) (rule order_trans [of _ 0], simp_all)
  then have "short_call (LOG_LEVEL_INFO, fpt, 30, ''get_buffer_size'', ''Buffer size = '' @ dec_int ?d)"
    by (intro info_short) (simp_all add: good_text_def no_nul_Cons NUL_def)
  with assms show ?thesis
    by (simp add: get_buffer_size_def info_emit buffer_size_call_def Let_def del: short_call.simps)
qed

lemma ops_good:
  "good_ops first_ops" "good_ops special_ops" "good_text fread_call" "good_text ''fgets(buffer, 16, fp)''"
  "good_text ''lorem.txt''"
  by (simp_all add: first_ops_def special_ops_def fread_call_def good_text_def no_nul_Cons NUL_def)

lemma ops_seeks:
  "map (\<lambda>(off, wh, line, call). (off, wh)) first_ops =
     [(0, SEEK_SET), (8, SEEK_SET), (- 8, SEEK_SET), (0, SEEK_END), (- 8, SEEK_END),
      (4, SEEK_SET), (4, SEEK_CUR), (0, SEEK_SET)]"
  "map (\<lambda>(off, wh, line, call). (off, wh)) special_ops = [(50, SEEK_HOLE), (50, SEEK_DATA)]"
  "length first_ops = 8" "length special_ops = 2"
  by (simp_all add: first_ops_def special_ops_def)

text \<open>
  The end of \<^verbatim>\<open>main\<close> from the second \<^verbatim>\<open>fread\<close> on, next to the same part without messages; \<open>h\<close> takes the
  results to the final state.
\<close>

lemma second_half_logged:
  assumes "ready st" and "\<forall>k. ptr_range (ptrs k)" and "length b = 128"
    and h: "\<And>r4 t2 t3. h (0, rs @ [r4], [t1, t2, t3]) = Inr (emit st (cs
       @ step_calls ptrs 11 141 fread_call (dec_int r4) @ content_call t2
       # step_calls ptrs 12 146 ''fgets(buffer, 16, fp)'' t3))"
  shows "cbind (fread fp b 16) (\<lambda>(retval, fp, buffer).
      cbind (log_step ptrs (emit st cs) 11 141 fread_call (dec_int retval)) (\<lambda>(st, steps).
      cbind (log_buffer_content st buffer 16) (\<lambda>(st, buffer).
      cbind (fgets fp buffer 16) (\<lambda>(get_val, fp, buffer).
      cbind (deref get_val) (\<lambda>s.
      cbind (log_step ptrs st steps 146 ''fgets(buffer, 16, fp)'' s) (\<lambda>(st, steps). Inr st))))))
    = cbind (fread fp b 16) (\<lambda>(r4, fp, buffer).
      cbind (print_buffer_content buffer 16) (\<lambda>(t2, buffer).
      cbind (fgets fp buffer 16) (\<lambda>(get_val, fp, buffer).
      cbind (deref get_val) (\<lambda>t3. h (0, rs @ [r4], [t1, t2, t3])))))"
proof (rule cbind_cong_Inr, clarify)
  fix r fp' b'
  assume f: "fread fp b 16 = Inr (r, fp', b')"
  note g = fread_good [OF f]
  have last: "cbind (log_step ptrs (emit st (cs @ ds)) 12 146 ''fgets(buffer, 16, fp)'' s) (\<lambda>(st, steps). Inr st)
      = Inr (emit st (cs @ ds @ step_calls ptrs 12 146 ''fgets(buffer, 16, fp)'' s))" if "good_text s" for ds s
    using that assms(1,2) ops_good by (simp add: log_step_emit)
  show "cbind (log_step ptrs (emit st cs) 11 141 fread_call (dec_int r)) (\<lambda>(st, steps).
      cbind (log_buffer_content st b' 16) (\<lambda>(st, buffer).
      cbind (fgets fp' buffer 16) (\<lambda>(get_val, fp, buffer).
      cbind (deref get_val) (\<lambda>s.
      cbind (log_step ptrs st steps 146 ''fgets(buffer, 16, fp)'' s) (\<lambda>(st, steps). Inr st)))))
    = cbind (print_buffer_content b' 16) (\<lambda>(t2, buffer).
      cbind (fgets fp' buffer 16) (\<lambda>(get_val, fp, buffer).
      cbind (deref get_val) (\<lambda>t3. h (0, rs @ [r], [t1, t2, t3]))))"
    using assms(1-3) g ops_good
    by (simp add: log_step_emit log_buffer_content_emit cbind_assoc h)
      (auto simp: deref_def last dest!: fgets_good intro!: cbind_cong_Inr split: option.splits)
qed

text \<open>The same from the first \<^verbatim>\<open>fread\<close> on.\<close>

lemma reading_logged:
  assumes "ready st" and "\<forall>k. ptr_range (ptrs k)"
    and h: "\<And>r2 r4 t1 t2 t3. h (0, rs @ [r2, - 1, - 1, r4], [t1, t2, t3]) = Inr (emit st (cs
       @ step_calls ptrs 8 124 fread_call (dec_int r2) @ content_call t1
       # seek_calls ptrs 9 special_ops [- 1, - 1]
       @ step_calls ptrs 11 141 fread_call (dec_int r4) @ content_call t2
       # step_calls ptrs 12 146 ''fgets(buffer, 16, fp)'' t3))"
  shows "cbind (fread fp (replicate 128 None) 16) (\<lambda>(retval, fp, buffer).
      cbind (log_step ptrs (emit st cs) 8 124 fread_call (dec_int retval)) (\<lambda>(st, steps).
      cbind (log_buffer_content st buffer 16) (\<lambda>(st, buffer).
      cbind (seek_steps ptrs st steps fp special_ops) (\<lambda>(st, steps, fp).
      cbind (fread fp buffer 16) (\<lambda>(retval, fp, buffer).
      cbind (log_step ptrs st steps 141 fread_call (dec_int retval)) (\<lambda>(st, steps).
      cbind (log_buffer_content st buffer 16) (\<lambda>(st, buffer).
      cbind (fgets fp buffer 16) (\<lambda>(get_val, fp, buffer).
      cbind (deref get_val) (\<lambda>s.
      cbind (log_step ptrs st steps 146 ''fgets(buffer, 16, fp)'' s) (\<lambda>(st, steps). Inr st))))))))))
    = cbind (fread fp (replicate 128 None) 16) (\<lambda>(r2, fp, buffer).
      cbind (print_buffer_content buffer 16) (\<lambda>(t1, buffer).
      let (rs3, fp) = fseeks fp [(50, SEEK_HOLE), (50, SEEK_DATA)] in
      cbind (fread fp buffer 16) (\<lambda>(r4, fp, buffer).
      cbind (print_buffer_content buffer 16) (\<lambda>(t2, buffer).
      cbind (fgets fp buffer 16) (\<lambda>(get_val, fp, buffer).
      cbind (deref get_val) (\<lambda>t3. h (0, rs @ [r2] @ rs3 @ [r4], [t1, t2, t3])))))))"
proof (rule cbind_cong_Inr, goal_cases)
  case (1 x)
  obtain r2 fp2 b2 where x: "x = (r2, fp2, b2)" by (cases x)
  note g = fread_good [OF 1 [unfolded x]]
  let ?cs = "\<lambda>t1. cs @ step_calls ptrs 8 124 fread_call (dec_int r2) @ content_call t1
    # seek_calls ptrs 9 special_ops [- 1, - 1]"
  have "h (0, (rs @ [r2, - 1, - 1]) @ [r4], [t1, t2, t3]) = Inr (emit st (?cs t1
       @ step_calls ptrs 11 141 fread_call (dec_int r4) @ content_call t2
       # step_calls ptrs 12 146 ''fgets(buffer, 16, fp)'' t3))" for r4 t1 t2 t3
    using h [of r2 r4 t1 t2 t3] by simp
  note second = second_half_logged [OF assms(1,2) _ this, where fp = fp2, simplified]
  have seeks: "seek_steps ptrs (emit st ds) 9 fp2 special_ops =
      Inr (emit st (ds @ seek_calls ptrs 9 special_ops [- 1, - 1]), 11, fp2)" for ds
    using assms(1,2) ops_good
    by (simp add: seek_steps_emit ops_seeks special_seeks del: fseeks.simps seek_calls.simps)
  show ?case
    unfolding x prod.case special_seeks
    using assms(1,2) g ops_good
    by (simp add: log_step_emit log_buffer_content_emit cbind_assoc)
      (rule cbind_cong_Inr, auto simp: seeks second dest: print_buffer_content_good)
qed

section \<open>The log shows the results\<close>

lemma opened_logged:
  assumes "ready st" and "\<forall>k. ptr_range (ptrs k)" and "alloc_ok A 128" and "- (2 ^ 63) \<le> fsize" and "fsize < 2 ^ 63"
    and "setup_logger st0 None LOG_LEVEL_INFO = (0, st)"
  shows "file_pointer_log A (Some fsize) ptrs (Some body) st0 =
    cbind (file_pointer_main A (Some body)) (\<lambda>(r, rs, ts). Inr (0, emit st (results_log fsize ptrs rs ts)))"
proof -
  let ?pre = "file_info_calls ''lorem.txt'' fsize @ buffer_size_call (ptrs 0) # seek_calls ptrs 0 first_ops (after_seeks body)"
  let ?h = "\<lambda>(r :: int, rs, ts). Inr (emit st (results_log fsize ptrs rs ts))"
  have fs: "good_text (dec_int fsize)" using assms(4,5) by (intro good_text_dec) simp_all
  obtain n where n: "get_buffer_size (emit st (file_info_calls ''lorem.txt'' fsize)) (ptrs 0)
      = Inr (n, emit st (file_info_calls ''lorem.txt'' fsize @ [buffer_size_call (ptrs 0)]))"
    using get_buffer_size_emit [of "emit st (file_info_calls ''lorem.txt'' fsize)"] assms(1) by auto
  have seeks: "seek_steps ptrs (emit st ds) 0 \<lparr>content = body, pos = 0\<rparr> first_ops =
      Inr (emit st (ds @ seek_calls ptrs 0 first_ops (after_seeks body)), 8, \<lparr>content = body, pos = 0\<rparr>)" for ds
    using assms(1,2) ops_good by (simp add: seek_steps_emit ops_seeks first_seeks del: fseeks.simps)
  have h: "?h (0, after_seeks body @ [r2, - 1, - 1, r4], [t1, t2, t3]) = Inr (emit st (?pre
       @ step_calls ptrs 8 124 fread_call (dec_int r2) @ content_call t1
       # seek_calls ptrs 9 special_ops [- 1, - 1]
       @ step_calls ptrs 11 141 fread_call (dec_int r4) @ content_call t2
       # step_calls ptrs 12 146 ''fgets(buffer, 16, fp)'' t3))" for r2 r4 t1 t2 t3
    by (simp add: results_log_def after_seeks_def)
  note rest = reading_logged [OF assms(1,2) h, where fp = "\<lparr>content = body, pos = 0\<rparr>"]
  show ?thesis
    using assms(1,3,6) fs ops_good
    by (simp add: file_pointer_log_def get_file_size_def print_file_info_emit n seeks rest close_logger_def
        del: fseeks.simps seek_calls.simps)
      (simp add: file_pointer_main_def first_seeks special_seeks cbind_assoc split_def del: fseeks.simps)
qed

text \<open>
  What \<^verbatim>\<open>file_pointer_test.c\<close> logs is determined by the results of its calls. For every content of
  \<^verbatim>\<open>lorem.txt\<close>, and whatever the private pointers of the stream are, the program with its messages does what
  the calls alone do: it fails where they fail, and otherwise it ends with status 0 and has added
  exactly the lines that show the results, in order. When the file cannot be opened one line says
  so, and without memory a text without line end is printed and the status is 1.
\<close>

lemma log_shows_results:
  assumes "is_open st stderr" and "\<forall>k. ptr_range (ptrs k)" and "- (2 ^ 63) \<le> fsize" and "fsize < 2 ^ 63"
  defines "st' \<equiv> snd (setup_logger st None LOG_LEVEL_INFO)"
  shows "file_pointer_log A (Some fsize) ptrs lorem st =
    cbind (file_pointer_main A lorem) (\<lambda>(r, rs, ts).
      Inr (r, if r \<noteq> 0 then st\<lparr>text_of := (text_of st)(stderr :=
                    text_of st stderr @ ''Failed to malloc for the creating buffer'')\<rparr>
              else if lorem = None
              then emit st' [(LOG_LEVEL_ERROR, fpt, 78, ''main'', ''Failed to find lorem.txt in this dir...'')]
              else emit st' (results_log fsize ptrs rs ts)))"
proof (cases "alloc_ok A 128")
  case False
  then show ?thesis using assms(1) by (simp add: file_pointer_log_def file_pointer_main_def fprint_def)
next
  case ok: True
  have ready: "ready st'" unfolding st'_def by (rule ready_setup [OF assms(1)])
  have sl: "setup_logger st None LOG_LEVEL_INFO = (0, st')" by (simp add: st'_def setup_logger_def)
  show ?thesis
  proof (cases lorem)
    case None
    have "short_call (LOG_LEVEL_ERROR, fpt, 78, ''main'', ''Failed to find lorem.txt in this dir...'')"
      by (simp add: known_level_def log_levels no_nul_Cons NUL_def fpt_def location_def dec_int_def
          dec_nat.simps digit_chars log_prefix_def log_level_string_def pad_right_def)
    then have "LOGGING LOG_LEVEL_ERROR st' fpt 78 ''main'' ''Failed to find lorem.txt in this dir...''
        = Inr (emit st' [(LOG_LEVEL_ERROR, fpt, 78, ''main'', ''Failed to find lorem.txt in this dir...'')])"
      using LOGGING_short [of LOG_LEVEL_ERROR fpt 78 "''main''" _ st'] ready
      by (simp add: ready_def target_def emit_def log_levels del: short_call.simps)
    with None ok sl show ?thesis
      by (simp add: file_pointer_log_def file_pointer_main_def close_logger_def)
  next
    case (Some body)
    have "file_pointer_main A (Some body) = Inr (r, rs, ts) \<Longrightarrow> r = 0" for r rs ts
      using ok by (auto simp: file_pointer_main_def cbind_eq_Inr_iff split_def Let_def)
    with Some opened_logged [OF ready assms(2) ok assms(3,4) sl, of body] show ?thesis
      by (auto intro!: cbind_cong_Inr)
  qed
qed

end
