(* ===== verification/Log_Reading.thy ===== *)
theory Log_Reading
  imports Stdio_Logs
begin

text \<open>
  What can be read from the log of \<^verbatim>\<open>FileIO/file_pointer_test.c\<close>: the conversions of \<^verbatim>\<open>printf\<close> that it uses can be undone, lines can be
  told apart, and so the log determines the file size, the private pointers at every look, and the text that was read.
\<close>

section \<open>Conversions can be undone\<close>

text \<open>Text without white space; all numbers are.\<close>

definition solid :: "string \<Rightarrow> bool" where
  "solid s \<longleftrightarrow> CHR '' '' \<notin> set s \<and> CHR 0x0A \<notin> set s"

lemma solid_simps [simp]:
  "solid []" "solid (c # s) \<longleftrightarrow> c \<noteq> CHR '' '' \<and> c \<noteq> CHR 0x0A \<and> solid s" "solid (s @ t) \<longleftrightarrow> solid s \<and> solid t"
  by (auto simp: solid_def)

lemma solid_dec_nat [simp]: "solid (dec_nat n)"
proof -
  have "c \<noteq> CHR '' '' \<and> c \<noteq> CHR 0x0A" if "c \<in> set (dec_nat n)" for c
  proof -
    from dec_nat_digits [OF that] obtain d where "d < 10" "c = digit_char d" by blast
    then have "\<not> is_space c" by (simp add: digit_char_not_special)
    then show ?thesis by (auto simp: is_space_def)
  qed
  then show ?thesis by (auto simp: solid_def)
qed

lemma solid_dec_int [simp]: "solid (dec_int x)"
  by (simp add: dec_int_def)

lemma of_hex_char: "d < 16 \<Longrightarrow> of_char (hex_char d) = (if d < 10 then 48 + d else 87 + d)"
  by (simp add: hex_char_def take_bit_eq_mod)

lemma hex_char_inject: "d < 16 \<Longrightarrow> e < 16 \<Longrightarrow> hex_char d = hex_char e \<Longrightarrow> d = e"
  by (drule arg_cong [of _ _ "of_char :: char \<Rightarrow> nat"]) (auto simp: of_hex_char split: if_splits)

lemma solid_hex_char: "d < 16 \<Longrightarrow> solid [hex_char d]"
  using of_hex_char [of d] by (auto split: if_splits)

lemma solid_hex_nat [simp]: "solid (hex_nat n)"
proof (induction n rule: hex_nat.induct)
  case (1 n)
  then show ?case using solid_hex_char [of n] solid_hex_char [of "n mod 16"] by (subst hex_nat.simps) auto
qed

lemma hex_nat_nonempty [simp]: "hex_nat n \<noteq> []"
  by (subst hex_nat.simps) simp

lemma hex_nat_inject: "hex_nat m = hex_nat n \<Longrightarrow> m = n"
proof (induction m arbitrary: n rule: hex_nat.induct)
  case (1 m)
  show ?case
  proof (cases "m < 16 \<or> n < 16")
    case True
    with "1.prems" have "m < 16" "n < 16"
      by (auto simp: hex_nat.simps [of m] hex_nat.simps [of n] append_eq_Cons_conv Cons_eq_append_conv split: if_splits)
    with "1.prems" show ?thesis by (simp add: hex_nat.simps [of m] hex_nat.simps [of n] hex_char_inject)
  next
    case False
    with "1.prems" have "hex_nat (m div 16) = hex_nat (n div 16)" "hex_char (m mod 16) = hex_char (n mod 16)"
      by (simp_all add: hex_nat.simps [of m] hex_nat.simps [of n])
    with "1.IH" [of "n div 16"] False have "m div 16 = n div 16" "m mod 16 = n mod 16"
      by (simp_all add: hex_char_inject)
    then show ?thesis by (metis div_mult_mod_eq)
  qed
qed

lemma pointer_text_inject [simp]: "pointer_text a = pointer_text b \<longleftrightarrow> a = b"
  using hex_nat_inject by (auto simp: pointer_text_def)

lemma solid_pointer_text [simp]: "solid (pointer_text a)"
  by (simp add: pointer_text_def)

lemma dec_nat_inject [simp]: "dec_nat m = dec_nat n \<longleftrightarrow> m = n"
  by (metis read_digits_dec_nat)

lemma dec_int_inject [simp]: "dec_int x = dec_int y \<longleftrightarrow> x = y"
proof -
  have "CHR ''-'' # s \<noteq> dec_nat n" for s n
    using dec_nat_digit_val [of "CHR ''-''" n] by (metis list.set_intros(1) dec_nat_digits digit_char_not_special(1))
  moreover from this have "dec_nat n \<noteq> CHR ''-'' # s" for s n by metis
  ultimately show ?thesis by (auto simp: dec_int_def)
qed

lemma pad_left_solid: "solid s \<Longrightarrow> dropWhile (\<lambda>c. c = CHR '' '') (pad_left n s) = s"
  unfolding pad_left_def by (cases s) (simp_all add: dropWhile_append)

lemma pad_right_solid: "solid s \<Longrightarrow> takeWhile (\<lambda>c. c \<noteq> CHR '' '') (pad_right n s) = s"
  unfolding pad_right_def
  by (cases "n - length s") (auto simp: solid_def takeWhile_append takeWhile_eq_all_conv)

lemma pad_inject:
  assumes "solid s" and "solid t"
  shows "pad_left n s = pad_left n t \<longleftrightarrow> s = t" and "pad_right n s = pad_right n t \<longleftrightarrow> s = t"
  using assms pad_left_solid pad_right_solid by metis+

section \<open>Lines can be told apart\<close>

definition one_line :: "string \<Rightarrow> bool" where
  "one_line s \<longleftrightarrow> CHR 0x0A \<notin> set s"

lemma one_line_simps [simp]:
  "one_line []" "one_line (c # s) \<longleftrightarrow> c \<noteq> CHR 0x0A \<and> one_line s" "one_line (s @ t) \<longleftrightarrow> one_line s \<and> one_line t"
  "one_line (pad_left n s) \<longleftrightarrow> one_line s" "one_line (pad_right n s) \<longleftrightarrow> one_line s"
  by (auto simp: one_line_def pad_left_def pad_right_def)

lemma solid_one_line: "solid s \<Longrightarrow> one_line s"
  by (simp add: solid_def one_line_def)

lemma numbers_one_line [simp]: "one_line (dec_int x)" "one_line (dec_nat n)" "one_line (pointer_text a)"
  by (simp_all add: solid_one_line)

lemma line_end: "one_line a \<Longrightarrow> one_line b \<Longrightarrow> a @ CHR 0x0A # r = b @ CHR 0x0A # s \<longleftrightarrow> a = b \<and> r = s"
proof (induction a arbitrary: b)
  case Nil
  then show ?case by (cases b) auto
next
  case (Cons c a)
  then show ?case by (cases b) auto
qed

text \<open>The place that a message comes from, and its text.\<close>

fun place :: "log_call \<Rightarrow> int \<times> string \<times> int \<times> string" where
  "place (level, file, line, func, m) = (level, file, line, func)"

fun message :: "log_call \<Rightarrow> string" where
  "message (level, file, line, func, m) = m"

fun one_line_call :: "log_call \<Rightarrow> bool" where
  "one_line_call (level, file, line, func, m) \<longleftrightarrow> level = LOG_LEVEL_INFO \<and> one_line file \<and> one_line func \<and> one_line m"

lemma log_line_inject:
  assumes "one_line_call c" and "one_line_call d" and "place c = place d"
  shows "log_line c @ r = log_line d @ s \<longleftrightarrow> c = d \<and> r = s"
proof -
  obtain level fl line func m m' where c: "c = (level, fl, line, func, m)" "d = (level, fl, line, func, m')"
    using assms(3) by (cases c, cases d) auto
  have "one_line (log_prefix level @ m @ location fl line func)" "one_line (log_prefix level @ m' @ location fl line func)"
    using assms(1,2) by (auto simp: c log_prefix_def location_def log_level_string_def log_levels)
  from line_end [OF this, of r s] show ?thesis by (simp add: c newline_def)
qed

lemma log_lines_inject:
  assumes "list_all one_line_call cs" and "list_all one_line_call ds" and "map place cs = map place ds"
  shows "concat (map log_line cs) = concat (map log_line ds) \<longleftrightarrow> cs = ds"
  using assms
proof (induction cs arbitrary: ds)
  case (Cons c cs)
  then obtain d es where ds: "ds = d # es" by (cases ds) auto
  with Cons show ?case by (simp add: log_line_inject del: log_line.simps place.simps one_line_call.simps)
qed simp

lemma emit_inject: "emit st cs = emit st ds \<longleftrightarrow> concat (map log_line cs) = concat (map log_line ds)"
proof
  assume "emit st cs = emit st ds"
  then have "text_of (emit st cs) stderr = text_of (emit st ds) stderr" by simp
  then show "concat (map log_line cs) = concat (map log_line ds)" by (simp add: emit_def)
qed (simp add: emit_def)

section \<open>The messages of the program\<close>

lemma all_info_length [simp]: "length (all_info_calls fp) = 13"
  by (simp add: all_info_calls_def Let_def)

lemma all_info_inject [simp]: "all_info_calls fp = all_info_calls fp' \<longleftrightarrow> fp = fp'"
  by (cases fp, cases fp') (auto simp: all_info_calls_def Let_def pad_inject)

lemma all_info_place: "map place (all_info_calls fp) = map place (all_info_calls fp')"
  by (simp add: all_info_calls_def Let_def)

lemma fpt_one_line [simp]: "one_line fpt"
  by (simp add: fpt_def)

lemma all_info_one_line: "list_all one_line_call (all_info_calls fp)"
  by (simp add: all_info_calls_def Let_def)

abbreviation long_results :: "int list" where
  "long_results \<equiv> [0, 0, - 1, 0, 0, 0, 0, 0, 16, - 1, - 1, 16]"

lemmas program_log = results_log_def file_info_calls_def buffer_size_call_def content_call_def step_calls_def
  first_ops_def special_ops_def step_message_def fread_call_def

lemma results_log_length: "length (results_log fsize ptrs long_results ts) = 187"
  by (simp add: program_log)

lemma results_log_place:
  "map place (results_log fsize ptrs long_results ts) = map place (results_log fsize' ptrs' long_results ts')"
  by (simp add: program_log all_info_place [of "_ k" for k])

lemma results_log_one_line:
  assumes "\<forall>i < 3. one_line (ts ! i)"
  shows "list_all one_line_call (results_log fsize ptrs long_results ts)"
  using assms by (simp add: program_log all_info_one_line)

lemma below_three: "(\<forall>i < 3. P i) \<longleftrightarrow> P 0 \<and> P (Suc 0) \<and> P (2 :: nat)"
  by (auto simp: eval_nat_numeral less_Suc_eq)

lemma results_log_inject:
  "results_log fsize ptrs long_results ts = results_log fsize' ptrs' long_results ts' \<longleftrightarrow>
     fsize = fsize' \<and> buffer_size_call (ptrs 0) = buffer_size_call (ptrs' 0)
   \<and> (\<forall>k \<in> {1..13}. ptrs k = ptrs' k) \<and> (\<forall>i < 3. ts ! i = ts' ! i)"
proof -
  have "(\<forall>k \<in> {1..13}. ptrs k = ptrs' k) \<longleftrightarrow> (\<forall>k \<in> {Suc 0, Suc (Suc 0), Suc (Suc (Suc 0)), Suc (Suc (Suc (Suc 0))),
      Suc (Suc (Suc (Suc (Suc 0)))), Suc (Suc (Suc (Suc (Suc (Suc 0))))), Suc (Suc (Suc (Suc (Suc (Suc (Suc 0)))))),
      Suc (Suc (Suc (Suc (Suc (Suc (Suc (Suc 0))))))), 9, 10, 11, 12, 13}. ptrs k = ptrs' k)"
    by (rule ball_cong) (simp add: set_eq_iff, presburger, simp)
  then show ?thesis by (simp add: program_log pad_inject below_three conj_ac)
qed

section \<open>The log is faithful\<close>

text \<open>The pointers of the stream by their names in the structure.\<close>

definition pointer_fields :: "(string \<times> (file_ptrs \<Rightarrow> nat)) list" where
  "pointer_fields =
     [(''_IO_read_ptr'', IO_read_ptr), (''_IO_read_end'', IO_read_end), (''_IO_read_base'', IO_read_base),
      (''_IO_write_base'', IO_write_base), (''_IO_write_ptr'', IO_write_ptr), (''_IO_write_end'', IO_write_end),
      (''_IO_buf_base'', IO_buf_base), (''_IO_buf_end'', IO_buf_end),
      (''_IO_save_base'', IO_save_base), (''_IO_backup_base'', IO_backup_base), (''_IO_save_end'', IO_save_end)]"

definition shows_pointer :: "log_call list \<Rightarrow> string \<Rightarrow> nat \<Rightarrow> bool" where
  "shows_pointer cs name a \<longleftrightarrow> pad_right 16 name @ ''= '' @ pad_left 10 (pointer_text a) \<in> set (map message cs)"

lemma all_info_shows: "(name, f) \<in> set pointer_fields \<Longrightarrow> shows_pointer (all_info_calls fp) name (f fp)"
  by (auto simp: pointer_fields_def shows_pointer_def all_info_calls_def Let_def pad_right_def eval_nat_numeral)

lemma shows_more: "shows_pointer cs name a \<Longrightarrow> set cs \<subseteq> set ds \<Longrightarrow> shows_pointer ds name a"
  by (auto simp: shows_pointer_def)

lemma results_log_looks:
  assumes "k \<in> {1..13}"
  shows "set (all_info_calls (ptrs k)) \<subseteq> set (results_log fsize ptrs long_results ts)"
proof -
  have "k \<in> {Suc 0, Suc (Suc 0), Suc (Suc (Suc 0)), Suc (Suc (Suc (Suc 0))),
      Suc (Suc (Suc (Suc (Suc 0)))), Suc (Suc (Suc (Suc (Suc (Suc 0))))), Suc (Suc (Suc (Suc (Suc (Suc (Suc 0)))))),
      Suc (Suc (Suc (Suc (Suc (Suc (Suc (Suc 0))))))), 9, 10, 11, 12, 13}"
    using assms by (simp, presburger)
  then show ?thesis by (auto simp: program_log)
qed

lemma one_line_part: "one_line s \<Longrightarrow> line_part s = s"
proof -
  assume "one_line s"
  then have "takeWhile (\<lambda>c. c \<noteq> CHR 0x0A) s = s" by (auto simp: takeWhile_eq_all_conv one_line_def)
  then show ?thesis by (simp only: line_part_def Let_def less_irrefl if_False)
qed

lemma long_file_log:
  assumes "is_open st stderr" and "\<forall>k. ptr_range (ptrs k)" and "- (2 ^ 63) \<le> fsize" and "fsize < 2 ^ 63"
    and "grants A 128" and "no_nul body" and "33 \<le> length body" and "one_line (take 47 body)"
  shows "file_pointer_log A (Some fsize) ptrs (Some body) st =
    Inr (0, emit (snd (setup_logger st None LOG_LEVEL_INFO))
      (results_log fsize ptrs long_results [take 16 body, take 16 (drop 16 body), take 15 (drop 32 body)]))"
proof -
  have "take 15 (drop 32 body) = drop 32 (take 47 body)" by (simp add: drop_take)
  then have "one_line (take 15 (drop 32 body))" using assms(8) by (auto simp: one_line_def dest: in_set_dropD)
  then have "line_part (take 15 (drop 32 body)) = take 15 (drop 32 body)"
    using one_line_part by blast
  then show ?thesis
    using log_shows_results [OF assms(1-4), of A "Some body"] file_pointer_test_results [OF assms(6,5)] assms(7) by simp
qed

lemma text_parts: "take 47 x = take 16 x @ take 16 (drop 16 x) @ take 15 (drop 32 x)" for x :: string
  using take_add [of 16 31 x] take_add [of 16 15 "drop 16 x"] by simp

lemma text_read:
  fixes b c :: string
  assumes "33 \<le> length b" and "33 \<le> length c"
  shows "take 47 b = take 47 c \<longleftrightarrow>
    take 16 b = take 16 c \<and> take 16 (drop 16 b) = take 16 (drop 16 c) \<and> take 15 (drop 32 b) = take 15 (drop 32 c)"
  unfolding text_parts using assms by simp

text \<open>
  C39: the log of \<^verbatim>\<open>file_pointer_test.c\<close> is faithful. For a file of at least 33 characters, without a line end in the first 47, the
  program ends with status 0 and has logged 187 lines; after each of its 13 calls every private pointer of the stream is shown behind its
  name in the structure. Two runs log the same text exactly if the size of the file, the size of the buffer (as a
  64-bit number), all eleven pointers at each of the 13 looks, and the 47 characters that are read are the same.
\<close>

theorem log_is_faithful:
  assumes "is_open st stderr" and "grants A 128"
    and "\<forall>k. ptr_range (ptrs k)" and "- (2 ^ 63) \<le> fsize" and "fsize < 2 ^ 63"
    and "no_nul body" and "33 \<le> length body" and "one_line (take 47 body)"
    and "\<forall>k. ptr_range (ptrs' k)" and "- (2 ^ 63) \<le> fsize'" and "fsize' < 2 ^ 63"
    and "no_nul body'" and "33 \<le> length body'" and "one_line (take 47 body')"
  defines "st' \<equiv> snd (setup_logger st None LOG_LEVEL_INFO)"
  shows "(\<exists>cs. file_pointer_log A (Some fsize) ptrs (Some body) st = Inr (0, emit st' cs) \<and> length cs = 187
        \<and> (\<forall>k \<in> {1..13}. \<forall>(name, f) \<in> set pointer_fields. shows_pointer cs name (f (ptrs k))))
    \<and> (file_pointer_log A (Some fsize) ptrs (Some body) st = file_pointer_log A (Some fsize') ptrs' (Some body') st \<longleftrightarrow>
         fsize = fsize'
       \<and> (int (IO_buf_end (ptrs 0)) - int (IO_buf_base (ptrs 0))) mod 2 ^ 64
           = (int (IO_buf_end (ptrs' 0)) - int (IO_buf_base (ptrs' 0))) mod 2 ^ 64
       \<and> (\<forall>k \<in> {1..13}. ptrs k = ptrs' k) \<and> take 47 body = take 47 body')"
proof
  let ?ts = "\<lambda>body. [take 16 body, take 16 (drop 16 body), take 15 (drop 32 body)]"
  let ?cs = "results_log fsize ptrs long_results (?ts body)" and ?cs' = "results_log fsize' ptrs' long_results (?ts body')"
  note run = long_file_log [OF assms(1,3,4,5,2,6,7,8), folded st'_def]
    and run' = long_file_log [OF assms(1,9,10,11,2,12,13,14), folded st'_def]
  have "shows_pointer ?cs name (f (ptrs k))" if "k \<in> {1..13}" "(name, f) \<in> set pointer_fields" for k name f
    using shows_more [OF all_info_shows [OF that(2)] results_log_looks [OF that(1)]] .
  then show "\<exists>cs. file_pointer_log A (Some fsize) ptrs (Some body) st = Inr (0, emit st' cs) \<and> length cs = 187
      \<and> (\<forall>k \<in> {1..13}. \<forall>(name, f) \<in> set pointer_fields. shows_pointer cs name (f (ptrs k)))"
    unfolding run using results_log_length by blast
  have lines: "\<forall>i < 3. one_line (?ts x ! i)" if "one_line (take 47 x)" for x
    using that unfolding text_parts by (simp add: below_three)
  have "(file_pointer_log A (Some fsize) ptrs (Some body) st = file_pointer_log A (Some fsize') ptrs' (Some body') st) = (?cs = ?cs')"
    unfolding run run' sum.inject prod.inject emit_inject
    using log_lines_inject [OF results_log_one_line [OF lines [OF assms(8)]] results_log_one_line [OF lines [OF assms(14)]] results_log_place]
    by simp
  then show "file_pointer_log A (Some fsize) ptrs (Some body) st = file_pointer_log A (Some fsize') ptrs' (Some body') st \<longleftrightarrow>
         fsize = fsize'
       \<and> (int (IO_buf_end (ptrs 0)) - int (IO_buf_base (ptrs 0))) mod 2 ^ 64
           = (int (IO_buf_end (ptrs' 0)) - int (IO_buf_base (ptrs' 0))) mod 2 ^ 64
       \<and> (\<forall>k \<in> {1..13}. ptrs k = ptrs' k) \<and> take 47 body = take 47 body'"
    unfolding results_log_inject buffer_size_call_def text_read [OF assms(7,13)] by (simp add: below_three)
qed

text \<open>Two streams that differ in one pointer, at the last look.\<close>

definition moved_ptrs :: "nat \<Rightarrow> file_ptrs" where
  "moved_ptrs k = (if k = 13 then null_ptrs\<lparr>IO_read_end := 4096\<rparr> else null_ptrs)"

theorem log_is_faithful_witness:
  "file_pointer_log generous (Some 33) (\<lambda>k. null_ptrs) (Some ''Lorem ipsum dolor sit amet, conse'') initial_log_state
   \<noteq> file_pointer_log generous (Some 33) moved_ptrs (Some ''Lorem ipsum dolor sit amet, conse'') initial_log_state"
proof -
  have "moved_ptrs 13 \<noteq> null_ptrs" by (simp add: moved_ptrs_def null_ptrs_def)
  then have "\<not> (\<forall>k \<in> {1..13}. null_ptrs = moved_ptrs k)" by (metis atLeastAtMost_iff order_refl one_le_numeral)
  moreover have "\<forall>k. ptr_range null_ptrs" "\<forall>k. ptr_range (moved_ptrs k)"
    by (simp_all add: moved_ptrs_def ptr_range_def null_ptrs_def)
  moreover have "is_open initial_log_state stderr" by (simp add: initial_log_state_def)
  moreover have "no_nul ''Lorem ipsum dolor sit amet, conse''" by (simp add: no_nul_def NUL_def)
  moreover have "one_line (take 47 ''Lorem ipsum dolor sit amet, conse'')" by simp
  ultimately show ?thesis
    using log_is_faithful [of initial_log_state generous "\<lambda>k. null_ptrs" 33 "''Lorem ipsum dolor sit amet, conse''"
        moved_ptrs 33 "''Lorem ipsum dolor sit amet, conse''"]
    by simp
qed

end
