(* ===== verification/Small_Programs.thy ===== *)
theory Small_Programs
  imports Logger
begin

text \<open>
  Three programs that print what others provide: \<^verbatim>\<open>Miscs/link_so_test.c\<close> (two messages through the
  shared logger), \<^verbatim>\<open>Miscs/array_ptr.c\<close> (addresses of arrays and of their elements) and
  \<^verbatim>\<open>FileIO/buff_type_test.c\<close> (how streams are buffered).
\<close>

unbundle bit_operations_syntax

section \<open>common/common.h\<close>

text \<open>The two macros, which evaluate the argument they return twice; on values without effects they are as expected.\<close>

definition max_macro :: "int \<Rightarrow> int \<Rightarrow> int" where "max_macro x y = (if x > y then x else y)"
definition min_macro :: "int \<Rightarrow> int \<Rightarrow> int" where "min_macro x y = (if x > y then y else x)"

lemma macros_max_min: "max_macro = max" "min_macro = min"
  by (auto simp: max_macro_def min_macro_def max_def min_def fun_eq_iff)

section \<open>Miscs/link\_so\_test.c\<close>

definition link_so_main :: "log_state \<Rightarrow> (int \<times> log_state) cres" where
  "link_so_main st =
     (let st = snd (setup_logger st None LOG_LEVEL_DEBUG) in
      cbind (LOGGING LOG_LEVEL_DEBUG st ''link_so_test.c'' 7 ''main'' ''Test for linking .so'') (\<lambda>st.
      cbind (LOGGING LOG_LEVEL_INFO st ''link_so_test.c'' 8 ''main'' ''JUST A TEST'') (\<lambda>st.
      Inr (0, st))))"

definition link_so_calls :: "log_call list" where
  "link_so_calls =
     [(4, ''link_so_test.c'', 7, ''main'', ''Test for linking .so''),
      (3, ''link_so_test.c'', 8, ''main'', ''JUST A TEST'')]"

lemma link_so_calls_short: "\<forall>c \<in> set link_so_calls. short_call c"
  by (simp add: link_so_calls_def known_level_def no_nul_def NUL_def location_def dec_int_def
      dec_nat.simps log_prefix_def log_level_string_def pad_right_def digit_chars)

lemma link_so_main_log_all:
  "link_so_main st = cbind (log_all (snd (setup_logger st None LOG_LEVEL_DEBUG)) link_so_calls) (\<lambda>st. Inr (0, st))"
  by (simp add: link_so_main_def link_so_calls_def cbind_assoc log_levels Let_def)

text \<open>Both messages arrive on \<^verbatim>\<open>stderr\<close>, as the two lines that the logger promises.\<close>

theorem link_so_prints_both:
  "\<exists>st. link_so_main initial_log_state = Inr (0, st)
     \<and> text_of st stderr = concat (map log_line link_so_calls)"
proof -
  let ?s = "snd (setup_logger initial_log_state None LOG_LEVEL_DEBUG)"
  have "is_open ?s stderr" "target (default_log_stream ?s) = stderr" "text_of ?s stderr = []"
    by (simp_all add: setup_logger_def target_def initial_log_state_def)
  moreover have "filter (\<lambda>c. fst c \<le> default_log_level ?s) link_so_calls = link_so_calls"
    by (simp add: link_so_calls_def setup_logger_def log_levels)
  ultimately show ?thesis
    using log_all_result [OF link_so_calls_short, of ?s stderr] by (simp add: link_so_main_log_all)
qed

section \<open>Miscs/array\_ptr.c\<close>

definition array_values :: "int list" where
  "array_values = (let a = [1, 2, 3, 4, 5] in map (\<lambda>i. a ! i) [0..<5])"

text \<open>
  The eight addresses printed, for the array \<open>b\<close> of ten integers, the block at \<open>c\<close> that \<^verbatim>\<open>malloc\<close>
  returned, and the address \<open>pc\<close> of the variable \<^verbatim>\<open>c\<close>. An address plus one moves by the size of
  the object pointed to: an integer, the whole array for \<open>&b\<close>, a pointer for \<open>&c\<close>.
\<close>

definition array_addresses :: "int \<Rightarrow> int \<Rightarrow> int \<Rightarrow> int list" where
  "array_addresses b c pc =
     (let sz_int = 4; sz_ptr = 8 in
      [b, b + sz_int, b, b + 10 * sz_int, c, c + sz_int, pc, pc + sz_ptr])"

text \<open>
  What the text in front calls \<^verbatim>\<open>&(b+1)\<close> is the end of the array and not the address of its second
  element; nothing is read there.
\<close>

lemma array_program_prints:
  "array_values = [1, 2, 3, 4, 5] \<and> array_addresses b c pc ! 3 \<noteq> array_addresses b c pc ! 1
     \<and> array_addresses b c pc ! 3 = array_addresses b c pc ! 0 + 40"
  by (simp add: array_values_def array_addresses_def Let_def upt_rec)

section \<open>FileIO/buff\_type\_test.c\<close>

text \<open>
  The fields of a stream of the C library that the program reads. The two masks \<^verbatim>\<open>_IO_UNBUFFERED\<close>
  and \<^verbatim>\<open>_IO_LINE_BUF\<close> belong to the library and are parameters.
\<close>

record stdio_fields =
  io_flags :: int
  buf_base :: int
  buf_end :: int

definition pr_stdio :: "int \<Rightarrow> int \<Rightarrow> string \<Rightarrow> stdio_fields \<Rightarrow> string" where
  "pr_stdio io_unbuffered io_line_buf name fp =
     ''stream = '' @ name @ '', ''
     @ (if io_flags fp AND io_unbuffered \<noteq> 0 then ''unbuffered''
        else if io_flags fp AND io_line_buf \<noteq> 0 then ''line buffered''
        else ''fully buffered or modified'')
     @ '', buffer size = '' @ dec_int (buf_end fp - buf_base fp) @ newline"

text \<open>
  \<^verbatim>\<open>main\<close>: the text on the standard output. \<open>eof\<close> tells whether the input is empty; \<open>opened\<close> is the
  stream of \<^verbatim>\<open>test.txt\<close> after its first character has been read and whether there was none, if
  the file can be opened. Without a stream \<^verbatim>\<open>fgetc\<close> is called all the same.
\<close>

definition buff_type_main ::
  "int \<Rightarrow> int \<Rightarrow> bool \<Rightarrow> stdio_fields \<Rightarrow> stdio_fields \<Rightarrow> stdio_fields \<Rightarrow> (stdio_fields \<times> bool) option \<Rightarrow>
   (int \<times> string) cres" where
  "buff_type_main unb lb eof fin fout ferr opened =
     (let txt1 = ''enter any characher'' @ newline @ (if eof then ''getchar error'' else [])
            @ pr_stdio unb lb ''stdin'' fin @ pr_stdio unb lb ''stdout'' fout @ pr_stdio unb lb ''stderr'' ferr;
          txt2 = txt1 @ (if opened = None then ''fopen error'' else []) in
      cbind (deref opened) (\<lambda>(fp, empty_file).
      Inr (0, txt2 @ (if empty_file then ''getc error'' else []) @ pr_stdio unb lb ''test.txt'' fp)))"

text \<open>The program reports a file that cannot be opened and then reads from the null pointer.\<close>

lemma buff_type_ends:
  "(\<exists>out. buff_type_main unb lb eof fin fout ferr opened = Inr (0, out)) \<longleftrightarrow> opened \<noteq> None"
  "buff_type_main unb lb eof fin fout ferr None = Inl NullDeref"
  by (cases opened) (auto simp: buff_type_main_def Let_def)

end
