(* ===== verification/Spec2Isabelle.thy ===== *)
theory Spec2Isabelle
  imports Person_Codec Simple_Rpc Logger Pool_Properties Multi_Producer Producer_Liveness
    Condition_Variables Posix_Properties Signal_Timer Pointer_Examples
    Console Counter_Threads Pool_Client Sockets Daemon Log_Reading Small_Programs
begin

text \<open>
  A verification of the C programs of this repository.

  The repository is a collection of C programs without a common main program. Its core is the
  directory \<^verbatim>\<open>common/\<close>, a small library (byte buffer and serialization, logger, thread pool) that
  the other programs link; the rest are self-contained programs about threads, files, sockets,
  daemons, signals, command lines and pointers. The parts interact through calls only: \<^verbatim>\<open>Linux/RPC\<close> uses the serializer, the
  programs in \<^verbatim>\<open>Pthread/\<close>, \<^verbatim>\<open>Console/\<close> and others use the logger, \<^verbatim>\<open>tcp_standalone.c\<close> and \<^verbatim>\<open>thpool_test.c\<close>
  are clients of the thread pool, and \<^verbatim>\<open>producer_consumer.c\<close> has the command line of the template.

  \<^bold>\<open>Conventions.\<close> A C function is a function on explicit states with the same name. Undefined
  behaviour, endless loops and calls of \<^verbatim>\<open>exit\<close> are values \<open>Inl e\<close> of the result type \<open>'a cres\<close> of
  theory \<open>C_Prelude\<close>, normal returns are \<open>Inr v\<close>. \<^verbatim>\<open>int\<close> is an integer whose arithmetic is checked
  (\<open>c_int\<close>), \<^verbatim>\<open>unsigned\<close> and \<^verbatim>\<open>size_t\<close> wrap around, bytes are words of 8 bits. What the program
  gets from outside (whether \<^verbatim>\<open>malloc\<close> succeeds, indeterminate bytes, results of \<^verbatim>\<open>rand\<close>, the
  words of the command line, results of system calls, signals that arrive) is a parameter. A loop that might not end is a
  \<open>partial_function\<close> on options, whose value \<open>None\<close> becomes the error \<open>Diverges\<close>; no fuel is used
  anywhere, and the theorems about such loops state that they return. Concurrent programs
  are step relations, one rule for each access to shared state or region under one mutex;
  the next thread to move is chosen freely, so that the theorems hold for every schedule.

  \<^bold>\<open>Theories.\<close>

  \<^item> \<open>C_Prelude\<close>, \<open>C_Stdio\<close>: the part of C and of its library that the programs use: results, integer
    conversions, object representation of integers, \<^verbatim>\<open>memcpy\<close> on blocks, the allocator, strings in
    arrays, \<^verbatim>\<open>snprintf\<close>, decimal output and \<^verbatim>\<open>atoi\<close>.

  \<^item> \<open>Ser_Buffer\<close>: \<^verbatim>\<open>common/serialized_buffer.c\<close>. The record \<open>ser_buff\<close> is \<^verbatim>\<open>ser_buff_t\<close>; the invariant
    \<open>sb_wf\<close> relates size, cursor and block.

  \<^item> \<open>Serialize\<close>: \<^verbatim>\<open>common/serialize.c\<close> and \<^verbatim>\<open>common/deserialize.c\<close>. Appending refines the abstract byte
    stream (bytes before the cursor); the locale \<open>codec\<close> is the contract of a pair of functions
    for one type, and gives the round trip of sequences for every interpretation.

  \<^item> \<open>Person_Codec\<close>: \<^verbatim>\<open>common/serialization_test.c\<close>, two interpretations of \<open>codec\<close> and the test program.

  \<^item> \<open>Simple_Rpc\<close>: \<^verbatim>\<open>Linux/RPC/simple_rpc.c\<close>, the datagram of a call.

  \<^item> \<open>Logger\<close>: \<^verbatim>\<open>common/logger.c\<close>, \<^verbatim>\<open>logger.h\<close> and \<^verbatim>\<open>logger_test.c\<close>, refined to a filter and concatenation.

  \<^item> \<open>Step_Systems\<close>: reachability, invariants, progress, termination and refinement of step relations as
    four locales, and counting and weighing threads. All concurrent theories interpret them.

  \<^item> \<open>Job_Queue\<close>: semaphore and linked job queue of \<^verbatim>\<open>common/thpool.c\<close> on an explicit heap; it implements
    the locale \<open>fifo_queue\<close>.

  \<^item> \<open>Thread_Pool\<close>, \<open>Pool_Wait\<close>, \<open>Pool_Properties\<close>: the threads of \<^verbatim>\<open>common/thpool.c\<close>. \<open>worker_step\<close> is
    \<^verbatim>\<open>thread_do\<close>, \<open>client_step\<close> the functions of the interface, \<open>env_step\<close> the signal handler and spurious
    wake-ups. The invariant \<open>inv_pool\<close> consists of the exact counters (\<open>inv_ctl\<close>), the ownership of
    the job objects (\<open>inv_mem\<close>), the histories (\<open>inv_log\<close>) and the wake-up discipline (\<open>inv_live\<close>). \<open>next_access\<close> is
    the next access of a worker to the memory of the pool, defined or not. The
    measure \<open>effort\<close> bounds what can happen while the client waits.

  \<^item> \<open>Multi_Producer\<close>: \<^verbatim>\<open>Pthread/multiple_producer_consumer.c\<close>. Token accounting (\<open>inv_sync\<close>), the items in
    the buffer (\<open>inv_data\<close>), the measure \<open>work_left\<close>.

  \<^item> \<open>Producer_Consumer\<close>: \<^verbatim>\<open>Pthread/producer_consumer.c\<close>, with its \<^verbatim>\<open>switch\<close> over the options that
    \<^verbatim>\<open>getopt_long\<close> returns. \<open>Producer_Liveness\<close> counts the rounds that change the state.

  \<^item> \<open>C_Getopt\<close>, \<open>Console\<close>: \<^verbatim>\<open>getopt_long\<close> on the words of a command line (the array of long options is searched entry by
    entry, and past its end if the terminating one is missing), \<^verbatim>\<open>Console/console_template.c\<close>
    from these words to the state of the logger, the same for \<^verbatim>\<open>producer_consumer.c\<close>, the comparison of
    the two and of each with its usage text; \<^verbatim>\<open>Console/progress_bar.c\<close>.

  \<^item> \<open>Counter_Threads\<close>: \<^verbatim>\<open>Miscs/mutex_example.c\<close> and \<^verbatim>\<open>Miscs/pthread_join_example.c\<close> as one step relation with
    parameters (\<open>counter_step\<close> is the thread, \<open>creator_step\<close> is \<^verbatim>\<open>main\<close>), and \<^verbatim>\<open>Miscs/hello_pthread.c\<close>.

  \<^item> \<open>Thpool_Test\<close>: the racing jobs of \<^verbatim>\<open>common/thpool_test.c\<close>, by themselves.

  \<^item> \<open>Pool_Client\<close>: the pool, the client and jobs of many steps together (\<open>joint_step\<close>). The locale \<open>pool_jobs\<close>
    is what the pool relies on; its instance is \<^verbatim>\<open>thpool_test.c\<close>. Its runs are runs of \<open>Thread_Pool\<close> and of
    \<open>Thpool_Test\<close> (interpretations of \<open>refinement\<close>), which gives the safety of the whole program.

  \<^item> \<open>Sockets\<close>: \<^verbatim>\<open>Linux/Socket/\<close>, a server and a client as two processes (\<open>pair_step\<close>) and as jobs of one process
    (\<open>standalone_step\<close>), over a model of one listening socket and one connection.

  \<^item> \<open>Daemon\<close>: \<^verbatim>\<open>Linux/Syslog/syslog_example.c\<close> and \<^verbatim>\<open>Linux/Daemon/simple_daemon.c\<close> over a model of the system log
    and the file system of \<open>Posix_Files\<close>; signals arrive between any two statements.

  \<^item> \<open>Condition_Variables\<close>: \<^verbatim>\<open>Miscs/condition_variables.c\<close>.

  \<^item> \<open>Posix_Files\<close>, \<open>Posix_Properties\<close>: the programs of \<^verbatim>\<open>POSIX_File/\<close> and \<^verbatim>\<open>Linux/File/src/\<close> over a small file system.

  \<^item> \<open>Stdio_Streams\<close>: \<^verbatim>\<open>FileIO/ptr_struct_file.c\<close> and \<^verbatim>\<open>FileIO/file_pointer_test.c\<close>, streams with their buffers.
    \<open>Stdio_Logs\<close> adds the messages of the second program and relates its log to the results of its calls; \<open>Log_Reading\<close>
    shows what can be read from the log.

  \<^item> \<open>Signal_Timer\<close>: \<^verbatim>\<open>Linux/Signals/signal_timer_example.c\<close>.

  \<^item> \<open>Pointer_Examples\<close>: the small programs of \<^verbatim>\<open>Pointers/\<close>, \<^verbatim>\<open>Miscs/\<close>, \<^verbatim>\<open>Valgrind/\<close> and \<^verbatim>\<open>GDB/\<close> about pointers.

  \<^item> \<open>Small_Programs\<close>: \<^verbatim>\<open>Miscs/link_so_test.c\<close>, \<^verbatim>\<open>Miscs/array_ptr.c\<close> and \<^verbatim>\<open>FileIO/buff_type_test.c\<close>,
    and the macros of \<^verbatim>\<open>common/common.h\<close>.

  \<^bold>\<open>What the theorems show.\<close> The serializer appends and reads back exactly what was written, ends for
  every answer of the allocator, and writes out of bounds when \<^verbatim>\<open>realloc\<close> fails; the encoding of
  the null pointer is ambiguous, but whatever is read is typed and encodes to the same bytes again. The logger prints the expected lines up to its buffer size and
  can write outside the buffer beyond it. The job queue is first in, first out. The thread pool
  has no memory error until it is destroyed (and exactly one kind afterwards), its counters are exact, \<^verbatim>\<open>thpool_wait\<close> returns under
  every schedule and only when every job has been executed once; \<^verbatim>\<open>thpool_init\<close> hangs when a
  thread cannot be prepared and detaches an unset identifier when one cannot be created, \<^verbatim>\<open>thpool_destroy\<close> frees a mutex in use, and a resume can be lost. The
  bounded buffer is safe and free of deadlock for a capacity of at least 1, and stuck for 0 if there is something to produce;
  so are the single producer and consumer, whose waiting is active.
  A configuration survives being written as a command line, the configured file receives the messages
  up to the configured level, and the command lines of the two programs mean the same. Counting under a mutex loses nothing; the
  jobs that count without one end at the limit or above, but never above twice the limit plus one;
  run by the pool they are each executed by one worker and all return, and \<^verbatim>\<open>main\<close> gets past \<^verbatim>\<open>thpool_wait\<close>, under every schedule.
  The server and the client exchange their messages whenever the server is first, the program that
  runs both as jobs never does; the daemon ends after one round (its \<^verbatim>\<open>README.md\<close> says that it stays) and redirects nothing.
  The log of \<^verbatim>\<open>file_pointer_test.c\<close> determines the pointers and the text that it is about.

  \<^bold>\<open>Bounds.\<close> \<^verbatim>\<open>int\<close> has 32 bits and \<^verbatim>\<open>size_t\<close> 64; requests beyond \<^verbatim>\<open>PTRDIFF_MAX\<close> are never granted; queue
  lengths stay below \<^verbatim>\<open>INT_MAX\<close>, as the push of a job would otherwise be an overflow; a process has
  1024 descriptors. The limit of \<^verbatim>\<open>thpool_test.c\<close> is 1000; its theorems hold up to \<open>10 ^ 9\<close>, where the
  increments cannot overflow yet. A read from a connection delivers at least one byte of what has been sent.

  \<^bold>\<open>Not modelled.\<close> The functions that the jobs of an arbitrary client of the pool call (in \<open>Thread_Pool\<close> they are
  assumed to return; \<open>Pool_Client\<close> replaces the assumption by the contract \<open>pool_jobs\<close>, for programs that do not pause
  the pool and without wake-ups that have no cause), the two pools of \<^verbatim>\<open>tcp_standalone.c\<close> (only their jobs
  and waits are), a signal that stops a worker while it holds a mutex, and the log messages of
  the programs with threads, sockets and signals. The private pointers of \<^verbatim>\<open>FILE\<close> that the programs of \<^verbatim>\<open>FileIO/\<close>
  print belong to the C library; their values are a parameter. Branches for other systems than Linux are left out.
\<close>

end
